(* ===== verification/Prelude.thy ===== *)
theory Prelude
  imports Main "HOL-Library.Word" "HOL-Library.Monad_Syntax"
begin

text \<open>
  Shared vocabulary of the development: bytes, the 64-bit unsigned arithmetic of the C++
  sources, the generic lemmas on bit operations, lists and options, and the interface that every
  wire codec of the library satisfies.

  A \<open>uint8_t\<close> is an \<open>8 word\<close>. A \<open>uint64_t\<close> or \<open>std::size_t\<close> is a natural number; where the
  source's operation can leave the 64-bit range the reduction is written out with \<open>uadd\<close>, \<open>umul\<close> and
  \<open>usub\<close>. A \<open>static_cast<uint8_t>\<close> is \<open>of_nat\<close> into \<open>8 word\<close>, which truncates; the integer
  promotion of a byte is \<open>unat\<close>. A container's size is exact: no object of a C++ program
  reaches \<open>2 ^ 63\<close> bytes.
\<close>

unbundle bit_operations_syntax

type_synonym byte = "8 word"
type_synonym bytes = "byte list"

named_theorems wire_simps \<open>equations that run a parser over bytes an encoder produced\<close>

section \<open>Unsigned 64-bit arithmetic\<close>

definition uadd :: "nat \<Rightarrow> nat \<Rightarrow> nat" where
  "uadd a b = (a + b) mod 2 ^ 64"

definition usub :: "nat \<Rightarrow> nat \<Rightarrow> nat" where
  "usub a b = (a + 2 ^ 64 - b) mod 2 ^ 64"

definition umul :: "nat \<Rightarrow> nat \<Rightarrow> nat" where
  "umul a b = (a * b) mod 2 ^ 64"

lemma umul_exact [simp]: "a * b < 2 ^ 64 \<Longrightarrow> umul a b = a * b"
  by (simp add: umul_def)

lemma uadd_exact [simp]: "a + b < 2 ^ 64 \<Longrightarrow> uadd a b = a + b"
  by (simp add: uadd_def)

lemma usub_exact [simp]:
  assumes "b \<le> a" and "a < 2 ^ 64"
  shows "usub a b = a - b"
proof -
  have "a + 2 ^ 64 - b = (a - b) + 2 ^ 64" using assms(1) by simp
  then have "usub a b = (a - b) mod 2 ^ 64" unfolding usub_def by (simp only: mod_add_self2)
  then show ?thesis using assms(2) by simp
qed

lemma usub_mod: "b \<le> a \<Longrightarrow> usub a b = (a - b) mod 2 ^ 64"
  unfolding usub_def by (metis Nat.add_diff_assoc2 mod_add_self2)

lemma usub_le: "b \<le> a \<Longrightarrow> usub a b \<le> a - b"
  by (simp add: usub_mod)

lemma uadd_le: "uadd a b \<le> a + b"
  by (simp add: uadd_def)

lemma uadd_bound: "uadd a b < 2 ^ 64"
  by (simp add: uadd_def)

lemma usub_bound: "usub a b < 2 ^ 64"
  by (simp add: usub_def)

section \<open>Bits of natural numbers\<close>

lemma nat_bit_bound:
  assumes "x < 2 ^ n" and "bit (x::nat) i"
  shows "i < n"
proof -
  have "take_bit n x = x" using assms(1) by (rule take_bit_nat_eq_self)
  then have "bit (take_bit n x) i" using assms(2) by simp
  then show ?thesis by (simp add: bit_take_bit_iff)
qed

lemma push_bit_or_add:
  assumes "(x::nat) < 2 ^ n"
  shows "push_bit n a OR x = a * 2 ^ n + x"
proof -
  have "push_bit n a AND x = 0"
    by (rule bit_eqI) (use assms in \<open>auto simp: bit_simps dest: nat_bit_bound\<close>)
  then have "push_bit n a + x = push_bit n a OR x"
    by (rule disjunctive_add_eq_or)
  then show ?thesis
    by (simp add: push_bit_eq_mult)
qed

lemma and_mask_mod: "(x::nat) AND (2 ^ n - 1) = x mod 2 ^ n"
  using take_bit_eq_mask [of n x] by (simp add: take_bit_eq_mod mask_eq_exp_minus_1)

lemma and_63_mod: "(x::nat) AND 63 = x mod 64"
  using and_mask_mod [of x 6] by simp

lemma and_255_mod: "(x::nat) AND 255 = x mod 256"
  using and_mask_mod [of x 8] by simp

lemma or_64_add: "x < 64 \<Longrightarrow> (64::nat) OR x = 64 + x"
  using push_bit_or_add [of x 6 1] by (simp add: push_bit_eq_mult)

lemma or_128_add: "x < 64 \<Longrightarrow> (128::nat) OR x = 128 + x"
  using push_bit_or_add [of x 6 2] by (simp add: push_bit_eq_mult)

lemma or_192_add: "x < 64 \<Longrightarrow> (192::nat) OR x = 192 + x"
  using push_bit_or_add [of x 6 3] by (simp add: push_bit_eq_mult)

lemma unat_byte_less [simp]: "unat (b :: byte) < 256"
  using unsigned_less [of b, where ?'a = nat] by simp

lemma push_byte_or: "push_bit 8 r OR unat (b :: byte) = r * 256 + unat b"
  using push_bit_or_add [of "unat b" 8 r] by simp

lemma unat_of_nat_byte: "unat (of_nat n :: byte) = n mod 256"
  by (simp add: unat_of_nat)

lemma unat_of_nat_byte_small: "n < 256 \<Longrightarrow> unat (of_nat n :: byte) = n"
  by (simp add: unat_of_nat_byte)

lemma replicate_numeral_Cons:
  "replicate (numeral k) x = x # replicate (pred_numeral k) x"
  by (simp add: numeral_eq_Suc)

section \<open>Cursors into a buffer\<close>

lemma drop_add_append: "drop off buf = w @ rest \<Longrightarrow> drop (off + length w) buf = rest"
  using drop_drop [of "length w" off buf] by (simp add: add.commute)

lemma drop_nonempty_less: "drop off buf \<noteq> [] \<Longrightarrow> off < length buf"
  by (simp add: not_le)

lemma nth_drop_0: "drop off buf = x # rest \<Longrightarrow> buf ! off = x"
  using hd_drop_conv_nth [of off buf] drop_nonempty_less [of off buf] by simp

lemma drop_less_length: "drop off buf = x # rest \<Longrightarrow> off < length buf"
  by (rule drop_nonempty_less) simp

lemma cursor_nth: "drop off buf = xs \<Longrightarrow> i < length xs \<Longrightarrow> buf ! (off + i) = xs ! i"
  by auto

lemma cursor_length: "drop off buf = xs \<Longrightarrow> xs \<noteq> [] \<Longrightarrow> length buf = off + length xs"
  by auto

lemma shift_byte_join: "v div 2 ^ (k + 8) * 256 + v div 2 ^ k mod 256 = v div (2::nat) ^ k"
proof -
  have "v div 2 ^ (k + 8) = v div 2 ^ k div 256"
    by (simp add: power_add div_mult2_eq)
  then show ?thesis by simp
qed

section \<open>Wire codecs\<close>

text \<open>
  The contract between an encoder and the cursor-based decoder of the same format. A decoder
  reads \<open>buf\<close> from position \<open>off\<close> and returns the value with the position after it; an encoder
  returns the bytes, or \<open>None\<close> where the source throws. \<open>follow x suf\<close> says which bytes may come
  after \<open>x\<close> without being absorbed by it: formats with run-length items constrain it.
\<close>

locale wire_codec =
  fixes enc :: "'a \<Rightarrow> bytes option"
    and dec :: "bytes \<Rightarrow> nat \<Rightarrow> ('a \<times> nat) option"
    and valid :: "'a \<Rightarrow> bool"
    and follow :: "'a \<Rightarrow> bytes \<Rightarrow> bool"
  assumes enc_total: "valid x \<Longrightarrow> \<exists>w. enc x = Some w"
    and dec_enc: "valid x \<Longrightarrow> enc x = Some w \<Longrightarrow> follow x rest \<Longrightarrow> drop off buf = w @ rest \<Longrightarrow>
      dec buf off = Some (x, off + length w)"
    and dec_progress: "dec buf off = Some (x, off') \<Longrightarrow> off < off' \<and> off' \<le> length buf"
begin

lemma enc_nonempty:
  assumes "valid x" and "enc x = Some w" and "follow x []"
  shows "w \<noteq> []"
proof
  assume "w = []"
  then have "dec [] 0 = Some (x, 0)"
    using dec_enc [OF assms, of 0 "[]"] by simp
  then show False using dec_progress by blast
qed

lemma enc_injective:
  assumes "valid x" and "valid y" and "enc x = Some w" and "enc y = Some w"
    and "follow x []" and "follow y []"
  shows "x = y"
proof -
  have "dec w 0 = Some (x, length w)" using dec_enc [OF assms(1,3,5), of 0 w] by simp
  moreover have "dec w 0 = Some (y, length w)" using dec_enc [OF assms(2,4,6), of 0 w] by simp
  ultimately show ?thesis by simp
qed

end

text \<open>
  A decoder loop over such a codec: it reads items until the buffer is exhausted and fails as
  soon as one item fails. \<open>chain xs ws\<close> says that every item is followed by bytes it does not
  absorb.
\<close>

locale wire_loop = wire_codec +
  fixes dec_all :: "bytes \<Rightarrow> nat \<Rightarrow> 'a list option"
  assumes dec_all_unfold: "dec_all buf off =
      (if off < length buf then
         (case dec buf off of None \<Rightarrow> None
          | Some (x, off') \<Rightarrow> map_option (\<lambda>xs. x # xs) (dec_all buf off'))
       else Some [])"
begin

fun chain :: "('a \<times> bytes) list \<Rightarrow> bool" where
  "chain [] = True"
| "chain ((x, w) # xs) =
     (valid x \<and> enc x = Some w \<and> w \<noteq> [] \<and> follow x (concat (map snd xs)) \<and> chain xs)"

lemma dec_all_chain:
  "chain xs \<Longrightarrow> drop off buf = concat (map snd xs) \<Longrightarrow> dec_all buf off = Some (map fst xs)"
proof (induction xs arbitrary: off)
  case Nil
  then show ?case by (subst dec_all_unfold) simp
next
  case (Cons p xs)
  obtain x w where p: "p = (x, w)" by (cases p)
  with Cons.prems have d: "drop off buf = w @ concat (map snd xs)" and ne: "w \<noteq> []"
    and v: "valid x" "enc x = Some w" "follow x (concat (map snd xs))" and ch: "chain xs"
    by simp_all
  have "drop off buf \<noteq> []" using d ne by simp
  then have lt: "off < length buf" by (rule drop_nonempty_less)
  have "dec_all buf (off + length w) = Some (map fst xs)"
    using Cons.IH [OF ch drop_add_append [OF d]] .
  then show ?case
    by (subst dec_all_unfold) (simp add: lt dec_enc [OF v d] p)
qed

lemma dec_all_total_length:
  "dec_all buf off = Some xs \<Longrightarrow> length xs \<le> length buf - off"
proof (induction "length buf - off" arbitrary: off xs rule: less_induct)
  case less
  show ?case
  proof (cases "off < length buf")
    case False
    with less.prems show ?thesis by (subst (asm) dec_all_unfold) simp
  next
    case True
    with less.prems obtain x off' ys where e: "dec buf off = Some (x, off')"
      "dec_all buf off' = Some ys" "xs = x # ys"
      by (subst (asm) dec_all_unfold) (auto split: option.splits)
    note pr = dec_progress [OF e(1)]
    with True have "length buf - off' < length buf - off" by linarith
    from less.hyps [OF this e(2)] e(3) pr show ?thesis by (simp, linarith)
  qed
qed

end

end
