(* ===== verification/Stream.thy ===== *)
theory Stream
  imports Prelude "HOL-Library.Product_Lexorder"
begin

text \<open>
  One QUIC stream: \<open>example/quic-http3/src/quic/stream.cpp\<close>. The record holds the members of the class
  \<open>Stream\<close>, one definition stands for each member function. A \<open>std::map\<close> from offsets to chunks is an
  association list in ascending key order. The proofs about the two directions are in
  \<open>StreamRecv\<close> and \<open>StreamSend\<close>.
\<close>

section \<open>Stream identifiers\<close>

datatype stream_kind = ClientBidi | ServerBidi | ClientUni | ServerUni

definition stream_type :: "nat \<Rightarrow> stream_kind" where
  "stream_type stream_id =
     (let t = stream_id AND 3
      in if t = 0 then ClientBidi else if t = 1 then ServerBidi
         else if t = 2 then ClientUni else ServerUni)"

definition is_bidi :: "nat \<Rightarrow> bool" where
  "is_bidi stream_id \<longleftrightarrow> stream_id AND 2 = 0"

definition is_client_initiated :: "nat \<Rightarrow> bool" where
  "is_client_initiated stream_id \<longleftrightarrow> stream_id AND 1 = 0"

section \<open>State\<close>

datatype recv_state = Recv | SizeKnown | DataRecvd | DataRead | ResetRecvd | ResetRead

datatype send_state = SReady | SSend | SDataSent | SDataRecvd | SResetSent | SResetRecvd

type_synonym chunk = "nat \<times> bytes"

record stream =
  st_recv_chunks :: "chunk list"
  st_recv_read_offset :: nat
  st_recv_high_water :: nat
  st_recv_limit :: nat
  st_recv_final_size :: "nat option"
  st_send_buf :: bytes
  st_send_buf_head :: nat
  st_send_buf_base_offset :: nat
  st_send_next_offset :: nat
  st_send_high_water :: nat
  st_send_limit :: nat
  st_send_fin_queued :: bool
  st_send_fin_sent :: bool
  st_send_fin_acked :: bool
  st_acked_ranges :: "(nat \<times> nat) list"
  st_lost_ranges :: "(nat \<times> nat) list"
  st_reset_error :: "nat option"
  st_id :: nat
  st_recv_state :: recv_state
  st_send_state :: send_state

definition stream_init :: "nat \<Rightarrow> nat \<Rightarrow> nat \<Rightarrow> stream" where
  "stream_init stream_id initial_max_recv initial_max_send =
     \<lparr>st_recv_chunks = [], st_recv_read_offset = 0, st_recv_high_water = 0,
      st_recv_limit = initial_max_recv, st_recv_final_size = None,
      st_send_buf = [], st_send_buf_head = 0, st_send_buf_base_offset = 0,
      st_send_next_offset = 0, st_send_high_water = 0, st_send_limit = initial_max_send,
      st_send_fin_queued = False, st_send_fin_sent = False, st_send_fin_acked = False,
      st_acked_ranges = [], st_lost_ranges = [], st_reset_error = None, st_id = stream_id,
      st_recv_state = Recv, st_send_state = SReady\<rparr>"

section \<open>Receive side\<close>

definition chunk_end :: "chunk \<Rightarrow> nat" where
  "chunk_end c = fst c + length (snd c)"

text \<open>
  The two loops that merge the chunks following the chunk \<open>(k, v)\<close> into it. They return the grown
  chunk's bytes and the chunks that stay.
\<close>

fun absorb :: "nat \<Rightarrow> bytes \<Rightarrow> chunk list \<Rightarrow> bytes \<times> chunk list" where
  "absorb k v [] = (v, [])"
| "absorb k v ((k2, v2) # rest) =
     (if k2 \<le> k + length v then
        (let cur_end = k2 + length v2;
             v' = (if cur_end > k + length v
                   then v @ drop (length v2 - (cur_end - (k + length v))) v2 else v)
         in absorb k v' rest)
      else (v, (k2, v2) # rest))"

definition grow_chunk :: "chunk list \<Rightarrow> nat \<Rightarrow> bytes \<Rightarrow> chunk list \<Rightarrow> chunk list" where
  "grow_chunk before k v rest = (let (v', rest') = absorb k v rest in before @ (k, v') # rest')"

text \<open>
  Insertion of a non-empty chunk. \<open>emplace\<close> does nothing when the key is already present: the chunk
  found there keeps its bytes.
\<close>

definition insert_chunk :: "nat \<Rightarrow> bytes \<Rightarrow> chunk list \<Rightarrow> chunk list" where
  "insert_chunk put_off put_data chunks =
     (let before = takeWhile (\<lambda>c. fst c < put_off) chunks;
          rest = dropWhile (\<lambda>c. fst c < put_off) chunks
      in if before \<noteq> [] \<and> chunk_end (last before) \<ge> put_off then
           (let prev = last before; prev_end = chunk_end prev
            in if prev_end \<ge> put_off + length put_data then chunks
               else grow_chunk (butlast before) (fst prev)
                      (snd prev @ drop (prev_end - put_off) put_data) rest)
         else if rest \<noteq> [] \<and> fst (hd rest) = put_off then
           grow_chunk before put_off (snd (hd rest)) (tl rest)
         else grow_chunk before put_off put_data rest)"

text \<open>The state transitions at the end of \<open>deliver\<close>.\<close>

definition recv_transition :: "stream \<Rightarrow> stream" where
  "recv_transition s =
     (case st_recv_final_size s of
        None \<Rightarrow> s
      | Some final \<Rightarrow>
          let s = (if st_recv_state s = Recv then s\<lparr>st_recv_state := SizeKnown\<rparr> else s)
          in case st_recv_chunks s of
               first # others \<Rightarrow>
                 if fst first = st_recv_read_offset s \<and> chunk_end first = final \<and> others = []
                 then s\<lparr>st_recv_state := DataRecvd\<rparr> else s
             | [] \<Rightarrow>
                 if st_recv_read_offset s = final then s\<lparr>st_recv_state := DataRead\<rparr> else s)"

text \<open>\<open>deliver\<close> returns its result and the new state.\<close>

definition deliver :: "nat \<Rightarrow> bytes \<Rightarrow> bool \<Rightarrow> stream \<Rightarrow> bool \<times> stream" where
  "deliver offset data fin s =
     (if st_recv_state s = ResetRecvd \<or> st_recv_state s = ResetRead then (True, s)
      else
        let end' = uadd offset (length data)
        in if end' > st_recv_limit s then (False, s)
           else if (case st_recv_final_size s of
                      None \<Rightarrow> False | Some f \<Rightarrow> end' > f \<or> (fin \<and> end' \<noteq> f)) then (False, s)
           else
             let s = (if fin then s\<lparr>st_recv_final_size := Some end'\<rparr> else s);
                 s = (if end' > st_recv_high_water s then s\<lparr>st_recv_high_water := end'\<rparr> else s);
                 (put_off, put_data) =
                   (if offset < st_recv_read_offset s then
                      let drop_n = st_recv_read_offset s - offset
                      in if drop_n \<ge> length data then (st_recv_read_offset s, [])
                         else (st_recv_read_offset s, drop drop_n data)
                    else (offset, data));
                 s = (if put_data \<noteq> []
                      then s\<lparr>st_recv_chunks := insert_chunk put_off put_data (st_recv_chunks s)\<rparr>
                      else s)
             in (True, recv_transition s))"

text \<open>\<open>read_contiguous\<close> returns the bytes appended to \<open>out\<close> and the FIN flag.\<close>

definition read_contiguous :: "stream \<Rightarrow> bytes \<times> bool \<times> stream" where
  "read_contiguous s =
     (case st_recv_chunks s of
        [] \<Rightarrow>
          if st_recv_final_size s = Some (st_recv_read_offset s)
          then ([], True, s\<lparr>st_recv_state := DataRead\<rparr>) else ([], False, s)
      | first # others \<Rightarrow>
          if fst first \<noteq> st_recv_read_offset s then ([], False, s)
          else
            let s = s\<lparr>st_recv_read_offset := st_recv_read_offset s + length (snd first),
                      st_recv_chunks := others\<rparr>
            in if st_recv_final_size s = Some (st_recv_read_offset s)
               then (snd first, True, s\<lparr>st_recv_state := DataRead\<rparr>)
               else (snd first, False, s))"

definition set_recv_limit :: "nat \<Rightarrow> stream \<Rightarrow> bool \<times> stream" where
  "set_recv_limit new_limit s =
     (if new_limit \<le> st_recv_limit s then (False, s)
      else (True, s\<lparr>st_recv_limit := new_limit\<rparr>))"

definition reset_recvd :: "nat \<Rightarrow> nat \<Rightarrow> stream \<Rightarrow> bool \<times> stream" where
  "reset_recvd final_size app_error s =
     (if (case st_recv_final_size s of None \<Rightarrow> False | Some f \<Rightarrow> f \<noteq> final_size) then (False, s)
      else if final_size > st_recv_limit s then (False, s)
      else (True, s\<lparr>st_recv_final_size := Some final_size,
                    st_recv_high_water := max (st_recv_high_water s) final_size,
                    st_reset_error := Some app_error, st_recv_state := ResetRecvd,
                    st_recv_chunks := []\<rparr>))"

section \<open>Send side\<close>

definition stream_write :: "bytes \<Rightarrow> bool \<Rightarrow> stream \<Rightarrow> stream" where
  "stream_write bs fin s =
     (if st_send_state s \<in> {SResetSent, SResetRecvd, SDataSent, SDataRecvd} then s
      else
        let s = s\<lparr>st_send_buf := st_send_buf s @ bs,
                  st_send_high_water := st_send_high_water s + length bs\<rparr>;
            s = (if fin then s\<lparr>st_send_fin_queued := True\<rparr> else s)
        in if st_send_state s = SReady then s\<lparr>st_send_state := SSend\<rparr> else s)"

text \<open>
  The copy \<open>data_out.assign(send_buf_.begin() + buf_off, send_buf_.begin() + buf_off + take)\<close> for the
  absolute offset \<open>off\<close>; outside the buffer it is undefined (\<open>None\<close>).
\<close>

definition buf_slice :: "stream \<Rightarrow> nat \<Rightarrow> nat \<Rightarrow> bytes option" where
  "buf_slice s off n =
     (let buf_off = st_send_buf_head s + (off - st_send_buf_base_offset s)
      in if off < st_send_buf_base_offset s \<or> buf_off + n > length (st_send_buf s) then None
         else Some (take n (drop buf_off (st_send_buf s))))"

record pull_result =
  pr_take :: nat
  pr_offset :: nat
  pr_data :: bytes
  pr_fin :: bool

text \<open>A chunk carrying only the FIN, if everything written is on the wire and the FIN is not.\<close>

definition fin_only :: "nat \<Rightarrow> stream \<Rightarrow> pull_result \<times> stream" where
  "fin_only offset_in s =
     (if st_send_fin_queued s \<and> \<not> st_send_fin_sent s \<and>
         st_send_next_offset s = st_send_high_water s then
        (\<lparr>pr_take = 0, pr_offset = st_send_next_offset s, pr_data = [], pr_fin = True\<rparr>,
         let s = s\<lparr>st_send_fin_sent := True\<rparr>
         in if st_send_state s = SSend then s\<lparr>st_send_state := SDataSent\<rparr> else s)
      else (\<lparr>pr_take = 0, pr_offset = offset_in, pr_data = [], pr_fin = False\<rparr>, s))"

text \<open>Retransmission of the front of \<open>lost_ranges_\<close>.\<close>

definition pull_lost :: "nat \<Rightarrow> nat \<times> nat \<Rightarrow> (nat \<times> nat) list \<Rightarrow> stream \<Rightarrow>
    (pull_result \<times> stream) option" where
  "pull_lost max_bytes r others s =
     (let n = min max_bytes (snd r)
      in do {
        data \<leftarrow> buf_slice s (fst r) n;
        let fin = (st_send_fin_queued s \<and> fst r + n = st_send_high_water s);
        let s = (if fin then s\<lparr>st_send_fin_sent := True\<rparr> else s);
        let s = s\<lparr>st_lost_ranges :=
                    (if n = snd r then others else (fst r + n, snd r - n) # others)\<rparr>;
        Some (\<lparr>pr_take = n, pr_offset = fst r, pr_data = data, pr_fin = fin\<rparr>, s)
      })"

definition pull_fresh :: "nat \<Rightarrow> nat \<Rightarrow> nat \<Rightarrow> stream \<Rightarrow> (pull_result \<times> stream) option" where
  "pull_fresh offset_in max_bytes max_fresh s =
     (if st_send_next_offset s \<ge> st_send_limit s then Some (fin_only offset_in s)
      else
        let window = st_send_limit s - st_send_next_offset s;
            avail = usub (st_send_high_water s) (st_send_next_offset s);
            n = min (min (min max_bytes window) avail) max_fresh
        in if n = 0 then Some (fin_only offset_in s)
           else do {
             data \<leftarrow> buf_slice s (st_send_next_offset s) n;
             let off = st_send_next_offset s;
             let s = s\<lparr>st_send_next_offset := st_send_next_offset s + n\<rparr>;
             let fin = (st_send_fin_queued s \<and> st_send_next_offset s = st_send_high_water s
                        \<and> \<not> st_send_fin_sent s);
             let s = (if fin then
                        (let s = s\<lparr>st_send_fin_sent := True\<rparr>
                         in if st_send_state s = SSend then s\<lparr>st_send_state := SDataSent\<rparr> else s)
                      else s);
             Some (\<lparr>pr_take = n, pr_offset = off, pr_data = data, pr_fin = fin\<rparr>, s)
           })"

text \<open>
  \<open>offset_in\<close> is what the caller's variable \<open>offset_out\<close> holds before the call; it keeps that value
  when there is nothing to send.
\<close>

definition pull_send :: "nat \<Rightarrow> nat \<Rightarrow> nat \<Rightarrow> stream \<Rightarrow> (pull_result \<times> stream) option" where
  "pull_send offset_in max_bytes max_fresh s =
     (if max_bytes = 0
      then Some (\<lparr>pr_take = 0, pr_offset = offset_in, pr_data = [], pr_fin = False\<rparr>, s)
      else case st_lost_ranges s of
             r # others \<Rightarrow> pull_lost max_bytes r others s
           | [] \<Rightarrow> pull_fresh offset_in max_bytes max_fresh s)"

definition try_advance_send_state_after_ack :: "stream \<Rightarrow> stream" where
  "try_advance_send_state_after_ack s =
     (let buf_empty = (length (st_send_buf s) = st_send_buf_head s)
      in if st_send_state s = SDataSent \<and> buf_empty \<and> st_send_fin_acked s
         then s\<lparr>st_send_state := SDataRecvd\<rparr> else s)"

text \<open>The loop that advances the head over acknowledged ranges at the front of the buffer.\<close>

fun trim_acked :: "(nat \<times> nat) list \<Rightarrow> stream \<Rightarrow> stream" where
  "trim_acked [] s = s\<lparr>st_acked_ranges := []\<rparr>"
| "trim_acked ((off, n) # rs) s =
     (if off = st_send_buf_base_offset s then
        trim_acked rs (s\<lparr>st_send_buf_head := st_send_buf_head s + n,
                         st_send_buf_base_offset := st_send_buf_base_offset s + n\<rparr>)
      else s\<lparr>st_acked_ranges := (off, n) # rs\<rparr>)"

definition kCompactThreshold :: nat where "kCompactThreshold = 8 * 1024"

text \<open>Moving from beyond the end of the buffer is undefined (\<open>None\<close>).\<close>

definition compact :: "stream \<Rightarrow> stream option" where
  "compact s =
     (if st_send_buf_head s > kCompactThreshold \<or>
         st_send_buf_head s * 2 > length (st_send_buf s) then
        (if st_send_buf_head s > length (st_send_buf s) then None
         else Some (s\<lparr>st_send_buf := drop (st_send_buf_head s) (st_send_buf s),
                      st_send_buf_head := 0\<rparr>))
      else Some s)"

definition on_acked :: "nat \<Rightarrow> nat \<Rightarrow> stream \<Rightarrow> stream option" where
  "on_acked offset len s =
     (if len = 0 then
        Some (if st_send_fin_sent s
              then try_advance_send_state_after_ack (s\<lparr>st_send_fin_acked := True\<rparr>) else s)
      else do {
        let s = trim_acked (sort (st_acked_ranges s @ [(offset, len)])) s;
        s \<leftarrow> compact s;
        let s = (if st_send_fin_sent s \<and> offset + len \<ge> st_send_high_water s
                 then s\<lparr>st_send_fin_acked := True\<rparr> else s);
        Some (try_advance_send_state_after_ack s)
      })"

definition on_lost :: "nat \<Rightarrow> nat \<Rightarrow> stream \<Rightarrow> stream" where
  "on_lost offset len s =
     (let s = (if len > 0 then s\<lparr>st_lost_ranges := st_lost_ranges s @ [(offset, len)]\<rparr> else s)
      in if st_send_fin_sent s \<and> offset + len \<ge> st_send_high_water s
         then s\<lparr>st_send_fin_sent := False\<rparr> else s)"

definition set_send_limit :: "nat \<Rightarrow> stream \<Rightarrow> stream" where
  "set_send_limit new_limit s =
     (if new_limit > st_send_limit s then s\<lparr>st_send_limit := new_limit\<rparr> else s)"

definition send_buffer_size :: "stream \<Rightarrow> nat" where
  "send_buffer_size s = length (st_send_buf s) - st_send_buf_head s"

end
