(* ===== verification/StreamSend.thy ===== *)
theory StreamSend
  imports Stream "HOL-Library.Multiset"
begin

text \<open>
  The send side of a stream. The ghost state is the list \<open>W\<close> of all bytes the application has written
  and the list \<open>F\<close> of chunks that are in flight: handed out by \<open>pull_send\<close> and not yet reported
  acknowledged or lost. The invariant is an ownership partition: the chunks that are acknowledged but
  still buffered, lost, and in flight tile the offsets from the start of the buffer to the nxt fresh
  offset. It gives that no copy leaves the buffer, that every chunk carries the bytes written at its
  offsets, and that the buffer drains.
\<close>

section \<open>Tilings\<close>

fun tiling :: "nat \<Rightarrow> (nat \<times> nat) list \<Rightarrow> nat \<Rightarrow> bool" where
  "tiling a [] b = (a = b)"
| "tiling a ((off, n) # rs) b = (off = a \<and> 0 < n \<and> tiling (a + n) rs b)"

definition tiles :: "nat \<Rightarrow> nat \<Rightarrow> (nat \<times> nat) multiset \<Rightarrow> bool" where
  "tiles a b M \<longleftrightarrow> (\<exists>xs. mset xs = M \<and> tiling a xs b)"

lemma tiling_append: "tiling a (xs @ ys) b \<longleftrightarrow> (\<exists>m. tiling a xs m \<and> tiling m ys b)"
  by (induction xs arbitrary: a) auto

lemma tiling_le: "tiling a xs b \<Longrightarrow> a \<le> b"
  by (induction a xs b rule: tiling.induct) auto

lemma tiling_member:
  "tiling a xs b \<Longrightarrow> (off, n) \<in> set xs \<Longrightarrow> a \<le> off \<and> off + n \<le> b \<and> 0 < n"
  by (induction a xs b rule: tiling.induct) (use tiling_le in fastforce)+

lemma tiles_member: "tiles a b M \<Longrightarrow> (off, n) \<in># M \<Longrightarrow> a \<le> off \<and> off + n \<le> b \<and> 0 < n"
  by (auto simp: tiles_def dest: tiling_member)

lemma tiles_le: "tiles a b M \<Longrightarrow> a \<le> b"
  by (auto simp: tiles_def dest: tiling_le)

lemma tiles_extend:
  assumes "tiles a b M" and "0 < n"
  shows "tiles a (b + n) (add_mset (b, n) M)"
proof -
  obtain xs where "mset xs = M" "tiling a xs b" using assms(1) by (auto simp: tiles_def)
  then have "mset (xs @ [(b, n)]) = add_mset (b, n) M" "tiling a (xs @ [(b, n)]) (b + n)"
    using assms(2) by (simp_all add: tiling_append)
  then show ?thesis unfolding tiles_def by blast
qed

lemma tiles_split:
  assumes "tiles a b (add_mset (off, n) M)" and "0 < k" and "k < n"
  shows "tiles a b (add_mset (off, k) (add_mset (off + k, n - k) M))"
proof -
  obtain xs where xs: "mset xs = add_mset (off, n) M" "tiling a xs b"
    using assms(1) by (auto simp: tiles_def)
  then have "(off, n) \<in> set xs" by (metis set_mset_mset union_single_eq_member)
  then obtain ys zs where s: "xs = ys @ (off, n) # zs" by (meson split_list)
  then have "mset (ys @ (off, k) # (off + k, n - k) # zs) =
      add_mset (off, k) (add_mset (off + k, n - k) M)" using xs(1) by simp
  moreover have "tiling a (ys @ (off, k) # (off + k, n - k) # zs) b"
    using xs(2) assms(2,3) by (auto simp: s tiling_append)
  ultimately show ?thesis unfolding tiles_def by blast
qed

text \<open>Only one chunk starts at the lower end of a tiling; taking it away leaves a tiling.\<close>

lemma tiles_first:
  assumes "tiles a b (add_mset (a, n) M)"
  shows "tiles (a + n) b M"
proof -
  obtain xs where xs: "mset xs = add_mset (a, n) M" "tiling a xs b"
    using assms by (auto simp: tiles_def)
  then obtain m ys where ys: "xs = (a, m) # ys" "0 < m" "tiling (a + m) ys b"
    by (cases xs) auto
  have "(a, n) \<in> set xs" by (metis set_mset_mset union_single_eq_member xs(1))
  then have "m = n" using ys tiling_member [OF ys(3), of a n] by auto
  then show ?thesis using xs(1) ys unfolding tiles_def by auto
qed

lemma tiles_none_first:
  assumes "tiles a b M" and "\<forall>r \<in># M. fst r \<noteq> a"
  shows "a = b \<and> M = {#}"
proof -
  obtain xs where xs: "mset xs = M" "tiling a xs b" using assms(1) by (auto simp: tiles_def)
  have "xs = []"
  proof (cases xs)
    case (Cons x ys)
    then have "fst x = a" "x \<in># M" using xs by (cases x; auto)+
    then show ?thesis using assms(2) by blast
  qed
  then show ?thesis using xs by auto
qed

section \<open>Invariant\<close>

definition send_inv :: "bytes \<Rightarrow> (nat \<times> nat) list \<Rightarrow> stream \<Rightarrow> bool" where
  "send_inv W F s \<longleftrightarrow>
     st_send_buf_head s \<le> length (st_send_buf s) \<and> st_send_buf_base_offset s \<le> length W \<and>
     drop (st_send_buf_head s) (st_send_buf s) = drop (st_send_buf_base_offset s) W \<and>
     st_send_high_water s = length W \<and> st_send_next_offset s \<le> length W \<and>
     st_send_next_offset s \<le> st_send_limit s \<and>
     tiles (st_send_buf_base_offset s) (st_send_next_offset s)
       (mset (st_acked_ranges s) + mset (st_lost_ranges s) + mset F) \<and>
     (\<forall>r \<in> set (st_acked_ranges s). fst r \<noteq> st_send_buf_base_offset s)"

lemma send_inv_chunk:
  assumes "send_inv W F s" and "(off, n) \<in> set (st_acked_ranges s @ st_lost_ranges s @ F)"
  shows "0 < n"
  using assms tiles_member [of _ _ "mset (st_acked_ranges s) + mset (st_lost_ranges s) + mset F" off n]
  unfolding send_inv_def by auto

text \<open>The flags and the state do not matter to it.\<close>

lemma send_inv_flags [simp]:
  "send_inv W F (s\<lparr>st_send_fin_queued := b\<rparr>) = send_inv W F s"
  "send_inv W F (s\<lparr>st_send_fin_sent := b\<rparr>) = send_inv W F s"
  "send_inv W F (s\<lparr>st_send_fin_acked := b\<rparr>) = send_inv W F s"
  "send_inv W F (s\<lparr>st_send_state := st\<rparr>) = send_inv W F s"
  by (simp_all add: send_inv_def)

text \<open>A copy of \<open>n\<close> bytes at \<open>off\<close> between the base and the end of what was written.\<close>

lemma buf_slice_written:
  assumes "send_inv W F s" and "st_send_buf_base_offset s \<le> off" and "off + n \<le> length W"
  shows "buf_slice s off n = Some (take n (drop off W))"
proof -
  let ?base = "st_send_buf_base_offset s" and ?head = "st_send_buf_head s"
  have d: "drop ?head (st_send_buf s) = drop ?base W" and h: "?head \<le> length (st_send_buf s)"
    using assms(1) by (simp_all add: send_inv_def)
  have len: "length (st_send_buf s) - ?head = length W - ?base"
    using arg_cong [OF d, of length] by simp
  have "drop (?head + (off - ?base)) (st_send_buf s) = drop (off - ?base) (drop ?head (st_send_buf s))"
    by (simp add: add.commute)
  also have "\<dots> = drop off W" unfolding d using assms(2) by simp
  finally show ?thesis using assms(2,3) len h by (simp add: buf_slice_def Let_def)
qed

lemma send_inv_init: "send_inv [] [] (stream_init i r l)"
  by (simp add: send_inv_def stream_init_def tiles_def)

definition writable :: "stream \<Rightarrow> bool" where
  "writable s \<longleftrightarrow> st_send_state s = SReady \<or> st_send_state s = SSend"

lemma write_inv:
  assumes "send_inv W F s"
  shows "send_inv (if writable s then W @ bs else W) F (stream_write bs fin s)"
proof (cases "writable s")
  case True
  then have "st_send_state s \<notin> {SResetSent, SResetRecvd, SDataSent, SDataRecvd}"
    by (auto simp: writable_def)
  with True assms show ?thesis by (auto simp: stream_write_def Let_def send_inv_def)
next
  case False
  then have "st_send_state s \<in> {SResetSent, SResetRecvd, SDataSent, SDataRecvd}"
    by (cases "st_send_state s") (auto simp: writable_def)
  with False assms show ?thesis by (simp add: stream_write_def)
qed

section \<open>Handing out chunks\<close>

text \<open>The in-flight list after a call of \<open>pull_send\<close>.\<close>

definition in_flight :: "pull_result \<Rightarrow> (nat \<times> nat) list \<Rightarrow> (nat \<times> nat) list" where
  "in_flight p F = (if 0 < pr_take p then (pr_offset p, pr_take p) # F else F)"

text \<open>What the caller of \<open>pull_send\<close> may rely on.\<close>

definition pulled :: "bytes \<Rightarrow> nat \<Rightarrow> stream \<Rightarrow> pull_result \<Rightarrow> bool" where
  "pulled W max_bytes s p \<longleftrightarrow> pr_take p \<le> max_bytes \<and>
     pr_data p = (if pr_take p = 0 then [] else take (pr_take p) (drop (pr_offset p) W)) \<and>
     length (pr_data p) = pr_take p \<and>
     (0 < pr_take p \<longrightarrow> pr_offset p + pr_take p \<le> st_send_limit s) \<and>
     (pr_fin p \<longrightarrow> st_send_fin_queued s \<and> pr_offset p + pr_take p = length W)"

lemma fin_only_pulled:
  assumes "send_inv W F s" and "fin_only o_in s = (p, s')"
  shows "pulled W m s p \<and> send_inv W (in_flight p F) s'"
proof -
  have "st_send_high_water s = length W" using assms(1) by (simp add: send_inv_def)
  then show ?thesis
    using assms by (auto simp: fin_only_def pulled_def in_flight_def Let_def split: if_splits)
qed

lemma pull_lost_pulled:
  assumes inv: "send_inv W F s" and l: "st_lost_ranges s = (off, n) # rs" and "0 < m"
  shows "\<exists>p s'. pull_lost m (off, n) rs s = Some (p, s') \<and> pulled W m s p \<and>
    send_inv W (in_flight p F) s' \<and> pr_offset p = off \<and> pr_take p = min m n"
proof -
  let ?k = "min m n" and ?base = "st_send_buf_base_offset s" and ?next = "st_send_next_offset s"
  let ?M = "mset (st_acked_ranges s) + mset rs + mset F"
  have t: "tiles ?base ?next (add_mset (off, n) ?M)" and nxt: "?next \<le> length W" "?next \<le> st_send_limit s"
    and hw: "st_send_high_water s = length W"
    using inv l by (simp_all add: send_inv_def)
  have r: "?base \<le> off" "off + n \<le> ?next" "0 < n" using tiles_member [OF t, of off n] by simp_all
  let ?data = "take ?k (drop off W)"
  let ?fin = "st_send_fin_queued s \<and> off + ?k = length W"
  let ?s' = "(if ?fin then s\<lparr>st_send_fin_sent := True\<rparr> else s)
    \<lparr>st_lost_ranges := (if ?k = n then rs else (off + ?k, n - ?k) # rs)\<rparr>"
  let ?p = "\<lparr>pr_take = ?k, pr_offset = off, pr_data = ?data, pr_fin = ?fin\<rparr>"
  have "buf_slice s off ?k = Some ?data" using buf_slice_written [OF inv r(1)] r(2) nxt by simp
  then have res: "pull_lost m (off, n) rs s = Some (?p, ?s')"
    by (simp add: pull_lost_def Let_def hw)
  have p: "pulled W m s ?p" using r nxt \<open>0 < m\<close> by (simp add: pulled_def)
  have "tiles ?base ?next (add_mset (off, ?k)
      (mset (if ?k = n then rs else (off + ?k, n - ?k) # rs) + mset (st_acked_ranges s) + mset F))"
  proof (cases "?k = n")
    case True
    with t show ?thesis by (simp add: ac_simps)
  next
    case False
    with tiles_split [OF t, of ?k] \<open>0 < m\<close> r(3) show ?thesis by (simp add: ac_simps min_def split: if_splits)
  qed
  then have "send_inv W ((off, ?k) # F)
      (s\<lparr>st_lost_ranges := (if ?k = n then rs else (off + ?k, n - ?k) # rs)\<rparr>)"
    using inv by (simp add: send_inv_def ac_simps)
  then have "send_inv W ((off, ?k) # F) ?s'" by (simp add: send_inv_def)
  with res p r(3) \<open>0 < m\<close> show ?thesis by (auto simp: in_flight_def)
qed

lemma pull_fresh_pulled:
  assumes inv: "send_inv W F s" and W: "length W < 2 ^ 64"
  shows "\<exists>p s'. pull_fresh o_in m mf s = Some (p, s') \<and> pulled W m s p \<and> send_inv W (in_flight p F) s'"
proof -
  let ?next = "st_send_next_offset s"
  define n where
    "n = min (min (min m (st_send_limit s - ?next)) (usub (st_send_high_water s) ?next)) mf"
  note fresh = pull_fresh_def [of o_in m mf s, unfolded Let_def, folded n_def]
  have nxt: "?next \<le> length W" "st_send_high_water s = length W"
    "st_send_buf_base_offset s \<le> ?next"
    using inv tiles_le [of "st_send_buf_base_offset s" ?next] unfolding send_inv_def by blast+
  obtain pf sf where fo: "fin_only o_in s = (pf, sf)" by (cases "fin_only o_in s")
  show ?thesis
  proof (cases "?next \<ge> st_send_limit s \<or> n = 0")
    case True
    then have "pull_fresh o_in m mf s = Some (pf, sf)" by (auto simp: fresh fo)
    then show ?thesis using fin_only_pulled [OF inv fo] by blast
  next
    case False
    let ?fin = "st_send_fin_queued s \<and> ?next + n = st_send_high_water s \<and> \<not> st_send_fin_sent s"
    let ?p = "\<lparr>pr_take = n, pr_offset = ?next, pr_data = take n (drop ?next W), pr_fin = ?fin\<rparr>"
    let ?s1 = "s\<lparr>st_send_next_offset := ?next + n\<rparr>"
    let ?s' = "if ?fin then (let s = ?s1\<lparr>st_send_fin_sent := True\<rparr>
        in if st_send_state s = SSend then s\<lparr>st_send_state := SDataSent\<rparr> else s) else ?s1"
    have le: "?next + n \<le> length W" "?next + n \<le> st_send_limit s" "0 < n" "n \<le> m"
    proof -
      have "n \<le> st_send_limit s - ?next" "n \<le> usub (st_send_high_water s) ?next" by (simp_all add: n_def)
      moreover have "usub (st_send_high_water s) ?next = length W - ?next"
        using nxt W by simp
      ultimately show "?next + n \<le> length W" "?next + n \<le> st_send_limit s"
        using False nxt by linarith+
      show "0 < n" "n \<le> m" using False by (simp_all add: n_def)
    qed
    then have "pull_fresh o_in m mf s = Some (?p, ?s')"
      using False buf_slice_written [OF inv nxt(3) le(1)] by (simp add: fresh Let_def)
    moreover have "pulled W m s ?p" using le nxt(2) by (simp add: pulled_def)
    moreover have "send_inv W ((?next, n) # F) ?s1"
      using inv le tiles_extend [of _ ?next _ n] by (simp add: send_inv_def)
    moreover from this have "send_inv W ((?next, n) # F) ?s'" by (auto simp: Let_def)
    ultimately show ?thesis using le(3) by (auto simp: in_flight_def)
  qed
qed

lemma pull_send_pulled:
  assumes inv: "send_inv W F s" and W: "length W < 2 ^ 64"
  shows "\<exists>p s'. pull_send o_in m mf s = Some (p, s') \<and> pulled W m s p \<and> send_inv W (in_flight p F) s' \<and>
    (0 < m \<longrightarrow> (\<forall>r rs. st_lost_ranges s = r # rs \<longrightarrow> pr_offset p = fst r \<and> pr_take p = min m (snd r)))"
proof (cases "m = 0")
  case True
  then show ?thesis using inv by (simp add: pull_send_def pulled_def in_flight_def)
next
  case False
  show ?thesis
  proof (cases "st_lost_ranges s")
    case Nil
    then show ?thesis using pull_fresh_pulled [OF inv W, of o_in m mf] False by (simp add: pull_send_def)
  next
    case (Cons r rs)
    then show ?thesis
      using pull_lost_pulled [OF inv, of "fst r" "snd r" rs m] False by (simp add: pull_send_def)
  qed
qed

section \<open>Acknowledgement and loss\<close>

definition live_buf :: "bytes \<Rightarrow> stream \<Rightarrow> bool" where
  "live_buf W s \<longleftrightarrow> st_send_buf_head s \<le> length (st_send_buf s) \<and>
     st_send_buf_base_offset s \<le> length W \<and>
     drop (st_send_buf_head s) (st_send_buf s) = drop (st_send_buf_base_offset s) W"

lemma live_buf_advance:
  assumes "live_buf W s" and "st_send_buf_base_offset s + n \<le> length W"
  shows "live_buf W (s\<lparr>st_send_buf_head := st_send_buf_head s + n,
    st_send_buf_base_offset := st_send_buf_base_offset s + n\<rparr>)"
proof -
  have d: "drop (st_send_buf_head s) (st_send_buf s) = drop (st_send_buf_base_offset s) W"
    and h: "st_send_buf_head s \<le> length (st_send_buf s)"
    using assms(1) by (simp_all add: live_buf_def)
  have "length (st_send_buf s) - st_send_buf_head s = length W - st_send_buf_base_offset s"
    using arg_cong [OF d, of length] by simp
  then have "st_send_buf_head s + n \<le> length (st_send_buf s)" using assms(2) h by linarith
  moreover have "drop (st_send_buf_head s + n) (st_send_buf s) =
      drop (st_send_buf_base_offset s + n) W"
    using arg_cong [OF d, of "drop n"] by (simp add: add.commute)
  ultimately show ?thesis using assms(2) by (simp add: live_buf_def)
qed

text \<open>The trimming loop on a sorted list keeps the tiling and stops when nothing starts at the base.\<close>

lemma trim_acked_tiles:
  assumes "sorted rs" and "tiles (st_send_buf_base_offset s) b (mset rs + M)" and "b \<le> length W"
    and "live_buf W s"
  shows "live_buf W (trim_acked rs s) \<and>
    tiles (st_send_buf_base_offset (trim_acked rs s)) b (mset (st_acked_ranges (trim_acked rs s)) + M) \<and>
    (\<forall>r \<in> set (st_acked_ranges (trim_acked rs s)). fst r \<noteq> st_send_buf_base_offset (trim_acked rs s))"
  using assms
proof (induction rs s rule: trim_acked.induct)
  case (1 s)
  then show ?case by (simp add: live_buf_def)
next
  case (2 off n rs s)
  show ?case
  proof (cases "off = st_send_buf_base_offset s")
    case True
    have t: "tiles (off + n) b (mset rs + M)"
      using "2.prems"(2) True tiles_first [of off b n "mset rs + M"] by simp
    have "st_send_buf_base_offset s + n \<le> length W"
      using tiles_le [OF t] "2.prems"(3) True by simp
    from "2.IH" [OF True _ _ "2.prems"(3) live_buf_advance [OF "2.prems"(4) this]]
    show ?thesis using "2.prems"(1) True t by simp
  next
    case False
    have "st_send_buf_base_offset s < off"
      using tiles_member [OF "2.prems"(2), of off n] False by simp
    moreover have "off \<le> fst r" if "r \<in> set rs" for r
      using that "2.prems"(1) by (auto simp: less_eq_prod_def)
    ultimately show ?thesis using "2.prems" False by (fastforce simp: live_buf_def)
  qed
qed

lemma trim_acked_frame [simp]:
  "st_send_next_offset (trim_acked rs s) = st_send_next_offset s"
  "st_send_high_water (trim_acked rs s) = st_send_high_water s"
  "st_send_limit (trim_acked rs s) = st_send_limit s"
  "st_lost_ranges (trim_acked rs s) = st_lost_ranges s"
  "st_send_state (trim_acked rs s) = st_send_state s"
  "st_send_fin_sent (trim_acked rs s) = st_send_fin_sent s"
  "st_send_fin_acked (trim_acked rs s) = st_send_fin_acked s"
  by (induction rs s rule: trim_acked.induct) auto

lemma compact_live:
  assumes "live_buf W s"
  shows "\<exists>buf h. compact s = Some (s\<lparr>st_send_buf := buf, st_send_buf_head := h\<rparr>) \<and>
    live_buf W (s\<lparr>st_send_buf := buf, st_send_buf_head := h\<rparr>)"
proof (cases "st_send_buf_head s > kCompactThreshold \<or> st_send_buf_head s * 2 > length (st_send_buf s)")
  case True
  then show ?thesis using assms
    by (intro exI [of _ "drop (st_send_buf_head s) (st_send_buf s)"] exI [of _ 0])
      (simp add: compact_def live_buf_def)
next
  case False
  then have "compact s = Some (s\<lparr>st_send_buf := st_send_buf s, st_send_buf_head := st_send_buf_head s\<rparr>)"
    by (simp add: compact_def)
  moreover have "live_buf W (s\<lparr>st_send_buf := st_send_buf s, st_send_buf_head := st_send_buf_head s\<rparr>)"
    using assms by (simp add: live_buf_def)
  ultimately show ?thesis by blast
qed

lemma send_inv_live:
  "send_inv W F s \<longleftrightarrow> live_buf W s \<and> st_send_high_water s = length W \<and>
     st_send_next_offset s \<le> length W \<and> st_send_next_offset s \<le> st_send_limit s \<and>
     tiles (st_send_buf_base_offset s) (st_send_next_offset s)
       (mset (st_acked_ranges s) + mset (st_lost_ranges s) + mset F) \<and>
     (\<forall>r \<in> set (st_acked_ranges s). fst r \<noteq> st_send_buf_base_offset s)"
  by (auto simp: send_inv_def live_buf_def)

lemma try_advance_inv [simp]:
  "send_inv W F (try_advance_send_state_after_ack s) = send_inv W F s"
  by (simp add: try_advance_send_state_after_ack_def Let_def)

lemma try_advance_frame [simp]:
  "st_lost_ranges (try_advance_send_state_after_ack s) = st_lost_ranges s"
  "st_send_next_offset (try_advance_send_state_after_ack s) = st_send_next_offset s"
  by (simp_all add: try_advance_send_state_after_ack_def Let_def)

text \<open>
  Acknowledging a chunk that is in flight: the state before the final transition still satisfies the
  invariant, and the transition is the last step.
\<close>

lemma on_acked_step:
  assumes inv: "send_inv W F s" and F: "(off, n) \<in> set F"
  shows "\<exists>t. on_acked off n s = Some (try_advance_send_state_after_ack t) \<and>
    send_inv W (remove1 (off, n) F) t \<and> st_lost_ranges t = st_lost_ranges s \<and>
    st_send_next_offset t = st_send_next_offset s \<and> st_send_state t = st_send_state s \<and>
    (st_send_fin_acked t \<longleftrightarrow>
      st_send_fin_acked s \<or> st_send_fin_sent s \<and> off + n \<ge> st_send_high_water s)"
proof -
  let ?rs = "sort (st_acked_ranges s @ [(off, n)])" and ?F = "remove1 (off, n) F"
  let ?M = "mset (st_lost_ranges s) + mset ?F"
  have F': "mset F = add_mset (off, n) (mset ?F)" using F by simp
  have live: "live_buf W s" and t: "tiles (st_send_buf_base_offset s) (st_send_next_offset s)
      (mset (st_acked_ranges s) + mset (st_lost_ranges s) + mset F)"
    and b: "st_send_next_offset s \<le> length W"
    using inv by (simp_all add: send_inv_live)
  have "0 < n" using tiles_member [OF t, of off n] F by simp
  have eq: "mset ?rs + ?M = mset (st_acked_ranges s) + mset (st_lost_ranges s) + mset F"
    unfolding F' by simp
  have "tiles (st_send_buf_base_offset s) (st_send_next_offset s) (mset ?rs + ?M)"
    unfolding eq by (rule t)
  note trim = trim_acked_tiles [OF sorted_sort this b live]
  let ?s1 = "trim_acked ?rs s"
  obtain buf h where c: "compact ?s1 = Some (?s1\<lparr>st_send_buf := buf, st_send_buf_head := h\<rparr>)"
    "live_buf W (?s1\<lparr>st_send_buf := buf, st_send_buf_head := h\<rparr>)"
    using compact_live trim by blast
  let ?s2 = "?s1\<lparr>st_send_buf := buf, st_send_buf_head := h\<rparr>"
  let ?t = "if st_send_fin_sent ?s2 \<and> off + n \<ge> st_send_high_water ?s2
      then ?s2\<lparr>st_send_fin_acked := True\<rparr> else ?s2"
  have "send_inv W ?F ?s2"
    using c(2) trim inv by (simp add: send_inv_live ac_simps)
  then have "send_inv W ?F ?t" by simp
  moreover have "on_acked off n s = Some (try_advance_send_state_after_ack ?t)"
    using \<open>0 < n\<close> c(1) by (simp add: on_acked_def Let_def)
  ultimately show ?thesis by (intro exI [of _ ?t]) auto
qed

lemma on_acked_fin_inv:
  "send_inv W F s \<Longrightarrow> \<exists>s'. on_acked off 0 s = Some s' \<and> send_inv W F s'"
  by (simp add: on_acked_def)

lemma on_lost_inv:
  assumes "send_inv W F s" and "n = 0 \<or> (off, n) \<in> set F"
  shows "send_inv W (if n = 0 then F else remove1 (off, n) F) (on_lost off n s)"
proof (cases "n = 0")
  case True
  then show ?thesis using assms by (simp add: on_lost_def Let_def)
next
  case False
  then have "mset F = add_mset (off, n) (mset (remove1 (off, n) F))" using assms(2) by simp
  then have eq: "mset (st_acked_ranges s) + mset (st_lost_ranges s @ [(off, n)]) +
      mset (remove1 (off, n) F) = mset (st_acked_ranges s) + mset (st_lost_ranges s) + mset F"
    by (simp del: mset_remove1)
  have "tiles (st_send_buf_base_offset s) (st_send_next_offset s)
      (mset (st_acked_ranges s) + mset (st_lost_ranges s @ [(off, n)]) + mset (remove1 (off, n) F))"
    using assms(1) unfolding eq send_inv_def by blast
  then have "send_inv W (remove1 (off, n) F)
      (s\<lparr>st_lost_ranges := st_lost_ranges s @ [(off, n)]\<rparr>)"
    using assms(1) by (simp add: send_inv_def)
  then show ?thesis using False by (simp add: on_lost_def Let_def)
qed

lemma set_send_limit_inv: "send_inv W F s \<Longrightarrow> send_inv W F (set_send_limit n s)"
  by (auto simp: set_send_limit_def send_inv_live live_buf_def)

section \<open>Reachable states\<close>

text \<open>
  The calls a connection makes: it reports acknowledgement and loss only for chunks that are in
  flight, each at most once (a chunk without data carries only the FIN).
\<close>

inductive send_reach :: "bytes \<Rightarrow> (nat \<times> nat) list \<Rightarrow> stream \<Rightarrow> bool" where
  init: "send_reach [] [] (stream_init i r l)"
| written: "send_reach W F s \<Longrightarrow> length W + length bs < 2 ^ 64 \<Longrightarrow>
    send_reach (if writable s then W @ bs else W) F (stream_write bs fin s)"
| pull: "send_reach W F s \<Longrightarrow> pull_send o_in m mf s = Some (p, s') \<Longrightarrow>
    send_reach W (in_flight p F) s'"
| acked: "send_reach W F s \<Longrightarrow> (off, n) \<in> set F \<Longrightarrow> on_acked off n s = Some s' \<Longrightarrow>
    send_reach W (remove1 (off, n) F) s'"
| acked_fin: "send_reach W F s \<Longrightarrow> on_acked off 0 s = Some s' \<Longrightarrow> send_reach W F s'"
| lost: "send_reach W F s \<Longrightarrow> (off, n) \<in> set F \<Longrightarrow>
    send_reach W (remove1 (off, n) F) (on_lost off n s)"
| lost_fin: "send_reach W F s \<Longrightarrow> send_reach W F (on_lost off 0 s)"
| limit: "send_reach W F s \<Longrightarrow> send_reach W F (set_send_limit n s)"

lemma send_reach_inv: "send_reach W F s \<Longrightarrow> send_inv W F s \<and> length W < 2 ^ 64"
proof (induction rule: send_reach.induct)
  case (init i r l)
  show ?case by (simp add: send_inv_init)
next
  case (written W F s bs fin)
  then show ?case using write_inv [of W F s bs fin] by simp
next
  case (pull W F s o_in m mf p s')
  then show ?case using pull_send_pulled [of W F s o_in m mf] by auto
next
  case (acked W F s off n s')
  then show ?case using on_acked_step [of W F s off n] by auto
next
  case (acked_fin W F s off s')
  then show ?case using on_acked_fin_inv [of W F s off] by auto
next
  case (lost W F s off n)
  then have "0 < n" using send_inv_chunk [of W F s off n] by simp
  with lost show ?case using on_lost_inv [of W F s n off] by simp
next
  case (lost_fin W F s off)
  then show ?case using on_lost_inv [of W F s 0 off] by simp
next
  case (limit W F s n)
  then show ?case using set_send_limit_inv by blast
qed

section \<open>Properties\<close>

text \<open>C14. In every reachable state \<open>pull_send\<close> is defined (its copy stays inside the buffer), returns at
  most the requested number of bytes, and they are exactly the bytes the application wrote at the
  offset it reports, for fresh data and for retransmissions; lost data goes first; nothing beyond the
  peer's stream limit is sent; a FIN is only put on the end of the written data.\<close>

theorem pull_send_faithful:
  assumes "send_reach W F s"
  shows "\<exists>p s'. pull_send o_in m mf s = Some (p, s') \<and> pr_take p \<le> m
    \<and> length (pr_data p) = pr_take p
    \<and> (0 < pr_take p \<longrightarrow> pr_data p = take (pr_take p) (drop (pr_offset p) W)
        \<and> pr_offset p + pr_take p \<le> st_send_limit s)
    \<and> (0 < m \<longrightarrow> (\<forall>r rs. st_lost_ranges s = r # rs \<longrightarrow>
        pr_offset p = fst r \<and> pr_take p = min m (snd r)))
    \<and> (pr_fin p \<longrightarrow> pr_offset p + pr_take p = length W)"
proof -
  obtain p s' where p: "pull_send o_in m mf s = Some (p, s')" "pulled W m s p"
    "0 < m \<longrightarrow> (\<forall>r rs. st_lost_ranges s = r # rs \<longrightarrow>
        pr_offset p = fst r \<and> pr_take p = min m (snd r))"
    using pull_send_pulled [of W F s o_in m mf] send_reach_inv [OF assms] by blast
  from p(2) have "pr_take p \<le> m" "length (pr_data p) = pr_take p"
    "0 < pr_take p \<longrightarrow> pr_data p = take (pr_take p) (drop (pr_offset p) W)
      \<and> pr_offset p + pr_take p \<le> st_send_limit s"
    "pr_fin p \<longrightarrow> pr_offset p + pr_take p = length W"
    unfolding pulled_def by (metis less_numeral_extra(3))+
  with p(1,3) show ?thesis by (intro exI [of _ p] exI [of _ s'] conjI)
qed

lemmas send_eval = stream_write_def pull_send_def pull_fresh_def pull_lost_def fin_only_def
  buf_slice_def on_lost_def stream_init_def in_flight_def writable_def usub_def Let_def

theorem pull_send_faithful_witness:
  "\<exists>p s'. pull_send 0 2 100 (on_lost 0 3 (snd (the (pull_send 0 3 100
      (stream_write [7, 8, 9, 10] True (stream_init 0 50 50)))))) = Some (p, s')
    \<and> pr_offset p = 0 \<and> pr_data p = [7, 8]"
proof -
  let ?W = "[7, 8, 9, 10] :: bytes"
  let ?s1 = "stream_write ?W True (stream_init 0 50 50)"
  let ?r = "the (pull_send 0 3 100 ?s1)"
  have "writable (stream_init 0 50 50)" by (simp add: send_eval)
  then have r1: "send_reach ?W [] ?s1"
    using send_reach.written [OF send_reach.init [of 0 50 50],
        where bs = ?W and fin = True] by simp
  have "pull_send 0 3 100 ?s1 = Some ?r" and "in_flight (fst ?r) [] = [(0, 3)]"
    by (simp_all add: send_eval)
  then have "send_reach ?W [(0, 3)] (snd ?r)"
    using send_reach.pull [OF r1, of 0 3 100 "fst ?r" "snd ?r"] by simp
  then have r2: "send_reach ?W [] (on_lost 0 3 (snd ?r))"
    using send_reach.lost [of ?W "[(0, 3)]" "snd ?r" 0 3] by simp
  have l: "st_lost_ranges (on_lost 0 3 (snd ?r)) = [(0, 3)]" by (simp add: send_eval)
  from pull_send_faithful [OF r2, of 0 2 100] l show ?thesis by force
qed

text \<open>C15. No byte is forgotten: in every reachable state each byte between the start of the buffer and
  the next fresh offset belongs to exactly one of the chunks that are acknowledged but held back, lost
  and waiting for retransmission, or in flight. When the last two are empty, everything sent has left
  the buffer.\<close>

theorem send_chunks_partition:
  assumes "send_reach W F s"
  shows "(\<exists>xs. mset xs = mset (st_acked_ranges s @ st_lost_ranges s @ F)
      \<and> tiling (st_send_buf_base_offset s) xs (st_send_next_offset s))
    \<and> send_buffer_size s = length W - st_send_buf_base_offset s
    \<and> (F = [] \<and> st_lost_ranges s = [] \<longrightarrow>
        st_acked_ranges s = [] \<and> send_buffer_size s = length W - st_send_next_offset s)"
proof -
  have inv: "send_inv W F s" using send_reach_inv [OF assms] by blast
  have t: "tiles (st_send_buf_base_offset s) (st_send_next_offset s)
      (mset (st_acked_ranges s @ st_lost_ranges s @ F))"
    using inv by (simp add: send_inv_def ac_simps)
  have d: "drop (st_send_buf_head s) (st_send_buf s) = drop (st_send_buf_base_offset s) W"
    using inv by (simp add: send_inv_def)
  have size': "send_buffer_size s = length W - st_send_buf_base_offset s"
    using arg_cong [OF d, of length] by (simp add: send_buffer_size_def)
  have "st_acked_ranges s = [] \<and> st_send_buf_base_offset s = st_send_next_offset s"
    if "F = []" "st_lost_ranges s = []"
    using tiles_none_first [OF t] inv that by (auto simp: send_inv_def)
  then show ?thesis using t size' unfolding tiles_def by auto
qed

theorem send_chunks_partition_witness:
  "send_buffer_size (stream_write [7, 8, 9] False (stream_init 0 50 50)) = 3"
proof -
  have "writable (stream_init 0 50 50)" by (simp add: send_eval)
  then have "send_reach [7, 8, 9] [] (stream_write [7, 8, 9] False (stream_init 0 50 50))"
    using send_reach.written [OF send_reach.init [of 0 50 50],
        where bs = "[7, 8, 9]" and fin = False] by simp
  from send_chunks_partition [OF this] show ?thesis by (simp add: send_eval)
qed



text \<open>C34. When the FIN is queued after all data has been sent and then rides on a retransmission, the
  send side stays in the state Send: the FIN counts as sent, so the fresh path never performs the
  transition to DataSent, and without it no acknowledgement reaches DataRecvd.\<close>

theorem fin_on_retransmission_stays_in_send:
  assumes "send_reach W F s" and "st_send_state s = SSend" and "st_send_fin_queued s"
    and "st_lost_ranges s = (off, n) # rs" and "off + n = length W" and "n \<le> m"
    and "pull_send o_in m mf s = Some (p, s')"
  shows "pr_fin p \<and> st_send_fin_sent s' \<and> st_send_state s' = SSend
    \<and> (\<forall>off' n' s''. on_acked off' n' s' = Some s'' \<longrightarrow> st_send_state s'' = SSend)"
proof -
  have inv: "send_inv W F s" using send_reach_inv [OF assms(1)] by blast
  then have hw: "st_send_high_water s = length W" by (simp add: send_inv_def)
  have "0 < n" using send_inv_chunk [OF inv, of off n] assms(4) by simp
  then have "pull_lost m (off, n) rs s = Some (p, s')"
    using assms(4,6,7) by (simp add: pull_send_def)
  then have "pr_fin p" "st_send_fin_sent s'" "st_send_state s' = SSend"
    using assms(2,3,5,6) hw by (auto simp: pull_lost_def Let_def split: bind_splits)
  moreover have "st_send_state s'' = SSend" if "on_acked off' n' s' = Some s''" for off' n' s''
    using that \<open>st_send_state s' = SSend\<close>
    by (auto simp: on_acked_def try_advance_send_state_after_ack_def compact_def Let_def
        split: if_splits)
  ultimately show ?thesis by blast
qed

theorem fin_on_retransmission_stays_in_send_witness:
  "st_send_state (snd (the (pull_send 0 9 100 (stream_write [] True (on_lost 0 1 (snd (the
     (pull_send 0 9 100 (stream_write [7] False (stream_init 0 50 50)))))))))) = SSend"
proof -
  let ?s1 = "stream_write [7] False (stream_init 0 50 50)"
  let ?r = "the (pull_send 0 9 100 ?s1)"
  let ?s2 = "on_lost 0 1 (snd ?r)"
  let ?s3 = "stream_write [] True ?s2"
  let ?q = "the (pull_send 0 9 100 ?s3)"
  have "writable (stream_init 0 50 50)" by (simp add: send_eval)
  then have r1: "send_reach [7] [] ?s1"
    using send_reach.written [OF send_reach.init [of 0 50 50], where bs = "[7]" and fin = False] by simp
  have "pull_send 0 9 100 ?s1 = Some ?r" and "in_flight (fst ?r) [] = [(0, 1)]"
    by (simp_all add: send_eval)
  then have "send_reach [7] [(0, 1)] (snd ?r)"
    using send_reach.pull [OF r1, of 0 9 100 "fst ?r" "snd ?r"] by simp
  then have r2: "send_reach [7] [] ?s2"
    using send_reach.lost [of "[7]" "[(0, 1)]" "snd ?r" 0 1] by simp
  then have r3: "send_reach [7] [] ?s3"
    using send_reach.written [OF r2, where bs = "[]" and fin = True]
    by (simp split: if_splits)
  have "pull_send 0 9 100 ?s3 = Some (fst ?q, snd ?q)" by (simp add: send_eval)
  from fin_on_retransmission_stays_in_send [OF r3 _ _ _ _ _ this, of 0 1 "[]"]
  show ?thesis by (simp add: send_eval)
qed

end
