(* ===== verification/Crypto.thy ===== *)
theory Crypto
  imports Prelude
begin

text \<open>
  Packet-protection primitives: \<open>example/quic-http3/src/quic/crypto.cpp\<close>, in the build that uses
  OpenSSL. The functions of OpenSSL are a parameter, a record \<open>crypto_lib\<close>. A cipher context is the
  history of the calls made on it; what a call returns is a function of that history, and a call
  that fails (returns a value other than 1) is \<open>None\<close>. A C++ function that throws is \<open>None\<close>. A pointer
  argument is the buffer it points into, and a size argument is the \<open>int\<close> the code casts it to.

  The theory shows that the keys of a traffic secret come from distinct HKDF inputs, that the cached
  contexts of the packet path compute what the one-shot functions compute, and that opening inverts
  sealing.
\<close>

section \<open>Algorithms\<close>

datatype aead = Aes128Gcm | Aes256Gcm | ChaCha20Poly1305

datatype hash_alg = Sha256 | Sha384

fun hash_length :: "hash_alg \<Rightarrow> nat" where
  "hash_length Sha256 = 32"
| "hash_length Sha384 = 48"

fun aead_key_length :: "aead \<Rightarrow> nat" where
  "aead_key_length Aes128Gcm = 16"
| "aead_key_length Aes256Gcm = 32"
| "aead_key_length ChaCha20Poly1305 = 32"

definition aead_iv_length :: "aead \<Rightarrow> nat" where
  "aead_iv_length a = 12"

definition aead_tag_length :: "aead \<Rightarrow> nat" where
  "aead_tag_length a = 16"

definition aead_hp_length :: "aead \<Rightarrow> nat" where
  "aead_hp_length a = aead_key_length a"

fun aead_hash :: "aead \<Rightarrow> hash_alg" where
  "aead_hash Aes128Gcm = Sha256"
| "aead_hash ChaCha20Poly1305 = Sha256"
| "aead_hash Aes256Gcm = Sha384"

section \<open>The cryptographic library\<close>

text \<open>The ciphers the code asks for.\<close>

datatype cipher = AeadCipher aead | Aes128Ecb | Aes256Ecb | ChaCha20

text \<open>
  The calls, with their arguments: cipher, key and IV of an initialisation, and a buffer with the
  number of its bytes that count. The key and the IV come without a length.
\<close>

datatype evp_call =
    EncryptInit "cipher option" "bytes option" "bytes option"
  | DecryptInit "cipher option" "bytes option" "bytes option"
  | SetIvLen int
  | SetPadding int
  | UpdateAad bytes int
  | UpdateData bytes int
  | FinalCall
  | GetTag int
  | SetTag bytes int

text \<open>\<open>static_cast<int>\<close> of a size.\<close>

definition to_int :: "nat \<Rightarrow> int" where
  "to_int n = (int n + 2 ^ 31) mod 2 ^ 32 - 2 ^ 31"

type_synonym evp_ctx = "evp_call list"

datatype kdf_mode = ExtractOnly | ExpandOnly

text \<open>
  \<open>lib_kdf mode digest salt key info n\<close> is \<open>EVP_KDF_derive\<close> for HKDF; \<open>lib_ctx_new\<close> says whether
  \<open>EVP_CIPHER_CTX_new\<close> succeeds; \<open>lib_evp ctx c\<close> is the output of the call \<open>c\<close> on the context \<open>ctx\<close>.
\<close>

record crypto_lib =
  lib_kdf :: "kdf_mode \<Rightarrow> string \<Rightarrow> bytes \<Rightarrow> bytes \<Rightarrow> bytes \<Rightarrow> nat \<Rightarrow> bytes option"
  lib_md_size :: "hash_alg \<Rightarrow> nat"
  lib_ctx_new :: bool
  lib_evp :: "evp_ctx \<Rightarrow> evp_call \<Rightarrow> bytes option"

section \<open>Key derivation\<close>

definition bytes_of_string :: "string \<Rightarrow> bytes" where
  "bytes_of_string s = map of_char s"

definition md_name :: "hash_alg \<Rightarrow> string" where
  "md_name h = (if h = Sha256 then ''SHA256'' else ''SHA384'')"

definition hkdf_extract :: "crypto_lib \<Rightarrow> hash_alg \<Rightarrow> bytes \<Rightarrow> bytes \<Rightarrow> bytes option" where
  "hkdf_extract lib h salt ikm =
     lib_kdf lib ExtractOnly (md_name h) salt ikm [] (lib_md_size lib h)"

definition hkdf_expand :: "crypto_lib \<Rightarrow> hash_alg \<Rightarrow> bytes \<Rightarrow> bytes \<Rightarrow> nat \<Rightarrow> bytes option" where
  "hkdf_expand lib h prk info out_len =
     lib_kdf lib ExpandOnly (md_name h) [] prk info out_len"

text \<open>The \<open>HkdfLabel\<close> structure of RFC 8446 section 7.1.\<close>

definition kLabelPrefix :: string where
  "kLabelPrefix = ''tls13 ''"

definition hkdf_info :: "string \<Rightarrow> bytes \<Rightarrow> nat \<Rightarrow> bytes" where
  "hkdf_info label context out_len =
     [of_nat (drop_bit 8 out_len), of_nat (out_len AND 0xFF),
      of_nat (length kLabelPrefix + length label)]
     @ bytes_of_string kLabelPrefix @ bytes_of_string label
     @ [of_nat (length context)] @ context"

definition hkdf_expand_label ::
    "crypto_lib \<Rightarrow> hash_alg \<Rightarrow> bytes \<Rightarrow> string \<Rightarrow> bytes \<Rightarrow> nat \<Rightarrow> bytes option" where
  "hkdf_expand_label lib h secret label context out_len =
     (let label_len = length kLabelPrefix + length label
      in if label_len > 255 \<or> length context > 255 \<or> out_len > 0xFFFF then None
         else hkdf_expand lib h secret (hkdf_info label context out_len) out_len)"

definition kInitialSaltV1 :: bytes where
  "kInitialSaltV1 = [0x38, 0x76, 0x2c, 0xf7, 0xf5, 0x59, 0x34, 0xb3, 0x4d, 0x17, 0x9a, 0xe6, 0xa4,
     0xc8, 0x0c, 0xad, 0xcc, 0xbb, 0x7f, 0x0a]"

datatype direction = Client | Server

definition derive_initial_secret :: "crypto_lib \<Rightarrow> bytes \<Rightarrow> direction \<Rightarrow> bytes option" where
  "derive_initial_secret lib client_dcid dir = do {
     initial_secret \<leftarrow> hkdf_extract lib Sha256 kInitialSaltV1 client_dcid;
     let label = (if dir = Client then ''client in'' else ''server in'');
     hkdf_expand_label lib Sha256 initial_secret label [] (hash_length Sha256)
   }"

record packet_keys =
  pk_key :: bytes
  pk_iv :: bytes
  pk_hp :: bytes

definition derive_packet_keys :: "crypto_lib \<Rightarrow> aead \<Rightarrow> bytes \<Rightarrow> packet_keys option" where
  "derive_packet_keys lib a secret = do {
     let h = aead_hash a;
     key \<leftarrow> hkdf_expand_label lib h secret ''quic key'' [] (aead_key_length a);
     iv \<leftarrow> hkdf_expand_label lib h secret ''quic iv'' [] (aead_iv_length a);
     hp \<leftarrow> hkdf_expand_label lib h secret ''quic hp'' [] (aead_hp_length a);
     Some \<lparr>pk_key = key, pk_iv = iv, pk_hp = hp\<rparr>
   }"

definition derive_next_application_secret ::
    "crypto_lib \<Rightarrow> hash_alg \<Rightarrow> bytes \<Rightarrow> bytes option" where
  "derive_next_application_secret lib h current_secret =
     hkdf_expand_label lib h current_secret ''quic ku'' [] (hash_length h)"

section \<open>One-shot sealing and opening\<close>

text \<open>
  A computation on a context: it returns a result, or \<open>None\<close> at the first call that fails, with the
  context as the calls left it.
\<close>

type_synonym 'a evp_m = "evp_ctx \<Rightarrow> 'a option \<times> evp_ctx"

definition evp_bind :: "'a evp_m \<Rightarrow> ('a \<Rightarrow> 'b evp_m) \<Rightarrow> 'b evp_m" where
  "evp_bind m f ctx =
     (case m ctx of (None, ctx') \<Rightarrow> (None, ctx') | (Some x, ctx') \<Rightarrow> f x ctx')"

definition evp_ret :: "'a \<Rightarrow> 'a evp_m" where
  "evp_ret x ctx = (Some x, ctx)"

definition evp_do :: "crypto_lib \<Rightarrow> evp_call \<Rightarrow> bytes evp_m" where
  "evp_do lib c ctx = (lib_evp lib ctx c, ctx @ [c])"

definition evp_when :: "bool \<Rightarrow> bytes evp_m \<Rightarrow> bytes evp_m" where
  "evp_when b m = (if b then m else evp_ret [])"

text \<open>A write of \<open>bs\<close> at position \<open>off\<close> of a buffer.\<close>

definition put_at :: "nat \<Rightarrow> bytes \<Rightarrow> bytes \<Rightarrow> bytes" where
  "put_at off bs buf = take off buf @ bs @ drop (off + length bs) buf"

definition aead_seal ::
    "crypto_lib \<Rightarrow> aead \<Rightarrow> bytes \<Rightarrow> bytes \<Rightarrow> bytes \<Rightarrow> bytes \<Rightarrow> bytes option" where
  "aead_seal lib a key nonce aad plaintext =
     (if \<not> lib_ctx_new lib then None
      else
        let tag_len = aead_tag_length a; out = replicate (length plaintext + tag_len) 0
        in fst (evp_bind (evp_do lib (EncryptInit (Some (AeadCipher a)) None None)) (\<lambda>_.
                evp_bind (evp_do lib (SetIvLen (to_int (length nonce)))) (\<lambda>_.
                evp_bind (evp_do lib (EncryptInit None (Some key) (Some nonce))) (\<lambda>_.
                evp_bind (evp_when (aad \<noteq> []) (evp_do lib (UpdateAad aad (to_int (length aad))))) (\<lambda>_.
                evp_bind (evp_do lib (UpdateData plaintext (to_int (length plaintext)))) (\<lambda>body.
                evp_bind (evp_do lib FinalCall) (\<lambda>fin.
                evp_bind (evp_do lib (GetTag (to_int tag_len))) (\<lambda>tag.
                evp_ret (put_at (length plaintext) tag
                  (put_at (length body) fin (put_at 0 body out)))))))))) []))"

definition aead_open ::
    "crypto_lib \<Rightarrow> aead \<Rightarrow> bytes \<Rightarrow> bytes \<Rightarrow> bytes \<Rightarrow> bytes \<Rightarrow> bytes option" where
  "aead_open lib a key nonce aad ciphertext =
     (let tag_len = aead_tag_length a
      in if length ciphertext < tag_len then None
         else if \<not> lib_ctx_new lib then None
         else
           let pt_len = length ciphertext - tag_len; out = replicate pt_len 0
           in fst (evp_bind (evp_do lib (DecryptInit (Some (AeadCipher a)) None None)) (\<lambda>_.
                   evp_bind (evp_do lib (SetIvLen (to_int (length nonce)))) (\<lambda>_.
                   evp_bind (evp_do lib (DecryptInit None (Some key) (Some nonce))) (\<lambda>_.
                   evp_bind (evp_when (aad \<noteq> []) (evp_do lib (UpdateAad aad (to_int (length aad))))) (\<lambda>_.
                   evp_bind (evp_do lib (UpdateData ciphertext (to_int pt_len))) (\<lambda>body.
                   evp_bind (evp_do lib (SetTag (drop pt_len ciphertext) (to_int tag_len))) (\<lambda>_.
                   evp_bind (evp_do lib FinalCall) (\<lambda>fin.
                   evp_ret (put_at (length body) fin (put_at 0 body out))))))))) []))"

text \<open>
  The in-place variants return the bytes that replace \<open>body\<close> and, for sealing, the tag. \<open>n\<close> is the
  size of the caller's tag buffer.
\<close>

definition aead_seal_inplace ::
    "crypto_lib \<Rightarrow> aead \<Rightarrow> bytes \<Rightarrow> bytes \<Rightarrow> bytes \<Rightarrow> bytes \<Rightarrow> nat \<Rightarrow> (bytes \<times> bytes) option" where
  "aead_seal_inplace lib a key nonce aad body n =
     (let tag_len = aead_tag_length a
      in if n \<noteq> tag_len \<or> \<not> lib_ctx_new lib then None
         else
           fst (evp_bind (evp_do lib (EncryptInit (Some (AeadCipher a)) None None)) (\<lambda>_.
                evp_bind (evp_do lib (SetIvLen (to_int (length nonce)))) (\<lambda>_.
                evp_bind (evp_do lib (EncryptInit None (Some key) (Some nonce))) (\<lambda>_.
                evp_bind (evp_when (aad \<noteq> []) (evp_do lib (UpdateAad aad (to_int (length aad))))) (\<lambda>_.
                evp_bind (evp_when (body \<noteq> []) (evp_do lib (UpdateData body (to_int (length body))))) (\<lambda>out.
                evp_bind (evp_do lib FinalCall) (\<lambda>_.
                evp_bind (evp_do lib (GetTag (to_int tag_len))) (\<lambda>tag.
                evp_ret (put_at 0 out body, tag)))))))) []))"

definition aead_open_inplace ::
    "crypto_lib \<Rightarrow> aead \<Rightarrow> bytes \<Rightarrow> bytes \<Rightarrow> bytes \<Rightarrow> bytes \<Rightarrow> bytes \<Rightarrow> bytes option" where
  "aead_open_inplace lib a key nonce aad body tag =
     (if length tag \<noteq> aead_tag_length a \<or> \<not> lib_ctx_new lib then None
      else
        fst (evp_bind (evp_do lib (DecryptInit (Some (AeadCipher a)) None None)) (\<lambda>_.
             evp_bind (evp_do lib (SetIvLen (to_int (length nonce)))) (\<lambda>_.
             evp_bind (evp_do lib (DecryptInit None (Some key) (Some nonce))) (\<lambda>_.
             evp_bind (evp_when (aad \<noteq> []) (evp_do lib (UpdateAad aad (to_int (length aad))))) (\<lambda>_.
             evp_bind (evp_when (body \<noteq> []) (evp_do lib (UpdateData body (to_int (length body))))) (\<lambda>out.
             evp_bind (evp_do lib (SetTag tag (to_int (aead_tag_length a)))) (\<lambda>_.
             evp_bind (evp_do lib FinalCall) (\<lambda>_.
             evp_ret (put_at 0 out body)))))))) []))"

section \<open>Cached contexts\<close>

datatype cipher_direction = Encrypt | Decrypt

record cipher_ctx =
  cc_ctx :: "evp_ctx option"
  cc_aead :: aead
  cc_dir :: cipher_direction
  cc_key :: bytes

definition cipher_ctx_empty :: cipher_ctx where
  "cipher_ctx_empty = \<lparr>cc_ctx = None, cc_aead = Aes128Gcm, cc_dir = Encrypt, cc_key = []\<rparr>"

definition cipher_reset :: "cipher_ctx \<Rightarrow> cipher_ctx" where
  "cipher_reset c = c\<lparr>cc_ctx := None, cc_key := []\<rparr>"

definition cipher_moved_from :: "cipher_ctx \<Rightarrow> cipher_ctx" where
  "cipher_moved_from c = c\<lparr>cc_ctx := None, cc_key := []\<rparr>"

definition cipher_init ::
    "crypto_lib \<Rightarrow> aead \<Rightarrow> bytes \<Rightarrow> cipher_direction \<Rightarrow> cipher_ctx \<Rightarrow> bool \<times> cipher_ctx" where
  "cipher_init lib a key dir c =
     (let c = cipher_reset c
      in if \<not> lib_ctx_new lib then (False, c)
         else
           case
             (if dir = Encrypt then
                evp_bind (evp_do lib (EncryptInit (Some (AeadCipher a)) None None)) (\<lambda>_.
                evp_bind (evp_do lib (SetIvLen (to_int (aead_iv_length a)))) (\<lambda>_.
                evp_do lib (EncryptInit None (Some key) None))) []
              else
                evp_bind (evp_do lib (DecryptInit (Some (AeadCipher a)) None None)) (\<lambda>_.
                evp_bind (evp_do lib (SetIvLen (to_int (aead_iv_length a)))) (\<lambda>_.
                evp_do lib (DecryptInit None (Some key) None))) [])
           of (None, _) \<Rightarrow> (False, c)
            | (Some _, ctx) \<Rightarrow>
                (True, c\<lparr>cc_ctx := Some ctx, cc_aead := a, cc_dir := dir, cc_key := key\<rparr>))"

definition cipher_seal_inplace ::
    "crypto_lib \<Rightarrow> bytes \<Rightarrow> bytes \<Rightarrow> bytes \<Rightarrow> nat \<Rightarrow> cipher_ctx \<Rightarrow>
     (bytes \<times> bytes) option \<times> cipher_ctx" where
  "cipher_seal_inplace lib nonce aad body n c =
     (case cc_ctx c of
        None \<Rightarrow> (None, c)
      | Some ctx \<Rightarrow>
          if cc_dir c \<noteq> Encrypt \<or> cc_key c = [] then (None, c)
          else if n \<noteq> aead_tag_length (cc_aead c) then (None, c)
          else
            let (r, ctx') =
                  evp_bind (evp_do lib (EncryptInit None None (Some nonce))) (\<lambda>_.
                  evp_bind (evp_when (aad \<noteq> []) (evp_do lib (UpdateAad aad (to_int (length aad))))) (\<lambda>_.
                  evp_bind (evp_when (body \<noteq> []) (evp_do lib (UpdateData body (to_int (length body))))) (\<lambda>out.
                  evp_bind (evp_do lib FinalCall) (\<lambda>_.
                  evp_bind (evp_do lib (GetTag (to_int (aead_tag_length (cc_aead c))))) (\<lambda>tag.
                  evp_ret (put_at 0 out body, tag)))))) ctx
            in (r, c\<lparr>cc_ctx := Some ctx'\<rparr>))"

definition cipher_open_inplace ::
    "crypto_lib \<Rightarrow> bytes \<Rightarrow> bytes \<Rightarrow> bytes \<Rightarrow> bytes \<Rightarrow> cipher_ctx \<Rightarrow> bytes option \<times> cipher_ctx" where
  "cipher_open_inplace lib nonce aad body tag c =
     (case cc_ctx c of
        None \<Rightarrow> (None, c)
      | Some ctx \<Rightarrow>
          if cc_dir c \<noteq> Decrypt \<or> cc_key c = [] then (None, c)
          else if length tag \<noteq> aead_tag_length (cc_aead c) then (None, c)
          else
            let (r, ctx') =
                  evp_bind (evp_do lib (DecryptInit None None (Some nonce))) (\<lambda>_.
                  evp_bind (evp_when (aad \<noteq> []) (evp_do lib (UpdateAad aad (to_int (length aad))))) (\<lambda>_.
                  evp_bind (evp_when (body \<noteq> []) (evp_do lib (UpdateData body (to_int (length body))))) (\<lambda>out.
                  evp_bind (evp_do lib (SetTag tag (to_int (aead_tag_length (cc_aead c))))) (\<lambda>_.
                  evp_bind (evp_do lib FinalCall) (\<lambda>_.
                  evp_ret (put_at 0 out body)))))) ctx
            in (r, c\<lparr>cc_ctx := Some ctx'\<rparr>))"

section \<open>Header protection\<close>

text \<open>
  The five mask bytes: the first bytes of an output buffer of sixteen zeros that the cipher's output
  overwrites. A sample of another length, or a failing call, throws.
\<close>

definition header_protection_mask :: "crypto_lib \<Rightarrow> aead \<Rightarrow> bytes \<Rightarrow> bytes \<Rightarrow> bytes option" where
  "header_protection_mask lib a hp_key sample =
     (if length sample \<noteq> 16 \<or> \<not> lib_ctx_new lib then None
      else
        fst (if a = Aes128Gcm \<or> a = Aes256Gcm then
               evp_bind (evp_do lib (EncryptInit
                  (Some (if a = Aes128Gcm then Aes128Ecb else Aes256Ecb)) (Some hp_key) None)) (\<lambda>_.
               evp_bind (evp_do lib (SetPadding 0)) (\<lambda>_.
               evp_bind (evp_do lib (UpdateData sample (to_int (length sample)))) (\<lambda>out.
               evp_ret (take 5 (put_at 0 out (replicate 16 0)))))) []
             else
               evp_bind (evp_do lib (EncryptInit (Some ChaCha20) (Some hp_key) (Some sample))) (\<lambda>_.
               evp_bind (evp_do lib (SetPadding 0)) (\<lambda>_.
               evp_bind (evp_do lib (UpdateData (replicate 5 0) (to_int 5))) (\<lambda>out.
               evp_ret (take 5 (put_at 0 out (replicate 16 0)))))) []))"

lemma header_protection_mask_length:
  assumes "header_protection_mask lib a k smp = Some m"
  shows "length m = 5"
  using assms
  by (auto simp: header_protection_mask_def evp_bind_def evp_do_def evp_ret_def put_at_def
      split: if_splits option.splits prod.splits)

section \<open>Labels are told apart\<close>

lemma of_char_byte_inj: "of_char c = (of_char d :: byte) \<longleftrightarrow> c = d"
proof
  assume "of_char c = (of_char d :: byte)"
  then have "(of_nat (of_char c) :: byte) = of_nat (of_char d)" by (simp only: of_nat_of_char)
  then have "unat (of_nat (of_char c) :: byte) = unat (of_nat (of_char d) :: byte)" by simp
  then have "(of_char c :: nat) = of_char d"
    by (simp add: unat_of_nat_byte)
  then show "c = d" by simp
qed simp

lemma bytes_of_string_inj: "bytes_of_string s = bytes_of_string t \<longleftrightarrow> s = t"
  unfolding bytes_of_string_def
  by (rule inj_map_eq_map) (simp add: inj_def of_char_byte_inj)

lemma length_bytes_of_string [simp]: "length (bytes_of_string s) = length s"
  by (simp add: bytes_of_string_def)

lemma of_nat_byte_eq: "m < 256 \<Longrightarrow> n < 256 \<Longrightarrow> (of_nat m :: byte) = of_nat n \<longleftrightarrow> m = n"
  by (metis unat_of_nat_byte_small)

text \<open>The HKDF info string determines the label, the context and the output length.\<close>

lemma hkdf_info_injective:
  assumes "length kLabelPrefix + length l1 \<le> 255" and "length kLabelPrefix + length l2 \<le> 255"
    and "length c1 \<le> 255" and "length c2 \<le> 255" and "n1 \<le> 0xFFFF" and "n2 \<le> 0xFFFF"
    and "hkdf_info l1 c1 n1 = hkdf_info l2 c2 n2"
  shows "l1 = l2 \<and> c1 = c2 \<and> n1 = n2"
proof -
  let ?p = "length kLabelPrefix"
  from assms(7) have hd: "(of_nat (drop_bit 8 n1) :: byte) = of_nat (drop_bit 8 n2)"
    "(of_nat (n1 AND 0xFF) :: byte) = of_nat (n2 AND 0xFF)"
    "(of_nat (?p + length l1) :: byte) = of_nat (?p + length l2)"
    and tl: "bytes_of_string l1 @ [of_nat (length c1)] @ c1
             = bytes_of_string l2 @ [of_nat (length c2)] @ c2"
    by (simp_all add: hkdf_info_def)
  have "drop_bit 8 n1 < 256" "drop_bit 8 n2 < 256"
    using assms(5,6) by (simp_all add: drop_bit_eq_div)
  then have "n1 div 256 = n2 div 256"
    using hd(1) of_nat_byte_eq [of "drop_bit 8 n1" "drop_bit 8 n2"]
    by (simp add: drop_bit_eq_div)
  moreover have "n1 mod 256 = n2 mod 256"
    using hd(2) of_nat_byte_eq [of "n1 mod 256" "n2 mod 256"] by (simp add: and_255_mod)
  ultimately have n: "n1 = n2" by (metis div_mult_mod_eq)
  have "length l1 = length l2"
    using hd(3) of_nat_byte_eq [of "?p + length l1" "?p + length l2"] assms(1,2) by simp
  with tl have "bytes_of_string l1 = bytes_of_string l2" and "c1 = c2" by simp_all
  with n show ?thesis by (simp add: bytes_of_string_inj)
qed

lemma expand_label_input:
  assumes "hkdf_expand_label lib h secret label ctx n = Some out"
  shows "lib_kdf lib ExpandOnly (md_name h) [] secret (hkdf_info label ctx n) n = Some out"
  using assms by (simp add: hkdf_expand_label_def hkdf_expand_def Let_def split: if_splits)

text \<open>Labels of at most sixteen characters, with no context, as the packet keys use them.\<close>

lemma short_label_neq:
  "l1 \<noteq> l2 \<Longrightarrow> length l1 \<le> 16 \<Longrightarrow> length l2 \<le> 16 \<Longrightarrow> n1 \<le> 48 \<Longrightarrow> n2 \<le> 48 \<Longrightarrow>
     hkdf_info l1 [] n1 \<noteq> hkdf_info l2 [] n2"
  using hkdf_info_injective [of l1 l2 "[]" "[]" n1 n2] by (auto simp: kLabelPrefix_def)

lemma derived_lengths: "aead_key_length a \<le> 48" "aead_iv_length a \<le> 48" "aead_hp_length a \<le> 48"
    "hash_length h \<le> 48"
  by (cases a; cases h; simp add: aead_iv_length_def aead_hp_length_def)+

text \<open>
  C25. The keys of a traffic secret are separated: the packet key, the IV, the header-protection key
  and the next secret are what HKDF-Expand gives for that secret on four info strings, and no two of
  these strings are equal, whatever the algorithm. So none of the four is derived from the input of
  another.
\<close>

theorem packet_keys_separated:
  assumes "derive_packet_keys lib a secret = Some keys"
    and "derive_next_application_secret lib (aead_hash a) secret = Some nxt"
  shows "\<exists>i_key i_iv i_hp i_ku. distinct [i_key, i_iv, i_hp, i_ku]
    \<and> lib_kdf lib ExpandOnly (md_name (aead_hash a)) [] secret i_key (aead_key_length a) = Some (pk_key keys)
    \<and> lib_kdf lib ExpandOnly (md_name (aead_hash a)) [] secret i_iv (aead_iv_length a) = Some (pk_iv keys)
    \<and> lib_kdf lib ExpandOnly (md_name (aead_hash a)) [] secret i_hp (aead_hp_length a) = Some (pk_hp keys)
    \<and> lib_kdf lib ExpandOnly (md_name (aead_hash a)) [] secret i_ku (hash_length (aead_hash a)) = Some nxt"
proof -
  let ?key = "hkdf_info ''quic key'' [] (aead_key_length a)"
    and ?iv = "hkdf_info ''quic iv'' [] (aead_iv_length a)"
    and ?hp = "hkdf_info ''quic hp'' [] (aead_hp_length a)"
    and ?ku = "hkdf_info ''quic ku'' [] (hash_length (aead_hash a))"
  have "distinct [?key, ?iv, ?hp, ?ku]" by (simp add: short_label_neq derived_lengths)
  moreover obtain "hkdf_expand_label lib (aead_hash a) secret ''quic key'' [] (aead_key_length a) = Some (pk_key keys)"
    "hkdf_expand_label lib (aead_hash a) secret ''quic iv'' [] (aead_iv_length a) = Some (pk_iv keys)"
    "hkdf_expand_label lib (aead_hash a) secret ''quic hp'' [] (aead_hp_length a) = Some (pk_hp keys)"
    using assms(1) by (auto simp: derive_packet_keys_def Let_def split: bind_splits)
  moreover have "hkdf_expand_label lib (aead_hash a) secret ''quic ku'' [] (hash_length (aead_hash a)) = Some nxt"
    using assms(2) by (simp add: derive_next_application_secret_def)
  ultimately show ?thesis using expand_label_input by blast
qed

section \<open>The documented behaviour of the cipher contexts\<close>

text \<open>
  What OpenSSL documents of a cipher context, as a state computed from the history of calls. A call
  that names a cipher starts over. A key is read to the length of the cipher's key, an IV to the IV
  length of the context, which is the cipher's own until it is set. A call that names an IV starts a
  new message under the cipher and key already set.
\<close>

record evp_state =
  es_cipher :: "cipher option"
  es_encrypt :: bool
  es_ivlen :: nat
  es_key :: "bytes option"
  es_iv :: "bytes option"
  es_aad :: bytes
  es_body :: "bytes option"
  es_tag :: "bytes option"
  es_done :: bool

definition evp_fresh :: evp_state where
  "evp_fresh = \<lparr>es_cipher = None, es_encrypt = True, es_ivlen = 0, es_key = None, es_iv = None,
     es_aad = [], es_body = None, es_tag = None, es_done = False\<rparr>"

fun evp_key_len :: "cipher \<Rightarrow> nat" where
  "evp_key_len (AeadCipher Aes128Gcm) = 16"
| "evp_key_len (AeadCipher Aes256Gcm) = 32"
| "evp_key_len (AeadCipher ChaCha20Poly1305) = 32"
| "evp_key_len Aes128Ecb = 16"
| "evp_key_len Aes256Ecb = 32"
| "evp_key_len ChaCha20 = 32"

fun evp_iv_len :: "cipher \<Rightarrow> nat" where
  "evp_iv_len (AeadCipher a) = 12"
| "evp_iv_len ChaCha20 = 16"
| "evp_iv_len c = 0"

text \<open>The IV lengths \<open>EVP_CTRL_AEAD_SET_IVLEN\<close> accepts: any positive one for GCM, twelve for ChaCha20-Poly1305.\<close>

fun evp_ivlen_valid :: "cipher option \<Rightarrow> int \<Rightarrow> bool" where
  "evp_ivlen_valid (Some (AeadCipher ChaCha20Poly1305)) n \<longleftrightarrow> n = 12"
| "evp_ivlen_valid (Some (AeadCipher a)) n \<longleftrightarrow> 0 < n"
| "evp_ivlen_valid c n \<longleftrightarrow> False"

definition evp_select :: "cipher option \<Rightarrow> evp_state \<Rightarrow> evp_state" where
  "evp_select c st =
     (case c of None \<Rightarrow> st | Some x \<Rightarrow> evp_fresh\<lparr>es_cipher := c, es_ivlen := evp_iv_len x\<rparr>)"

definition evp_reinit ::
    "bool \<Rightarrow> cipher option \<Rightarrow> bytes option \<Rightarrow> bytes option \<Rightarrow> evp_state \<Rightarrow> evp_state" where
  "evp_reinit enc c k iv st =
     (let st = evp_select c st;
          key_len = (case es_cipher st of None \<Rightarrow> 0 | Some x \<Rightarrow> evp_key_len x)
      in st\<lparr>es_encrypt := enc,
            es_key := (case k of None \<Rightarrow> es_key st | Some k \<Rightarrow> Some (take key_len k)),
            es_iv := (case iv of None \<Rightarrow> es_iv st | Some n \<Rightarrow> Some (take (es_ivlen st) n)),
            es_aad := [], es_body := None, es_tag := None, es_done := False\<rparr>)"

fun evp_track :: "evp_call \<Rightarrow> evp_state \<Rightarrow> evp_state" where
  "evp_track (EncryptInit c k iv) st = evp_reinit True c k iv st"
| "evp_track (DecryptInit c k iv) st = evp_reinit False c k iv st"
| "evp_track (SetIvLen n) st = (if evp_ivlen_valid (es_cipher st) n then st\<lparr>es_ivlen := nat n\<rparr> else st)"
| "evp_track (UpdateAad b n) st = st\<lparr>es_aad := es_aad st @ take (nat n) b\<rparr>"
| "evp_track (UpdateData b n) st = st\<lparr>es_body := Some (take (nat n) b)\<rparr>"
| "evp_track (SetTag t n) st = st\<lparr>es_tag := Some (take (nat n) t)\<rparr>"
| "evp_track FinalCall st = st\<lparr>es_done := True\<rparr>"
| "evp_track c st = st"

definition evp_state_of :: "evp_ctx \<Rightarrow> evp_state" where
  "evp_state_of ctx = fold evp_track ctx evp_fresh"

text \<open>
  The uses that are documented. The buffers must hold what is read of them; the IV length is set
  before the IV and to at most 128; a context that has had an IV is initialised again only with a new one; associated data comes
  before the data, the data in one piece, and the tag is asked for after, or given before, the end of
  the message. Nothing is assumed of the library once it has been used in another way.
\<close>

definition evp_init_ok :: "bool \<Rightarrow> cipher option \<Rightarrow> bytes option \<Rightarrow> bytes option \<Rightarrow> evp_state \<Rightarrow> bool" where
  "evp_init_ok enc c k iv st \<longleftrightarrow>
     (c = None \<longrightarrow> es_encrypt st = enc \<and> (es_iv st = None \<or> iv \<noteq> None))
     \<and> (case es_cipher (evp_select c st) of
          None \<Rightarrow> False
        | Some x \<Rightarrow> (case k of None \<Rightarrow> True | Some k \<Rightarrow> evp_key_len x \<le> length k)
            \<and> (case iv of None \<Rightarrow> True | Some n \<Rightarrow> es_ivlen (evp_select c st) \<le> length n))"

definition evp_aead_ready :: "evp_state \<Rightarrow> bool" where
  "evp_aead_ready st \<longleftrightarrow> (case es_cipher st of Some (AeadCipher a) \<Rightarrow> True | _ \<Rightarrow> False)
     \<and> es_key st \<noteq> None \<and> es_iv st \<noteq> None"

definition evp_data_ok :: "evp_state \<Rightarrow> int \<Rightarrow> bool" where
  "evp_data_ok st n \<longleftrightarrow> es_body st = None \<and> es_key st \<noteq> None \<and>
     (case es_cipher st of
        None \<Rightarrow> False
      | Some (AeadCipher a) \<Rightarrow> es_iv st \<noteq> None \<and> \<not> es_done st
      | Some ChaCha20 \<Rightarrow> es_iv st \<noteq> None
      | Some c \<Rightarrow> n mod 16 = 0)"

fun evp_ok :: "evp_call \<Rightarrow> evp_state \<Rightarrow> bool" where
  "evp_ok (EncryptInit c k iv) st \<longleftrightarrow> evp_init_ok True c k iv st"
| "evp_ok (DecryptInit c k iv) st \<longleftrightarrow> evp_init_ok False c k iv st"
| "evp_ok (SetIvLen n) st \<longleftrightarrow> es_iv st = None \<and> n \<le> 128
     \<and> (case es_cipher st of Some (AeadCipher a) \<Rightarrow> True | _ \<Rightarrow> False)"
| "evp_ok (SetPadding n) st \<longleftrightarrow> es_cipher st \<noteq> None"
| "evp_ok (UpdateAad b n) st \<longleftrightarrow> evp_aead_ready st \<and> es_body st = None \<and> \<not> es_done st
     \<and> 0 \<le> n \<and> nat n \<le> length b"
| "evp_ok (UpdateData b n) st \<longleftrightarrow> evp_data_ok st n \<and> 0 \<le> n \<and> nat n \<le> length b"
| "evp_ok FinalCall st \<longleftrightarrow> evp_aead_ready st \<and> \<not> es_done st \<and> (es_encrypt st \<or> es_tag st \<noteq> None)"
| "evp_ok (GetTag n) st \<longleftrightarrow> evp_aead_ready st \<and> es_encrypt st \<and> es_done st \<and> 0 < n \<and> n \<le> 16"
| "evp_ok (SetTag t n) st \<longleftrightarrow> evp_aead_ready st \<and> \<not> es_encrypt st \<and> \<not> es_done st
     \<and> 0 < n \<and> n \<le> 16 \<and> nat n \<le> length t"

fun evp_valid :: "evp_ctx \<Rightarrow> evp_state \<Rightarrow> bool" where
  "evp_valid [] st \<longleftrightarrow> True"
| "evp_valid (c # cs) st \<longleftrightarrow> evp_ok c st \<and> evp_valid cs (evp_track c st)"

definition evp_well_used :: "evp_ctx \<Rightarrow> bool" where
  "evp_well_used ctx \<longleftrightarrow> evp_valid ctx evp_fresh"

text \<open>
  The algorithms themselves: the stream cipher of an AEAD in each direction, its tag over the
  associated data and the ciphertext, and the block functions of header protection.
\<close>

record aead_core =
  ac_enc :: "aead \<Rightarrow> bytes \<Rightarrow> bytes \<Rightarrow> bytes \<Rightarrow> bytes"
  ac_dec :: "aead \<Rightarrow> bytes \<Rightarrow> bytes \<Rightarrow> bytes \<Rightarrow> bytes"
  ac_tag :: "aead \<Rightarrow> bytes \<Rightarrow> bytes \<Rightarrow> bytes \<Rightarrow> bytes \<Rightarrow> bytes"
  ac_block :: "cipher \<Rightarrow> bytes \<Rightarrow> bytes \<Rightarrow> bytes \<Rightarrow> bytes"

definition core_ok :: "aead_core \<Rightarrow> bool" where
  "core_ok co \<longleftrightarrow> (\<forall>a k n x. length k = evp_key_len (AeadCipher a) \<longrightarrow>
       ac_dec co a k n (ac_enc co a k n x) = x
       \<and> length (ac_enc co a k n x) = length x \<and> length (ac_dec co a k n x) = length x)
     \<and> (\<forall>a k n d x. length k = evp_key_len (AeadCipher a) \<longrightarrow> length (ac_tag co a k n d x) = 16)"

text \<open>The answer of a call in a state.\<close>

definition evp_data :: "aead_core \<Rightarrow> evp_state \<Rightarrow> bytes \<Rightarrow> bytes option" where
  "evp_data co st b =
     (case (es_cipher st, es_key st, es_iv st) of
        (Some (AeadCipher a), Some k, Some n) \<Rightarrow>
          Some ((if es_encrypt st then ac_enc co else ac_dec co) a k n b)
      | (Some c, Some k, iv) \<Rightarrow> Some (ac_block co c k (case iv of None \<Rightarrow> [] | Some n \<Rightarrow> n) b)
      | _ \<Rightarrow> None)"

definition evp_tag_of :: "aead_core \<Rightarrow> evp_state \<Rightarrow> bytes option" where
  "evp_tag_of co st =
     (case (es_cipher st, es_key st, es_iv st) of
        (Some (AeadCipher a), Some k, Some n) \<Rightarrow>
          let body = (case es_body st of None \<Rightarrow> [] | Some b \<Rightarrow> b)
          in Some (ac_tag co a k n (es_aad st) (if es_encrypt st then ac_enc co a k n body else body))
      | _ \<Rightarrow> None)"

definition evp_tag_matches :: "aead_core \<Rightarrow> evp_state \<Rightarrow> bool" where
  "evp_tag_matches co st =
     (case (es_tag st, evp_tag_of co st) of
        (Some t, Some u) \<Rightarrow> t = take (length t) u
      | _ \<Rightarrow> False)"

fun evp_answer :: "aead_core \<Rightarrow> evp_state \<Rightarrow> evp_call \<Rightarrow> bytes option" where
  "evp_answer co st (SetIvLen n) = (if evp_ivlen_valid (es_cipher st) n then Some [] else None)"
| "evp_answer co st (UpdateData b n) = evp_data co st (take (nat n) b)"
| "evp_answer co st FinalCall = (if es_encrypt st \<or> evp_tag_matches co st then Some [] else None)"
| "evp_answer co st (GetTag n) = map_option (take (nat n)) (evp_tag_of co st)"
| "evp_answer co st c = Some []"

definition evp_documented :: "crypto_lib \<Rightarrow> aead_core \<Rightarrow> bool" where
  "evp_documented lib co \<longleftrightarrow> core_ok co \<and> lib_ctx_new lib
     \<and> (\<forall>ctx c. evp_well_used (ctx @ [c]) \<longrightarrow> lib_evp lib ctx c = evp_answer co (evp_state_of ctx) c)"

lemma evp_state_append [simp]: "evp_state_of (ctx @ cs) = fold evp_track cs (evp_state_of ctx)"
  by (simp add: evp_state_of_def)

lemma evp_state_Nil [simp]: "evp_state_of [] = evp_fresh"
  by (simp add: evp_state_of_def)

lemma evp_state_Cons [simp]: "evp_state_of (c # cs) = fold evp_track cs (evp_track c evp_fresh)"
  by (simp add: evp_state_of_def)

lemma evp_valid_append:
  "evp_valid (xs @ ys) st \<longleftrightarrow> evp_valid xs st \<and> evp_valid ys (fold evp_track xs st)"
  by (induction xs arbitrary: st) simp_all

lemma evp_well_used_simps [simp]:
  "evp_well_used []"
  "evp_well_used (c # cs) \<longleftrightarrow> evp_valid (c # cs) evp_fresh"
  "evp_well_used (ctx @ cs) \<longleftrightarrow> evp_well_used ctx \<and> evp_valid cs (evp_state_of ctx)"
  by (simp_all add: evp_well_used_def evp_valid_append evp_state_of_def)

lemma evp_do_documented:
  "evp_documented lib co \<Longrightarrow> evp_well_used ctx \<Longrightarrow> evp_ok c (evp_state_of ctx) \<Longrightarrow>
     evp_do lib c ctx = (evp_answer co (evp_state_of ctx) c, ctx @ [c])"
  by (simp add: evp_do_def evp_documented_def)

lemma core_okD:
  assumes "core_ok co" and "length k = evp_key_len (AeadCipher a)"
  shows "ac_dec co a k n (ac_enc co a k n x) = x" "length (ac_enc co a k n x) = length x"
    "length (ac_dec co a k n x) = length x" "ac_enc co a k n [] = []" "ac_dec co a k n [] = []"
    "length (ac_tag co a k n d x) = 16"
proof -
  show "ac_dec co a k n (ac_enc co a k n x) = x" "length (ac_tag co a k n d x) = 16"
    using assms by (simp_all add: core_ok_def)
  have l: "length (ac_enc co a k n x) = length x" "length (ac_dec co a k n x) = length x" for x
    using assms by (simp_all add: core_ok_def)
  then show "length (ac_enc co a k n x) = length x" "length (ac_dec co a k n x) = length x" by simp_all
  show "ac_enc co a k n [] = []" "ac_dec co a k n [] = []" using l [of "[]"] by simp_all
qed

lemma documented_core: "evp_documented lib co \<Longrightarrow> core_ok co \<and> lib_ctx_new lib"
  by (simp add: evp_documented_def)

lemma to_int_small [simp]: "n < 2 ^ 31 \<Longrightarrow> to_int n = int n"
  by (simp add: to_int_def)

lemma key_length_aead: "evp_key_len (AeadCipher a) = aead_key_length a"
  by (cases a) simp_all

lemma ivlen_12 [simp]: "evp_ivlen_valid (Some (AeadCipher a)) 12"
  by (cases a) simp_all

lemma put_at_all: "length bs = length buf \<Longrightarrow> put_at 0 bs buf = bs"
  by (simp add: put_at_def)

lemma put_at_Nil [simp]: "put_at off [] buf = buf"
  by (simp add: put_at_def)

lemma put_at_body_tag:
  "length c = n \<Longrightarrow> length t = m \<Longrightarrow> put_at n t (put_at 0 c (replicate (n + m) 0)) = c @ t"
  by (simp add: put_at_def)

lemmas evp_run = evp_bind_def evp_when_def evp_ret_def evp_reinit_def evp_select_def evp_data_def
  evp_tag_of_def evp_fresh_def evp_init_ok_def evp_aead_ready_def evp_data_ok_def evp_tag_matches_def

text \<open>What a context bound to an algorithm, a key and a direction means.\<close>

definition ctx_bound :: "aead \<Rightarrow> bytes \<Rightarrow> cipher_direction \<Rightarrow> cipher_ctx \<Rightarrow> bool" where
  "ctx_bound a key dir c \<longleftrightarrow> cc_aead c = a \<and> cc_dir c = dir \<and> cc_key c = key
     \<and> length key = aead_key_length a
     \<and> (\<exists>ctx. cc_ctx c = Some ctx \<and> evp_well_used ctx
          \<and> es_cipher (evp_state_of ctx) = Some (AeadCipher a) \<and> es_key (evp_state_of ctx) = Some key
          \<and> es_ivlen (evp_state_of ctx) = 12 \<and> es_encrypt (evp_state_of ctx) = (dir = Encrypt))"

lemma key_not_Nil: "length key = aead_key_length a \<Longrightarrow> key \<noteq> []"
  by (cases a) auto

lemma cipher_init_bound:
  assumes "evp_documented lib co" and "length key = aead_key_length a"
  shows "\<exists>c'. cipher_init lib a key dir c = (True, c') \<and> ctx_bound a key dir c'"
  using assms documented_core [OF assms(1)]
  by (cases dir)
    (simp_all add: cipher_init_def evp_do_documented evp_run ctx_bound_def cipher_reset_def Let_def
      aead_iv_length_def key_length_aead)

text \<open>
  The messages of the packet path: a nonce of twelve bytes, and associated data and body whose sizes
  survive the cast to \<open>int\<close>.
\<close>

definition message_ok :: "bytes \<Rightarrow> bytes \<Rightarrow> bytes \<Rightarrow> bool" where
  "message_ok nonce aad body \<longleftrightarrow> length nonce = 12 \<and> length aad < 2 ^ 31 \<and> length body < 2 ^ 31"

lemma aead_seal_documented:
  assumes "evp_documented lib co" and "length key = aead_key_length a" and "message_ok nonce aad pt"
  shows "aead_seal lib a key nonce aad pt =
    Some (ac_enc co a key nonce pt @ ac_tag co a key nonce aad (ac_enc co a key nonce pt))"
proof -
  note c = core_okD [OF conjunct1 [OF documented_core [OF assms(1)]], of key a, unfolded key_length_aead, OF assms(2)]
  show ?thesis
    using assms documented_core [OF assms(1)]
    by (cases "aad = []") (simp_all add: aead_seal_def evp_do_documented evp_run Let_def c
        aead_tag_length_def put_at_body_tag message_ok_def key_length_aead)
qed

lemma aead_open_documented:
  assumes "evp_documented lib co" and "length key = aead_key_length a" and "message_ok nonce aad pt"
  shows "aead_open lib a key nonce aad
      (ac_enc co a key nonce pt @ ac_tag co a key nonce aad (ac_enc co a key nonce pt)) = Some pt"
proof -
  note c = core_okD [OF conjunct1 [OF documented_core [OF assms(1)]], of key a, unfolded key_length_aead, OF assms(2)]
  show ?thesis
    using assms documented_core [OF assms(1)]
    by (cases "aad = []")
      (simp_all add: aead_open_def evp_do_documented evp_run Let_def c aead_tag_length_def put_at_all
        message_ok_def key_length_aead)
qed

lemma cipher_seal_documented:
  assumes "evp_documented lib co" and "ctx_bound a key Encrypt c" and "message_ok nonce aad body"
  shows "\<exists>c'. cipher_seal_inplace lib nonce aad body 16 c =
      (Some (ac_enc co a key nonce body, ac_tag co a key nonce aad (ac_enc co a key nonce body)), c')
    \<and> ctx_bound a key Encrypt c'"
proof -
  from assms(2) obtain ctx where ctx: "cc_ctx c = Some ctx" "cc_aead c = a" "cc_dir c = Encrypt"
    "cc_key c = key" "length key = aead_key_length a" "evp_well_used ctx"
    "es_cipher (evp_state_of ctx) = Some (AeadCipher a)" "es_key (evp_state_of ctx) = Some key"
    "es_ivlen (evp_state_of ctx) = 12" "es_encrypt (evp_state_of ctx)"
    by (auto simp: ctx_bound_def)
  note c = core_okD [OF conjunct1 [OF documented_core [OF assms(1)]], of key a, unfolded key_length_aead, OF ctx(5)]
  show ?thesis
    using assms(1,3) ctx key_not_Nil [OF ctx(5)]
    by (cases "aad = []"; cases "body = []")
      (simp_all add: cipher_seal_inplace_def evp_do_documented evp_run Let_def c aead_tag_length_def
        put_at_all ctx_bound_def message_ok_def key_length_aead)
qed

lemma cipher_open_documented:
  assumes "evp_documented lib co" and "ctx_bound a key Decrypt c" and "message_ok nonce aad body"
    and "length tag = 16"
  shows "\<exists>c'. cipher_open_inplace lib nonce aad body tag c =
      (if tag = ac_tag co a key nonce aad body then Some (ac_dec co a key nonce body) else None, c')
    \<and> ctx_bound a key Decrypt c'"
proof -
  from assms(2) obtain ctx where ctx: "cc_ctx c = Some ctx" "cc_aead c = a" "cc_dir c = Decrypt"
    "cc_key c = key" "length key = aead_key_length a" "evp_well_used ctx"
    "es_cipher (evp_state_of ctx) = Some (AeadCipher a)" "es_key (evp_state_of ctx) = Some key"
    "es_ivlen (evp_state_of ctx) = 12" "\<not> es_encrypt (evp_state_of ctx)"
    by (auto simp: ctx_bound_def)
  note c = core_okD [OF conjunct1 [OF documented_core [OF assms(1)]], of key a, unfolded key_length_aead, OF ctx(5)]
  show ?thesis
    using assms(1,3,4) ctx key_not_Nil [OF ctx(5)]
    by (cases "aad = []"; cases "body = []"; cases "tag = ac_tag co a key nonce aad body")
      (simp_all add: cipher_open_inplace_def evp_do_documented evp_run Let_def c aead_tag_length_def
        put_at_all ctx_bound_def message_ok_def key_length_aead)
qed

section \<open>Runs of the packet path\<close>

text \<open>All messages sealed, or opened, one after the other in one cached context.\<close>

fun seal_all :: "crypto_lib \<Rightarrow> (bytes \<times> bytes \<times> bytes) list \<Rightarrow> cipher_ctx \<Rightarrow>
    (bytes \<times> bytes) option list \<times> cipher_ctx" where
  "seal_all lib [] c = ([], c)"
| "seal_all lib ((nonce, aad, body) # ms) c =
     (let (r, c1) = cipher_seal_inplace lib nonce aad body 16 c; (rs, c2) = seal_all lib ms c1
      in (r # rs, c2))"

fun open_all :: "crypto_lib \<Rightarrow> (bytes \<times> bytes \<times> bytes \<times> bytes) list \<Rightarrow> cipher_ctx \<Rightarrow>
    bytes option list \<times> cipher_ctx" where
  "open_all lib [] c = ([], c)"
| "open_all lib ((nonce, aad, body, tag) # ms) c =
     (let (r, c1) = cipher_open_inplace lib nonce aad body tag c; (rs, c2) = open_all lib ms c1
      in (r # rs, c2))"

definition split_sealed :: "nat \<Rightarrow> bytes \<Rightarrow> bytes \<times> bytes" where
  "split_sealed n s = (take n s, drop n s)"

definition sent_ok :: "(bytes \<times> bytes \<times> bytes) list \<Rightarrow> bool" where
  "sent_ok ms \<longleftrightarrow> list_all (\<lambda>(nonce, aad, body). message_ok nonce aad body) ms"

definition received_ok :: "(bytes \<times> bytes \<times> bytes \<times> bytes) list \<Rightarrow> bool" where
  "received_ok ms \<longleftrightarrow> list_all (\<lambda>(nonce, aad, body, tag). message_ok nonce aad body) ms"

lemma seal_all_bound:
  assumes "evp_documented lib co" and "ctx_bound a key Encrypt c" and "sent_ok ms"
  shows "\<exists>c'. seal_all lib ms c =
      (map (\<lambda>(nonce, aad, body). map_option (split_sealed (length body))
         (aead_seal lib a key nonce aad body)) ms, c') \<and> ctx_bound a key Encrypt c'"
  using assms(2,3)
proof (induction ms arbitrary: c)
  case (Cons m ms)
  obtain nonce aad body where m: "m = (nonce, aad, body)" by (cases m)
  have ok: "message_ok nonce aad body" "sent_ok ms" using Cons.prems(2) by (simp_all add: m sent_ok_def)
  have key: "length key = aead_key_length a" using Cons.prems(1) by (simp add: ctx_bound_def)
  note co = core_okD [OF conjunct1 [OF documented_core [OF assms(1)]], of key a, unfolded key_length_aead, OF key]
  obtain c1 where c1: "cipher_seal_inplace lib nonce aad body 16 c =
      (Some (ac_enc co a key nonce body, ac_tag co a key nonce aad (ac_enc co a key nonce body)), c1)"
    "ctx_bound a key Encrypt c1"
    using cipher_seal_documented [OF assms(1) Cons.prems(1) ok(1)] by blast
  obtain c2 where "seal_all lib ms c1 =
      (map (\<lambda>(nonce, aad, body). map_option (split_sealed (length body))
         (aead_seal lib a key nonce aad body)) ms, c2)" "ctx_bound a key Encrypt c2"
    using Cons.IH [OF c1(2) ok(2)] by blast
  moreover have "map_option (split_sealed (length body)) (aead_seal lib a key nonce aad body) =
      Some (ac_enc co a key nonce body, ac_tag co a key nonce aad (ac_enc co a key nonce body))"
    by (simp add: aead_seal_documented [OF assms(1) key ok(1)] split_sealed_def co)
  ultimately show ?case using c1(1) by (auto simp: m)
qed simp

lemma open_all_bound:
  assumes "evp_documented lib co" and "ctx_bound a key Decrypt c" and "received_ok ms"
  shows "\<exists>rs c'. open_all lib ms c = (rs, c') \<and> ctx_bound a key Decrypt c'"
  using assms(2,3)
proof (induction ms arbitrary: c)
  case (Cons m ms)
  obtain nonce aad body tag where m: "m = (nonce, aad, body, tag)" by (cases m)
  have ok: "message_ok nonce aad body" "received_ok ms" using Cons.prems(2) by (simp_all add: m received_ok_def)
  have "\<exists>r c1. cipher_open_inplace lib nonce aad body tag c = (r, c1) \<and> ctx_bound a key Decrypt c1"
  proof (cases "length tag = 16")
    case True
    then show ?thesis using cipher_open_documented [OF assms(1) Cons.prems(1) ok(1)] by blast
  next
    case False
    then show ?thesis using Cons.prems(1)
      by (auto simp: ctx_bound_def cipher_open_inplace_def aead_tag_length_def)
  qed
  then obtain r c1 where c1: "cipher_open_inplace lib nonce aad body tag c = (r, c1)"
    "ctx_bound a key Decrypt c1" by blast
  then show ?case using Cons.IH [OF c1(2) ok(2)] by (fastforce simp: m)
qed simp

text \<open>
  C20. Sealing with a cached context computes what the one-shot function computes: for a context that
  was initialised once with a key of the algorithm's length, every packet of any sequence, with nonces
  of twelve bytes and sizes below \<open>2 ^ 31\<close>, gets the ciphertext and the tag that \<open>aead_seal\<close>, with a
  context of its own, gives it. The library is any that behaves as OpenSSL documents.
\<close>

theorem cached_seal_equals_oneshot:
  assumes "evp_documented lib co" and "length key = aead_key_length a"
    and "cipher_init lib a key Encrypt c0 = (ok, c)" and "sent_ok ms"
  shows "ok \<and> fst (seal_all lib ms c) =
    map (\<lambda>(nonce, aad, body). map_option (split_sealed (length body))
      (aead_seal lib a key nonce aad body)) ms"
proof -
  have b: "ok \<and> ctx_bound a key Encrypt c"
    using cipher_init_bound [OF assms(1,2), of Encrypt c0] assms(3) by simp
  then obtain c' where "seal_all lib ms c =
      (map (\<lambda>(nonce, aad, body). map_option (split_sealed (length body))
         (aead_seal lib a key nonce aad body)) ms, c')"
    using seal_all_bound [OF assms(1) _ assms(4)] by blast
  with b show ?thesis by simp
qed

text \<open>
  A concrete library: a cipher that adds the first bytes of the key and the nonce, and a checksum over
  the nonce, the associated data and the ciphertext for the tag.
\<close>

definition demo_core :: aead_core where
  "demo_core = \<lparr>ac_enc = (\<lambda>a k n x. map (\<lambda>b. b + (hd (k @ [0]) + hd (n @ [0]))) x),
     ac_dec = (\<lambda>a k n x. map (\<lambda>b. b - (hd (k @ [0]) + hd (n @ [0]))) x),
     ac_tag = (\<lambda>a k n d x. (sum_list n + sum_list d + 3 * sum_list x) # replicate 15 0),
     ac_block = (\<lambda>c k n b. take 16 (b @ replicate 16 7))\<rparr>"

definition demo_lib :: crypto_lib where
  "demo_lib = \<lparr>lib_kdf = (\<lambda>m d s k i n. Some (take n (map (\<lambda>b. b + 1) k @ i @ replicate n 9))),
     lib_md_size = hash_length, lib_ctx_new = True,
     lib_evp = (\<lambda>ctx c. evp_answer demo_core (evp_state_of ctx) c)\<rparr>"

lemma demo_documented: "evp_documented demo_lib demo_core"
  by (simp add: evp_documented_def core_ok_def demo_core_def demo_lib_def comp_def)

theorem packet_keys_separated_witness:
  "\<exists>keys nxt i_key i_hp. derive_packet_keys demo_lib Aes128Gcm (replicate 32 1) = Some keys
    \<and> derive_next_application_secret demo_lib Sha256 (replicate 32 1) = Some nxt \<and> i_key \<noteq> i_hp
    \<and> lib_kdf demo_lib ExpandOnly ''SHA256'' [] (replicate 32 1) i_key 16 = Some (pk_key keys)
    \<and> lib_kdf demo_lib ExpandOnly ''SHA256'' [] (replicate 32 1) i_hp 16 = Some (pk_hp keys)"
proof -
  have "derive_packet_keys demo_lib Aes128Gcm (replicate 32 1) \<noteq> None"
    "derive_next_application_secret demo_lib Sha256 (replicate 32 1) \<noteq> None"
    by (simp_all add: derive_packet_keys_def derive_next_application_secret_def hkdf_expand_label_def
        hkdf_expand_def kLabelPrefix_def demo_lib_def aead_iv_length_def aead_hp_length_def Let_def)
  then obtain keys nxt where k: "derive_packet_keys demo_lib Aes128Gcm (replicate 32 1) = Some keys"
    and n: "derive_next_application_secret demo_lib (aead_hash Aes128Gcm) (replicate 32 1) = Some nxt" by auto
  from packet_keys_separated [OF k n] obtain i_key i_iv i_hp i_ku where
    "distinct [i_key, i_iv, i_hp, i_ku]"
    "lib_kdf demo_lib ExpandOnly ''SHA256'' [] (replicate 32 1) i_key 16 = Some (pk_key keys)"
    "lib_kdf demo_lib ExpandOnly ''SHA256'' [] (replicate 32 1) i_hp 16 = Some (pk_hp keys)"
    by (auto simp: md_name_def aead_hp_length_def)
  then show ?thesis using k n by (intro exI [of _ keys] exI [of _ nxt] exI [of _ i_key] exI [of _ i_hp]) simp
qed

theorem cached_seal_equals_oneshot_witness:
  "fst (seal_all demo_lib [(replicate 12 1, [2], [3, 4]), (replicate 12 2, [], [])]
     (snd (cipher_init demo_lib Aes128Gcm (replicate 16 5) Encrypt cipher_ctx_empty))) =
   map (\<lambda>(nonce, aad, body). map_option (split_sealed (length body))
      (aead_seal demo_lib Aes128Gcm (replicate 16 5) nonce aad body))
     [(replicate 12 1, [2], [3, 4]), (replicate 12 2, [], [])]"
proof -
  obtain ok c where c: "cipher_init demo_lib Aes128Gcm (replicate 16 5) Encrypt cipher_ctx_empty = (ok, c)"
    by (cases "cipher_init demo_lib Aes128Gcm (replicate 16 5) Encrypt cipher_ctx_empty")
  have "sent_ok [(replicate 12 1, [2], [3, 4]), (replicate 12 2, [], [])]"
    by (simp add: sent_ok_def message_ok_def)
  from cached_seal_equals_oneshot [OF demo_documented _ c this] show ?thesis using c by simp
qed

text \<open>
  C21. Opening inverts sealing on the cached contexts: whatever was sealed before in the sender's
  context and opened before in the receiver's, authentic or not, a packet sealed with a nonce and
  associated data is opened, with the same two, to the bytes that were sealed. Key and nonces have the
  algorithm's lengths, and sizes are below \<open>2 ^ 31\<close>.
\<close>

theorem cached_open_inverts_seal:
  assumes "evp_documented lib co" and "length key = aead_key_length a"
    and "cipher_init lib a key Encrypt c0 = (ok1, c)" and "cipher_init lib a key Decrypt d0 = (ok2, d)"
    and "seal_all lib sent c = (rs, c1)" and "open_all lib received d = (os, d1)"
    and "sent_ok sent" and "received_ok received" and "message_ok nonce aad body"
  shows "\<exists>ct tag c2 d2. cipher_seal_inplace lib nonce aad body 16 c1 = (Some (ct, tag), c2)
    \<and> length ct = length body \<and> length tag = 16
    \<and> cipher_open_inplace lib nonce aad ct tag d1 = (Some body, d2)"
proof -
  note co = core_okD [OF conjunct1 [OF documented_core [OF assms(1)]], of key a, unfolded key_length_aead, OF assms(2)]
  let ?ct = "ac_enc co a key nonce body"
  have ct: "message_ok nonce aad ?ct" using assms(9) by (simp add: message_ok_def co)
  have "ctx_bound a key Encrypt c"
    using cipher_init_bound [OF assms(1,2), of Encrypt c0] assms(3) by simp
  then have "ctx_bound a key Encrypt c1"
    using seal_all_bound [OF assms(1) _ assms(7), of a key c] assms(5) by simp
  moreover have "ctx_bound a key Decrypt d"
    using cipher_init_bound [OF assms(1,2), of Decrypt d0] assms(4) by simp
  then have "ctx_bound a key Decrypt d1"
    using open_all_bound [OF assms(1) _ assms(8), of a key d] assms(6) by simp
  ultimately obtain c2 d2 where
    "cipher_seal_inplace lib nonce aad body 16 c1 = (Some (?ct, ac_tag co a key nonce aad ?ct), c2)"
    "cipher_open_inplace lib nonce aad ?ct (ac_tag co a key nonce aad ?ct) d1 =
       (Some (ac_dec co a key nonce ?ct), d2)"
    using cipher_seal_documented [OF assms(1) _ assms(9), of a key c1]
      cipher_open_documented [OF assms(1) _ ct, of a key d1 "ac_tag co a key nonce aad ?ct"]
      co(6) by auto
  then show ?thesis using co by auto
qed

theorem cached_open_inverts_seal_witness:
  "\<exists>ct tag c2 d2. cipher_seal_inplace demo_lib (replicate 12 7) [1] [3, 4] 16
      (snd (cipher_init demo_lib Aes128Gcm (replicate 16 5) Encrypt cipher_ctx_empty)) = (Some (ct, tag), c2)
    \<and> length ct = 2 \<and> length tag = 16
    \<and> cipher_open_inplace demo_lib (replicate 12 7) [1] ct tag
        (snd (open_all demo_lib [(replicate 12 6, [], [9], replicate 16 0)]
          (snd (cipher_init demo_lib Aes128Gcm (replicate 16 5) Decrypt cipher_ctx_empty)))) = (Some [3, 4], d2)"
proof -
  let ?bad = "[(replicate 12 6, [], [9], replicate 16 0)]"
  obtain ok1 c where c: "cipher_init demo_lib Aes128Gcm (replicate 16 5) Encrypt cipher_ctx_empty = (ok1, c)"
    by (cases "cipher_init demo_lib Aes128Gcm (replicate 16 5) Encrypt cipher_ctx_empty")
  obtain ok2 d where d: "cipher_init demo_lib Aes128Gcm (replicate 16 5) Decrypt cipher_ctx_empty = (ok2, d)"
    by (cases "cipher_init demo_lib Aes128Gcm (replicate 16 5) Decrypt cipher_ctx_empty")
  obtain os d1 where o: "open_all demo_lib ?bad d = (os, d1)" by (cases "open_all demo_lib ?bad d")
  have "sent_ok []" "received_ok ?bad" "message_ok (replicate 12 7) [1] [3, 4]"
    by (simp_all add: sent_ok_def received_ok_def message_ok_def)
  from cached_open_inverts_seal [OF demo_documented _ c d _ o this, of "[]" c] c d o show ?thesis
    by (simp add: numeral_2_eq_2 del: open_all.simps)
qed

end
