(* ===== verification/VarInt.thy ===== *)
theory VarInt
  imports Prelude
begin

text \<open>
  The variable-length integers of RFC 9000 section 16, as implemented by
  \<open>example/quic-http3/src/quic/varint.cpp\<close>: \<open>encoded_size\<close>, \<open>write\<close>, \<open>encode\<close>, \<open>append\<close> and
  \<open>decode\<close>. A thrown \<open>std::out_of_range\<close> is \<open>None\<close>. The theory ends with the round trip, the
  bound on decoded values and the interpretation of the codec interface.
\<close>

section \<open>The code\<close>

definition k1ByteMax :: nat where "k1ByteMax = push_bit 6 1 - 1"
definition k2ByteMax :: nat where "k2ByteMax = push_bit 14 1 - 1"
definition k4ByteMax :: nat where "k4ByteMax = push_bit 30 1 - 1"
definition kMax :: nat where "kMax = push_bit 62 1 - 1"

definition kPrefix2 :: nat where "kPrefix2 = 0x40"
definition kPrefix4 :: nat where "kPrefix4 = 0x80"
definition kPrefix8 :: nat where "kPrefix8 = 0xC0"

definition varint_encoded_size :: "nat \<Rightarrow> nat option" where
  "varint_encoded_size value =
     (if value \<le> k1ByteMax then Some 1
      else if value \<le> k2ByteMax then Some 2
      else if value \<le> k4ByteMax then Some 4
      else if value \<le> kMax then Some 8
      else None)"

text \<open>The bytes that \<open>VarInt::write\<close> stores, in order.\<close>

definition varint_write :: "nat \<Rightarrow> bytes option" where
  "varint_write value =
     (case varint_encoded_size value of
        None \<Rightarrow> None
      | Some sz \<Rightarrow> Some (
          if sz = 1 then [of_nat value]
          else if sz = 2 then
            [of_nat (kPrefix2 OR (drop_bit 8 value AND 0x3F)),
             of_nat (value AND 0xFF)]
          else if sz = 4 then
            [of_nat (kPrefix4 OR (drop_bit 24 value AND 0x3F)),
             of_nat (drop_bit 16 value AND 0xFF),
             of_nat (drop_bit 8 value AND 0xFF),
             of_nat (value AND 0xFF)]
          else
            [of_nat (kPrefix8 OR (drop_bit 56 value AND 0x3F)),
             of_nat (drop_bit 48 value AND 0xFF),
             of_nat (drop_bit 40 value AND 0xFF),
             of_nat (drop_bit 32 value AND 0xFF),
             of_nat (drop_bit 24 value AND 0xFF),
             of_nat (drop_bit 16 value AND 0xFF),
             of_nat (drop_bit 8 value AND 0xFF),
             of_nat (value AND 0xFF)]))"

definition varint_encode :: "nat \<Rightarrow> bytes option" where
  "varint_encode value = varint_write value"

definition varint_append :: "bytes \<Rightarrow> nat \<Rightarrow> bytes option" where
  "varint_append out value =
     (case varint_write value of None \<Rightarrow> None | Some w \<Rightarrow> Some (out @ w))"

text \<open>The loop \<open>for (i = 1; i < size; ++i) result = (result << 8) | buf[offset + i]\<close>.\<close>

fun varint_decode_loop :: "bytes \<Rightarrow> nat \<Rightarrow> nat \<Rightarrow> nat \<Rightarrow> nat \<Rightarrow> nat" where
  "varint_decode_loop buf offset i 0 result = result"
| "varint_decode_loop buf offset i (Suc n) result =
     varint_decode_loop buf offset (Suc i) n (push_bit 8 result OR unat (buf ! (offset + i)))"

definition varint_decode :: "bytes \<Rightarrow> nat \<Rightarrow> (nat \<times> nat) option" where
  "varint_decode buf offset =
     (if offset \<ge> length buf then None
      else
        let first = buf ! offset;
            sz = push_bit (unat (drop_bit 6 first)) 1
        in if offset + sz > length buf then None
           else Some (varint_decode_loop buf offset 1 (sz - 1) (unat (first AND 0x3F)),
                      offset + sz))"

section \<open>Sizes and bounds\<close>

lemmas varint_consts = k1ByteMax_def k2ByteMax_def k4ByteMax_def kMax_def
  kPrefix2_def kPrefix4_def kPrefix8_def push_bit_eq_mult

lemma kMax_eq: "kMax = 2 ^ 62 - 1"
  by (simp add: varint_consts)

lemma varint_append_encode:
  "varint_append out v = map_option ((@) out) (varint_encode v)"
  by (simp add: varint_append_def varint_encode_def split: option.split)

text \<open>The total version of the encoder on its domain.\<close>

definition vbytes :: "nat \<Rightarrow> bytes" where
  "vbytes v = the (varint_encode v)"

lemma varint_encode_vbytes: "v \<le> kMax \<Longrightarrow> varint_encode v = Some (vbytes v)"
  by (auto simp: vbytes_def varint_encode_def varint_write_def varint_encoded_size_def)

lemma varint_append_vbytes [wire_simps]: "v \<le> kMax \<Longrightarrow> varint_append out v = Some (out @ vbytes v)"
  by (simp add: varint_append_encode varint_encode_vbytes)

lemma varint_encode_None: "kMax < v \<Longrightarrow> varint_encode v = None"
  by (simp add: varint_encode_def varint_write_def varint_encoded_size_def varint_consts)

lemma vbytes_length:
  "v \<le> kMax \<Longrightarrow> varint_encoded_size v = Some (length (vbytes v))"
  by (auto simp: vbytes_def varint_encode_def varint_write_def varint_encoded_size_def)

text \<open>The two top bits of the first byte.\<close>

lemma unat_drop_bit_6: "unat (drop_bit 6 (b :: byte)) = unat b div 64"
  by (simp only: unat_drop_bit_eq) (simp add: drop_bit_eq_div)

lemma unat_and_63: "unat (b AND 0x3F :: byte) = unat b mod 64"
  by (simp add: unsigned_and_eq and_63_mod)

lemma varint_prefix_less_4: "unat (drop_bit 6 (b :: byte)) < 4"
  using unat_byte_less [of b] by (simp add: unat_drop_bit_6 less_mult_imp_div_less)

section \<open>Round trip\<close>

text \<open>What \<open>decode\<close> does once the bytes at the cursor are known.\<close>

lemma varint_decode_at:
  assumes "drop off buf = b # bs" and "n = 2 ^ (unat b div 64) - 1" and "n \<le> length bs"
  shows "varint_decode buf off =
    Some (varint_decode_loop buf off 1 n (unat b mod 64), off + Suc n)"
proof -
  have len: "length buf = off + Suc (length bs)"
    using assms(1) cursor_length [of off buf "b # bs"] by simp
  have fst: "buf ! off = b" using assms(1) by (rule nth_drop_0)
  have sz: "2 ^ (unat b div 64) = Suc n" using assms(2) by simp
  show ?thesis
    using assms(3)
    by (simp add: varint_decode_def len fst Let_def unat_drop_bit_6 unat_and_63 push_bit_eq_mult sz)
qed

lemma varint_decode_1:
  assumes "drop off buf = [b0] @ rest" and "unat b0 < 64"
  shows "varint_decode buf off = Some (unat b0, off + 1)"
  using varint_decode_at [of off buf b0 rest 0] assms by simp

lemma varint_decode_2:
  assumes "drop off buf = [b0, b1] @ rest" and "unat b0 div 64 = 1"
  shows "varint_decode buf off = Some (unat b0 mod 64 * 256 + unat b1, off + 2)"
  using varint_decode_at [of off buf b0 "b1 # rest" 1] assms
    cursor_nth [of off buf "[b0, b1] @ rest" 1]
  by (simp add: push_byte_or)

lemma varint_decode_4:
  assumes "drop off buf = [b0, b1, b2, b3] @ rest" and "unat b0 div 64 = 2"
  shows "varint_decode buf off =
    Some (((unat b0 mod 64 * 256 + unat b1) * 256 + unat b2) * 256 + unat b3, off + 4)"
proof -
  have nth: "buf ! Suc off = b1" "buf ! Suc (Suc off) = b2" "buf ! Suc (Suc (Suc off)) = b3"
    using cursor_nth [OF assms(1), of "Suc 0"] cursor_nth [OF assms(1), of "Suc (Suc 0)"]
      cursor_nth [OF assms(1), of "Suc (Suc (Suc 0))"] by simp_all
  have "varint_decode buf off =
      Some (varint_decode_loop buf off 1 (Suc (Suc (Suc 0))) (unat b0 mod 64),
        off + Suc (Suc (Suc (Suc 0))))"
    by (rule varint_decode_at [of off buf b0 "[b1, b2, b3] @ rest"]) (use assms in simp_all)
  then show ?thesis by (simp add: push_byte_or nth)
qed

lemma varint_decode_8:
  assumes "drop off buf = [b0, b1, b2, b3, b4, b5, b6, b7] @ rest" and "unat b0 div 64 = 3"
  shows "varint_decode buf off =
    Some (((((((unat b0 mod 64 * 256 + unat b1) * 256 + unat b2) * 256 + unat b3) * 256
      + unat b4) * 256 + unat b5) * 256 + unat b6) * 256 + unat b7, off + 8)"
proof -
  let ?seven = "Suc (Suc (Suc (Suc (Suc (Suc (Suc 0))))))"
  let ?xs = "[b1, b2, b3, b4, b5, b6, b7] @ rest"
  have nth: "buf ! Suc off = b1" "buf ! Suc (Suc off) = b2" "buf ! Suc (Suc (Suc off)) = b3"
    "buf ! Suc (Suc (Suc (Suc off))) = b4" "buf ! Suc (Suc (Suc (Suc (Suc off)))) = b5"
    "buf ! Suc (Suc (Suc (Suc (Suc (Suc off))))) = b6"
    "buf ! Suc (Suc (Suc (Suc (Suc (Suc (Suc off)))))) = b7"
    using cursor_nth [OF assms(1), of "Suc 0"] cursor_nth [OF assms(1), of "Suc (Suc 0)"]
      cursor_nth [OF assms(1), of "Suc (Suc (Suc 0))"]
      cursor_nth [OF assms(1), of "Suc (Suc (Suc (Suc 0)))"]
      cursor_nth [OF assms(1), of "Suc (Suc (Suc (Suc (Suc 0))))"]
      cursor_nth [OF assms(1), of "Suc (Suc (Suc (Suc (Suc (Suc 0)))))"]
      cursor_nth [OF assms(1), of ?seven] by simp_all
  have "varint_decode buf off =
      Some (varint_decode_loop buf off 1 ?seven (unat b0 mod 64), off + Suc ?seven)"
    by (rule varint_decode_at [of off buf b0 ?xs]) (use assms in simp_all)
  then show ?thesis by (simp add: push_byte_or nth)
qed

text \<open>The encoder produces, in each of its four sizes, bytes the decoder maps back.\<close>

lemmas varint_write_unfold = vbytes_def varint_encode_def varint_write_def varint_encoded_size_def
  varint_consts drop_bit_eq_div and_63_mod and_255_mod or_64_add or_128_add or_192_add

lemma vbytes_1: "v < 64 \<Longrightarrow> vbytes v = [of_nat v]"
  by (simp add: varint_write_unfold)

lemma vbytes_2:
  assumes "64 \<le> v" and "v < 2 ^ 14"
  shows "vbytes v = [of_nat (64 + v div 2 ^ 8), of_nat (v mod 256)]"
proof -
  have "v div 2 ^ 8 < 64" using assms(2) by (simp add: less_mult_imp_div_less)
  then show ?thesis using assms by (simp add: varint_write_unfold)
qed

lemma vbytes_4:
  assumes "2 ^ 14 \<le> v" and "v < 2 ^ 30"
  shows "vbytes v = [of_nat (128 + v div 2 ^ 24), of_nat (v div 2 ^ 16 mod 256),
    of_nat (v div 2 ^ 8 mod 256), of_nat (v mod 256)]"
proof -
  have "v div 2 ^ 24 < 64" using assms(2) by (simp add: less_mult_imp_div_less)
  then show ?thesis using assms by (simp add: varint_write_unfold)
qed

lemma vbytes_8:
  assumes "2 ^ 30 \<le> v" and "v < 2 ^ 62"
  shows "vbytes v = [of_nat (192 + v div 2 ^ 56), of_nat (v div 2 ^ 48 mod 256),
    of_nat (v div 2 ^ 40 mod 256), of_nat (v div 2 ^ 32 mod 256), of_nat (v div 2 ^ 24 mod 256),
    of_nat (v div 2 ^ 16 mod 256), of_nat (v div 2 ^ 8 mod 256), of_nat (v mod 256)]"
proof -
  have "v div 2 ^ 56 < 64" using assms(2) by (simp add: less_mult_imp_div_less)
  then show ?thesis using assms by (simp add: varint_write_unfold)
qed

lemma shift_join_0: "v div 2 ^ 8 * 256 + v mod 256 = (v::nat)"
  using shift_byte_join [of v 0] by simp

lemma shift_join_8: "v div 2 ^ 16 * 256 + v div 2 ^ 8 mod 256 = (v::nat) div 2 ^ 8"
  using shift_byte_join [of v 8] by simp

lemma shift_join_16: "v div 2 ^ 24 * 256 + v div 2 ^ 16 mod 256 = (v::nat) div 2 ^ 16"
  using shift_byte_join [of v 16] by simp

lemma shift_join_24: "v div 2 ^ 32 * 256 + v div 2 ^ 24 mod 256 = (v::nat) div 2 ^ 24"
  using shift_byte_join [of v 24] by simp

lemma shift_join_32: "v div 2 ^ 40 * 256 + v div 2 ^ 32 mod 256 = (v::nat) div 2 ^ 32"
  using shift_byte_join [of v 32] by simp

lemma shift_join_40: "v div 2 ^ 48 * 256 + v div 2 ^ 40 mod 256 = (v::nat) div 2 ^ 40"
  using shift_byte_join [of v 40] by simp

lemma shift_join_48: "v div 2 ^ 56 * 256 + v div 2 ^ 48 mod 256 = (v::nat) div 2 ^ 48"
  using shift_byte_join [of v 48] by simp

lemmas shift_joins = shift_join_0 shift_join_8 shift_join_16 shift_join_24 shift_join_32
  shift_join_40 shift_join_48

lemma varint_roundtrip_at:
  assumes "v \<le> kMax" and "drop off buf = vbytes v @ rest"
  shows "varint_decode buf off = Some (v, off + length (vbytes v))"
proof -
  have "v < 2 ^ 62" using assms(1) by (simp add: kMax_eq)
  then consider (one) "v < 64" | (two) "64 \<le> v" "v < 2 ^ 14"
    | (four) "2 ^ 14 \<le> v" "v < 2 ^ 30" | (eight) "2 ^ 30 \<le> v" "v < 2 ^ 62"
    by linarith
  then show ?thesis
  proof cases
    case one
    then show ?thesis using assms(2) varint_decode_1 [of off buf "of_nat v" rest]
      by (simp add: vbytes_1 unat_of_nat_byte)
  next
    case two
    have lt: "v div 2 ^ 8 < 64" using two(2) by (simp add: less_mult_imp_div_less)
    have "varint_decode buf off = Some ((64 + v div 2 ^ 8) mod 64 * 256 + v mod 256, off + 2)"
      using varint_decode_2 [OF assms(2) [unfolded vbytes_2 [OF two]]]
      unfolding unat_of_nat_byte using lt by simp
    also have "(64 + v div 2 ^ 8) mod 64 = v div 2 ^ 8" using lt by simp
    finally show ?thesis unfolding vbytes_2 [OF two] shift_joins by simp
  next
    case four
    have lt: "v div 2 ^ 24 < 64" using four(2) by (simp add: less_mult_imp_div_less)
    have "varint_decode buf off = Some ((((128 + v div 2 ^ 24) mod 64 * 256
        + v div 2 ^ 16 mod 256) * 256 + v div 2 ^ 8 mod 256) * 256 + v mod 256, off + 4)"
      using varint_decode_4 [OF assms(2) [unfolded vbytes_4 [OF four]]]
      unfolding unat_of_nat_byte using lt by simp
    also have "(128 + v div 2 ^ 24) mod 64 = v div 2 ^ 24" using lt by (simp add: mod_if)
    finally show ?thesis unfolding vbytes_4 [OF four] shift_joins by simp
  next
    case eight
    have lt: "v div 2 ^ 56 < 64" using eight(2) by (simp add: less_mult_imp_div_less)
    have "varint_decode buf off = Some ((((((((192 + v div 2 ^ 56) mod 64 * 256
        + v div 2 ^ 48 mod 256) * 256 + v div 2 ^ 40 mod 256) * 256 + v div 2 ^ 32 mod 256) * 256
        + v div 2 ^ 24 mod 256) * 256 + v div 2 ^ 16 mod 256) * 256 + v div 2 ^ 8 mod 256) * 256
        + v mod 256, off + 8)"
      using varint_decode_8 [OF assms(2) [unfolded vbytes_8 [OF eight]]]
      unfolding unat_of_nat_byte using lt by simp
    also have "(192 + v div 2 ^ 56) mod 64 = v div 2 ^ 56" using lt by (simp add: mod_if)
    finally show ?thesis unfolding vbytes_8 [OF eight] shift_joins by simp
  qed
qed

lemma varint_decode_append [wire_simps]:
  "v \<le> kMax \<Longrightarrow> varint_decode (pre @ vbytes v @ rest) (length pre) =
     Some (v, length pre + length (vbytes v))"
  by (rule varint_roundtrip_at) simp_all

text \<open>
  Decoding only looks at the bytes from the cursor on; as rewrite rules the next two facts run the
  decoder over encoded bytes at any position of a buffer.
\<close>

definition varint_head :: "bytes \<Rightarrow> (nat \<times> nat) option" where
  "varint_head xs = varint_decode xs 0"

lemma varint_decode_loop_drop:
  "off \<le> length buf \<Longrightarrow>
     varint_decode_loop (drop off buf) 0 i n r = varint_decode_loop buf off i n r"
  by (induction n arbitrary: i r) simp_all

lemma varint_decode_head:
  "varint_decode buf off = map_option (\<lambda>(v, n). (v, off + n)) (varint_head (drop off buf))"
proof (cases "off < length buf")
  case True
  then have "drop off buf ! 0 = buf ! off" by simp
  with True show ?thesis
    by (auto simp: varint_head_def varint_decode_def Let_def varint_decode_loop_drop
        simp del: drop_eq_Nil)
next
  case False
  then show ?thesis by (simp add: varint_head_def varint_decode_def)
qed

lemma varint_head_vbytes:
  "v \<le> kMax \<Longrightarrow> varint_head (vbytes v @ rest) = Some (v, length (vbytes v))"
  unfolding varint_head_def using varint_roundtrip_at [of v 0 "vbytes v @ rest" rest] by simp

lemma vbytes_nonempty: "v \<le> kMax \<Longrightarrow> 1 \<le> length (vbytes v)"
  using vbytes_length [of v] by (auto simp: varint_encoded_size_def split: if_splits)

lemma vbytes_not_Nil: "v \<le> kMax \<Longrightarrow> vbytes v \<noteq> []"
  using vbytes_nonempty [of v] by auto

lemmas varint_run = varint_decode_head varint_head_vbytes vbytes_not_Nil

section \<open>What a successful decode promises\<close>

lemma varint_decode_loop_bound:
  "r < 2 ^ k \<Longrightarrow> varint_decode_loop buf off i n r < 2 ^ (k + 8 * n)"
proof (induction n arbitrary: i r k)
  case 0
  then show ?case by simp
next
  case (Suc n)
  have "push_bit 8 r OR unat (buf ! (off + i)) < 2 ^ (k + 8)"
  proof -
    have "r * 256 + unat (buf ! (off + i)) < (r + 1) * 256" by simp
    also have "\<dots> \<le> 2 ^ k * 256" using Suc.prems by (intro mult_le_mono1) simp
    finally show ?thesis by (simp add: push_byte_or power_add)
  qed
  from Suc.IH [OF this] show ?case by (simp add: add.assoc add.commute add.left_commute)
qed

lemma varint_decode_SomeE:
  assumes "varint_decode buf off = Some (v, off')"
  shows "off < off'" and "off' \<le> length buf" and "v \<le> kMax"
proof -
  let ?k = "unat (drop_bit 6 (buf ! off))"
  from assms have o: "off < length buf" "off' = off + 2 ^ ?k" "off' \<le> length buf"
    and v: "v = varint_decode_loop buf off 1 (2 ^ ?k - 1) (unat (buf ! off AND 0x3F))"
    by (auto simp: varint_decode_def Let_def push_bit_eq_mult split: if_splits)
  from o show "off < off'" "off' \<le> length buf" by simp_all
  have "?k < 4" by (rule varint_prefix_less_4)
  then have "2 ^ ?k \<le> (2::nat) ^ 3" by (intro power_increasing) simp_all
  then have k: "6 + 8 * (2 ^ ?k - 1) \<le> (62::nat)" by simp
  have "unat (buf ! off AND 0x3F) < 2 ^ 6" by (simp add: unat_and_63)
  then have "v < 2 ^ (6 + 8 * (2 ^ ?k - 1))"
    unfolding v by (rule varint_decode_loop_bound)
  also have "\<dots> \<le> 2 ^ 62" using k by (rule power_increasing) simp
  finally show "v \<le> kMax" by (simp add: kMax_eq)
qed

interpretation varint: wire_codec varint_encode varint_decode "\<lambda>v. v \<le> kMax" "\<lambda>_ _. True"
proof
  show "\<exists>w. varint_encode v = Some w" if "v \<le> kMax" for v
    using varint_encode_vbytes [OF that] by blast
  show "varint_decode buf off = Some (v, off + length w)"
    if "v \<le> kMax" "varint_encode v = Some w" "drop off buf = w @ rest" for v w off buf rest
    using that varint_roundtrip_at [of v off buf rest] by (simp add: varint_encode_vbytes)
  show "off < off' \<and> off' \<le> length buf" if "varint_decode buf off = Some (v, off')"
    for buf off v off'
    using varint_decode_SomeE [OF that] by simp
qed

text \<open>Evaluation on concrete bytes.\<close>

lemma varint_decode_loop_numeral [simp]:
  "varint_decode_loop buf off i (numeral k) r =
     varint_decode_loop buf off (Suc i) (pred_numeral k) (push_bit 8 r OR unat (buf ! (off + i)))"
  by (simp add: numeral_eq_Suc)

lemmas varint_eval = varint_append_def varint_encode_def varint_write_def varint_encoded_size_def
  varint_consts varint_decode_def Let_def drop_bit_eq_div

section \<open>Properties\<close>

lemma varint_encode_SomeD: "varint_encode v = Some w \<Longrightarrow> v \<le> kMax \<and> w = vbytes v"
  using varint_encode_None [of v] varint_encode_vbytes [of v] by (cases "v \<le> kMax") auto

lemma vbytes_length_le:
  assumes "v < 2 ^ (8 * s - 2)" and "s \<in> {1, 2, 4, 8}"
  shows "v \<le> kMax \<and> length (vbytes v) \<le> s"
  using assms vbytes_length [of v]
  by (auto simp: varint_encoded_size_def kMax_eq varint_consts split: if_splits)

text \<open>C19. Every value the encoder accepts is read back exactly, at any position of any buffer, the
  cursor moving past the bytes written; the size predicted by \<open>encoded_size\<close> is the number of
  bytes, and the accepted values are those up to \<open>2 ^ 62 - 1\<close>.\<close>

theorem varint_roundtrip:
  assumes "varint_encode v = Some w"
  shows "varint_decode (pre @ w @ rest) (length pre) = Some (v, length pre + length w)
    \<and> varint_encoded_size v = Some (length w) \<and> v < 2 ^ 62"
proof -
  have v: "v \<le> kMax" and w: "w = vbytes v" using varint_encode_SomeD [OF assms] by simp_all
  then show ?thesis
    using varint_decode_append [OF v] vbytes_length [OF v] by (simp add: kMax_eq)
qed

theorem varint_roundtrip_witness:
  "varint_decode [0xff, 0x7b, 0xbd, 0x00] 1 = Some (15293, 3)"
proof -
  have "varint_encode 15293 = Some [0x7b, 0xbd]" by (simp add: varint_eval)
  from varint_roundtrip [OF this, of "[0xff]" "[0]"] show ?thesis by simp
qed

text \<open>C40. Decoding never reads past the buffer, always consumes 1, 2, 4 or 8 bytes, yields a value
  the encoder accepts, and the encoder's form of that value is never longer than the form that
  was read: the encoder is minimal.\<close>

theorem varint_decode_sound:
  assumes "varint_decode buf off = Some (v, off')"
  shows "off' \<le> length buf \<and> off' - off \<in> {1, 2, 4, 8} \<and> off < off'
    \<and> (\<exists>w. varint_encode v = Some w \<and> length w \<le> off' - off)"
proof -
  let ?k = "unat (drop_bit 6 (buf ! off))"
  from assms have o: "off' = off + 2 ^ ?k" "off' \<le> length buf"
    and v: "v = varint_decode_loop buf off 1 (2 ^ ?k - 1) (unat (buf ! off AND 0x3F))"
    by (auto simp: varint_decode_def Let_def push_bit_eq_mult split: if_splits)
  have "?k \<in> {0, 1, 2, 3}" using varint_prefix_less_4 [of "buf ! off"] by auto
  then have s: "off' - off \<in> {1, 2, 4, 8}" using o(1) by auto
  have "unat (buf ! off AND 0x3F) < 2 ^ 6" by (simp add: unat_and_63)
  then have "v < 2 ^ (6 + 8 * (2 ^ ?k - 1))"
    unfolding v by (rule varint_decode_loop_bound)
  also have "6 + 8 * (2 ^ ?k - 1) = 8 * (off' - off) - (2::nat)"
    using o(1) \<open>?k \<in> {0, 1, 2, 3}\<close> by auto
  finally have "v \<le> kMax \<and> length (vbytes v) \<le> off' - off" using s by (rule vbytes_length_le)
  then show ?thesis using s o(2) varint_encode_vbytes [of v] by auto
qed

theorem varint_decode_sound_witness:
  "(2::nat) \<le> length [0x40, 0x25 :: byte] \<and> 2 - 0 \<in> {1, 2, 4, 8::nat} \<and> (0::nat) < 2
    \<and> (\<exists>w. varint_encode 37 = Some w \<and> length w \<le> 2 - 0)"
proof -
  have "varint_decode [0x40, 0x25] 0 = Some (37, 2)" by (simp add: varint_eval)
  then show ?thesis by (rule varint_decode_sound)
qed

end
