(* ===== verification/Packet.thy ===== *)
theory Packet
  imports Crypto VarInt
begin

text \<open>
  Long-header packets and packet protection: \<open>example/quic-http3/src/quic/packet.cpp\<close>. The theory
  models the header parser, the nonce, packet-number decoding, header protection, and the building
  and opening of Initial packets. It shows that packet numbers are recovered from their truncated
  form, how the decoder relates to the reference algorithm of RFC 9000, that nonces do not repeat,
  and that an Initial packet is parsed and opened to what it was built from.

  \<open>None\<close> stands for a parser that returns \<open>false\<close>, a function that throws, or an access outside a
  buffer.
\<close>

section \<open>Constants\<close>

definition kQuicV1 :: nat where "kQuicV1 = 1"
definition kMaxConnectionIdLen :: nat where "kMaxConnectionIdLen = 20"
definition kSampleLen :: nat where "kSampleLen = 16"

definition kLongHeaderBit :: byte where "kLongHeaderBit = 0x80"
definition kFixedBit :: byte where "kFixedBit = 0x40"
definition kLongTypeMask :: byte where "kLongTypeMask = 0x30"
definition kLongTypeShift :: nat where "kLongTypeShift = 4"
definition kLongHpMask :: byte where "kLongHpMask = 0x0F"
definition kPnLenMask :: byte where "kPnLenMask = 0x03"

lemmas packet_consts = kQuicV1_def kMaxConnectionIdLen_def kSampleLen_def kLongHeaderBit_def
  kFixedBit_def kLongTypeMask_def kLongTypeShift_def kLongHpMask_def kPnLenMask_def

section \<open>Long headers\<close>

datatype long_type = LInitial | LZeroRtt | LHandshake | LRetry

fun long_type_code :: "long_type \<Rightarrow> nat" where
  "long_type_code LInitial = 0"
| "long_type_code LZeroRtt = 1"
| "long_type_code LHandshake = 2"
| "long_type_code LRetry = 3"

text \<open>\<open>static_cast<LongType>((first & kLongTypeMask) >> kLongTypeShift)\<close>\<close>

definition long_type_of :: "byte \<Rightarrow> long_type" where
  "long_type_of first =
     (let v = unat (drop_bit kLongTypeShift (first AND kLongTypeMask))
      in if v = 0 then LInitial else if v = 1 then LZeroRtt
         else if v = 2 then LHandshake else LRetry)"

record long_header =
  lh_type :: long_type
  lh_version :: nat
  lh_dcid :: bytes
  lh_scid :: bytes
  lh_token :: bytes
  lh_length :: nat
  lh_pn_offset :: nat
  lh_packet_len :: nat

definition long_header_init :: long_header where
  "long_header_init = \<lparr>lh_type = LInitial, lh_version = 0, lh_dcid = [], lh_scid = [], lh_token = [],
     lh_length = 0, lh_pn_offset = 0, lh_packet_len = 0\<rparr>"

definition pn_length_from_first_byte :: "byte \<Rightarrow> nat" where
  "pn_length_from_first_byte first = unat (first AND kPnLenMask) + 1"

text \<open>One connection id: a length byte, at most twenty, and the id.\<close>

definition read_cid :: "bytes \<Rightarrow> nat \<Rightarrow> (bytes \<times> nat) option" where
  "read_cid datagram off =
     (if off \<ge> length datagram then None
      else
        let n = unat (datagram ! off); off = off + 1
        in if n > kMaxConnectionIdLen \<or> off + n > length datagram then None
           else Some (take n (drop off datagram), off + n))"

definition read_version :: "bytes \<Rightarrow> nat \<Rightarrow> nat" where
  "read_version datagram off =
     push_bit 24 (unat (datagram ! off)) OR push_bit 16 (unat (datagram ! (off + 1)))
     OR push_bit 8 (unat (datagram ! (off + 2))) OR unat (datagram ! (off + 3))"

text \<open>What follows the connection ids, by packet type.\<close>

definition parse_long_rest ::
    "bytes \<Rightarrow> nat \<Rightarrow> nat \<Rightarrow> long_header \<Rightarrow> (long_header \<times> nat) option" where
  "parse_long_rest datagram start off hdr =
     (if lh_version hdr = 0 then
        Some (hdr\<lparr>lh_pn_offset := 0, lh_packet_len := length datagram - start\<rparr>, length datagram)
      else if lh_type hdr = LRetry then
        (if length datagram < off + 16 then None
         else Some (hdr\<lparr>lh_token := take (length datagram - 16 - off) (drop off datagram),
                        lh_pn_offset := 0, lh_packet_len := length datagram - start\<rparr>,
                    length datagram))
      else do {
        (hdr, off) \<leftarrow>
          (if lh_type hdr = LInitial then do {
             (token_len, off) \<leftarrow> varint_decode datagram off;
             if off + token_len > length datagram then None
             else Some (hdr\<lparr>lh_token := take token_len (drop off datagram)\<rparr>, off + token_len)
           }
           else Some (hdr, off));
        (len, off) \<leftarrow> varint_decode datagram off;
        let hdr = hdr\<lparr>lh_length := len, lh_pn_offset := off\<rparr>;
        if off + len > length datagram then None
        else Some (hdr\<lparr>lh_packet_len := (off - start) + len\<rparr>, off + len)
      })"

text \<open>
  \<open>hdr\<close> is the caller's structure: fields the code does not assign keep their value. The result holds
  the header and the new offset.
\<close>

definition parse_long_header :: "bytes \<Rightarrow> nat \<Rightarrow> long_header \<Rightarrow> (long_header \<times> nat) option" where
  "parse_long_header datagram offset hdr =
     (let start = offset
      in if start \<ge> length datagram then None
         else
           let first = datagram ! start
           in if first AND kLongHeaderBit = 0 then None
              else
                let off = start + 1
                in if off + 4 > length datagram then None
                   else do {
                     let version = read_version datagram off;
                     (dcid, off) \<leftarrow> read_cid datagram (off + 4);
                     (scid, off) \<leftarrow> read_cid datagram off;
                     let hdr = hdr\<lparr>lh_version := version, lh_dcid := dcid, lh_scid := scid,
                                   lh_type := long_type_of first\<rparr>;
                     parse_long_rest datagram start off hdr
                   })"

section \<open>Nonces and packet numbers\<close>

definition xor_at :: "nat \<Rightarrow> byte \<Rightarrow> bytes \<Rightarrow> bytes" where
  "xor_at i v buf = buf[i := buf ! i XOR v]"

text \<open>With fewer than eight bytes of IV the index \<open>nonce.size() - 1 - i\<close> leaves the vector.\<close>

definition make_aead_nonce :: "bytes \<Rightarrow> nat \<Rightarrow> bytes option" where
  "make_aead_nonce iv packet_number =
     (if length iv < 8 then None
      else Some (fold (\<lambda>i nonce. xor_at (length nonce - 1 - i)
                          (of_nat (drop_bit (8 * i) packet_number AND 0xFF)) nonce)
                   [0..<8] iv))"

definition decode_packet_number :: "nat \<Rightarrow> nat \<Rightarrow> nat \<Rightarrow> nat" where
  "decode_packet_number largest_pn truncated_pn pn_nbits =
     (let expected_pn = uadd largest_pn 1;
          pn_win = push_bit pn_nbits 1;
          pn_hwin = pn_win div 2;
          pn_mask = pn_win - 1;
          candidate_pn = (expected_pn AND (2 ^ 64 - 1 - pn_mask)) OR truncated_pn
      in if expected_pn > pn_hwin \<and> candidate_pn \<le> expected_pn - pn_hwin
            \<and> candidate_pn < push_bit 62 1 - pn_win
         then uadd candidate_pn pn_win
         else if candidate_pn > uadd expected_pn pn_hwin \<and> candidate_pn \<ge> pn_win
         then candidate_pn - pn_win
         else candidate_pn)"

text \<open>The loop that removes or applies the mask on \<open>n\<close> packet-number bytes at \<open>off\<close>.\<close>

definition mask_pn :: "nat \<Rightarrow> nat \<Rightarrow> bytes \<Rightarrow> bytes \<Rightarrow> bytes" where
  "mask_pn off n msk buf = fold (\<lambda>i b. xor_at (off + i) (msk ! (1 + i)) b) [0..<n] buf"

definition read_pn :: "nat \<Rightarrow> nat \<Rightarrow> bytes \<Rightarrow> nat" where
  "read_pn off n buf = fold (\<lambda>i t. push_bit 8 t OR unat (buf ! (off + i))) [0..<n] 0"

text \<open>The loop that writes the \<open>n\<close> low bytes of a packet number, the most significant first.\<close>

definition pn_bytes :: "nat \<Rightarrow> nat \<Rightarrow> bytes" where
  "pn_bytes n pn = map (\<lambda>i. of_nat (drop_bit (8 * (n - 1 - i)) pn AND 0xFF)) [0..<n]"

section \<open>Opening and building packets\<close>

text \<open>
  The datagram is changed in place, so it is returned with the result: the packet number and the
  plaintext, or \<open>None\<close> where the function returns \<open>false\<close>.
\<close>

definition decrypt_long_packet ::
    "crypto_lib \<Rightarrow> aead \<Rightarrow> packet_keys \<Rightarrow> nat \<Rightarrow> bytes \<Rightarrow> long_header \<Rightarrow>
     (bytes \<times> (nat \<times> bytes) option) option" where
  "decrypt_long_packet lib a keys largest_pn_seen datagram hdr =
     (if lh_pn_offset hdr = 0 \<or> lh_length hdr < kSampleLen + 1 then Some (datagram, None)
      else
        let sample_off = lh_pn_offset hdr + 4
        in if sample_off + kSampleLen > length datagram then Some (datagram, None)
           else do {
             msk \<leftarrow> header_protection_mask lib a (pk_hp keys)
                      (take kSampleLen (drop sample_off datagram));
             let datagram = xor_at 0 (msk ! 0 AND kLongHpMask) datagram;
             let pn_len = pn_length_from_first_byte (datagram ! 0);
             let datagram = mask_pn (lh_pn_offset hdr) pn_len msk datagram;
             let truncated = read_pn (lh_pn_offset hdr) pn_len datagram;
             let packet_number = decode_packet_number largest_pn_seen truncated (pn_len * 8);
             let header_len = lh_pn_offset hdr + pn_len;
             let ct_len = lh_length hdr - pn_len;
             if header_len + ct_len > length datagram then Some (datagram, None)
             else do {
               nonce \<leftarrow> make_aead_nonce (pk_iv keys) packet_number;
               Some (datagram, map_option (\<lambda>plaintext. (packet_number, plaintext))
                 (aead_open lib a (pk_key keys) nonce (take header_len datagram)
                   (take ct_len (drop header_len datagram))))
             }
           })"

definition pick_pn_length :: "nat \<Rightarrow> nat" where
  "pick_pn_length pn = 4"

definition version_bytes :: "nat \<Rightarrow> bytes" where
  "version_bytes v = [of_nat (drop_bit 24 v), of_nat (drop_bit 16 v), of_nat (drop_bit 8 v),
     of_nat (v AND 0xFF)]"

definition build_initial_packet ::
    "crypto_lib \<Rightarrow> aead \<Rightarrow> packet_keys \<Rightarrow> bytes \<Rightarrow> bytes \<Rightarrow> bytes \<Rightarrow> bytes \<Rightarrow> nat \<Rightarrow> bytes option" where
  "build_initial_packet lib a keys dcid scid token payload_frames packet_number = do {
     let pn_len = pick_pn_length packet_number;
     let tag_len = aead_tag_length a;
     let first = kLongHeaderBit OR kFixedBit
                 OR push_bit kLongTypeShift (of_nat (long_type_code LInitial))
                 OR of_nat (pn_len - 1);
     let pkt = [first] @ version_bytes kQuicV1 @ [of_nat (length dcid)] @ dcid
               @ [of_nat (length scid)] @ scid;
     pkt \<leftarrow> varint_append pkt (length token);
     let pkt = pkt @ token;
     let len = pn_len + length payload_frames + tag_len;
     pkt \<leftarrow> varint_append pkt len;
     let pn_offset = length pkt;
     let aad = pkt @ pn_bytes pn_len packet_number;
     nonce \<leftarrow> make_aead_nonce (pk_iv keys) packet_number;
     sealed \<leftarrow> aead_seal lib a (pk_key keys) nonce aad payload_frames;
     let pkt = aad @ sealed;
     let sample_off = pn_offset + 4;
     if sample_off + kSampleLen > length pkt then None
     else do {
       msk \<leftarrow> header_protection_mask lib a (pk_hp keys) (take kSampleLen (drop sample_off pkt));
       Some (mask_pn pn_offset pn_len msk (xor_at 0 (msk ! 0 AND kLongHpMask) pkt))
     }
   }"

section \<open>Buffers under a mask\<close>

lemma length_xor_at [simp]: "length (xor_at i v buf) = length buf"
  by (simp add: xor_at_def)

lemma nth_xor_at: "i < length buf \<Longrightarrow> xor_at i v buf ! j = (if j = i then buf ! i XOR v else buf ! j)"
  by (simp add: xor_at_def)

lemma length_mask_pn [simp]: "length (mask_pn off n msk buf) = length buf"
  by (induction n) (simp_all add: mask_pn_def)

lemma nth_mask_pn:
  assumes "off + n \<le> length buf"
  shows "mask_pn off n msk buf ! j =
    (if off \<le> j \<and> j < off + n then buf ! j XOR msk ! (1 + (j - off)) else buf ! j)"
  using assms
proof (induction n)
  case 0
  then show ?case by (auto simp: mask_pn_def)
next
  case (Suc n)
  have "mask_pn off (Suc n) msk buf = xor_at (off + n) (msk ! (1 + n)) (mask_pn off n msk buf)"
    by (simp add: mask_pn_def)
  with Suc show ?case by (auto simp: nth_xor_at less_Suc_eq)
qed

lemma take_xor_at: "n \<le> i \<Longrightarrow> take n (xor_at i v buf) = take n buf"
  by (simp add: xor_at_def)

lemma drop_xor_at: "i < n \<Longrightarrow> drop n (xor_at i v buf) = drop n buf"
  by (simp add: xor_at_def)

lemma drop_mask_pn: "off + n \<le> m \<Longrightarrow> drop m (mask_pn off n msk buf) = drop m buf"
  by (induction n) (simp_all add: mask_pn_def drop_xor_at)

lemma xor_at_twice: "i < length buf \<Longrightarrow> xor_at i v (xor_at i v buf) = buf"
  by (simp add: xor_at_def xor.assoc)

lemma mask_pn_twice:
  assumes "off + n \<le> length buf"
  shows "mask_pn off n msk (mask_pn off n msk buf) = buf"
  by (rule nth_equalityI) (use assms in \<open>simp_all add: nth_mask_pn xor.assoc\<close>)

lemma xor_at_mask_pn_commute:
  assumes "off + n \<le> length buf" and "i < off"
  shows "xor_at i v (mask_pn off n msk buf) = mask_pn off n msk (xor_at i v buf)"
  by (rule nth_equalityI) (use assms in \<open>simp_all add: nth_mask_pn nth_xor_at\<close>)

section \<open>Packet numbers\<close>

lemma high_bits_mask:
  assumes "n \<le> 64"
  shows "2 ^ 64 - 1 - (2 ^ n - 1) = push_bit n (2 ^ (64 - n) - 1 :: nat)"
proof -
  have "(2 :: nat) ^ (64 - n) * 2 ^ n = 2 ^ 64" using assms by (simp flip: power_add)
  then show ?thesis by (simp add: push_bit_eq_mult diff_mult_distrib)
qed

lemma and_high_bits:
  assumes "(e :: nat) < 2 ^ 64" and "n \<le> 64"
  shows "e AND push_bit n (2 ^ (64 - n) - 1) = push_bit n (e div 2 ^ n)"
proof -
  have "e div 2 ^ n < 2 ^ (64 - n)"
    by (rule less_mult_imp_div_less) (use assms in \<open>simp flip: power_add\<close>)
  then have "drop_bit n e AND (2 ^ (64 - n) - 1) = drop_bit n e"
    by (simp only: and_mask_mod drop_bit_eq_div mod_less)
  moreover have "e AND push_bit n m = push_bit n (drop_bit n e AND m)" for m :: nat
    by (rule bit_eqI) (auto simp: bit_simps)
  ultimately show ?thesis by (simp only: drop_bit_eq_div)
qed

lemma pn_candidate:
  assumes "e < 2 ^ 64" and "n \<le> 64" and "t < 2 ^ n"
  shows "(e AND (2 ^ 64 - 1 - (2 ^ n - 1))) OR t = e div 2 ^ n * 2 ^ n + (t :: nat)"
  using assms by (simp only: high_bits_mask and_high_bits push_bit_or_add)

text \<open>The reference algorithm of RFC 9000, appendix A.3, on unbounded integers.\<close>

definition rfc_decode_pn :: "int \<Rightarrow> int \<Rightarrow> nat \<Rightarrow> int" where
  "rfc_decode_pn largest_pn truncated_pn pn_nbits =
     (let expected_pn = largest_pn + 1;
          pn_win = 2 ^ pn_nbits;
          pn_hwin = pn_win div 2;
          candidate_pn = expected_pn div pn_win * pn_win + truncated_pn
      in if candidate_pn \<le> expected_pn - pn_hwin \<and> candidate_pn < 2 ^ 62 - pn_win
         then candidate_pn + pn_win
         else if candidate_pn > expected_pn + pn_hwin \<and> candidate_pn \<ge> pn_win
         then candidate_pn - pn_win
         else candidate_pn)"

text \<open>The choice between the candidate and its two neighbours, on natural numbers.\<close>

definition pn_adjust :: "nat \<Rightarrow> nat \<Rightarrow> nat \<Rightarrow> nat \<Rightarrow> nat" where
  "pn_adjust e w h c =
     (if e > h \<and> c \<le> e - h \<and> c < 2 ^ 62 - w then c + w
      else if c > e + h \<and> c \<ge> w then c - w else c)"

lemma pn_adjust_int:
  assumes "w = 2 * h" and "w \<le> 2 ^ 62"
  shows "int (pn_adjust e w h c) =
    (if e = h \<and> c = 0 then 0
     else if int c \<le> int e - int h \<and> int c < 2 ^ 62 - int w then int c + int w
     else if int c > int e + int h \<and> int c \<ge> int w then int c - int w else int c)"
  using assms by (auto simp: pn_adjust_def of_nat_diff)

lemma pn_adjust_hit:
  assumes "w = 2 * h" and "0 < h" and "e < pn + h" and "pn < e + h" and "pn < 2 ^ 62"
    and "pn = c + w \<or> pn = c \<or> c = pn + w"
  shows "pn_adjust e w h c = pn"
  using assms by (auto simp: pn_adjust_def)

lemma decode_packet_number_adjust:
  assumes "largest < 2 ^ 62" and "1 \<le> n" and "n \<le> 32" and "t < 2 ^ n"
  shows "decode_packet_number largest t n =
    pn_adjust (largest + 1) (2 ^ n) (2 ^ (n - 1)) ((largest + 1) div 2 ^ n * 2 ^ n + t)"
proof -
  let ?e = "largest + 1" and ?w = "2 ^ n :: nat" and ?h = "2 ^ (n - 1) :: nat"
  have h: "?w div 2 = ?h" using assms(2) by (cases n) simp_all
  have w: "?w \<le> 2 ^ 32" by (rule power_increasing) (use assms(3) in simp_all)
  have hw: "?h \<le> ?w" by simp
  have e: "?e < 2 ^ 64" using assms(1) by simp
  let ?c = "?e div ?w * ?w + t"
  have c: "?c < ?e + ?w"
    using assms(4) div_times_less_eq_dividend [of ?e ?w] by linarith
  have big: "largest < 4611686018427387904" "?w \<le> 4294967296" using assms(1) w by simp_all
  have "?c + ?w < 18446744073709551616" "?e + ?h < 18446744073709551616"
    using c hw big by linarith+
  then have "?c + ?w < 2 ^ 64" "?e + ?h < 2 ^ 64" by simp_all
  then show ?thesis
    using e assms(3)
    by (simp only: decode_packet_number_def pn_adjust_def Let_def uadd_exact push_bit_eq_mult mult_1
        h pn_candidate [OF e _ assms(4)])
qed

lemma window_halves:
  assumes "1 \<le> n" and "n \<le> 32"
  shows "(2 :: nat) ^ n = 2 * 2 ^ (n - 1)" and "(2 :: nat) ^ n \<le> 2 ^ 62"
  using assms power_increasing [of n 62 "2 :: nat"] by (cases n; simp)+

text \<open>
  C23. The packet-number decoder computes the algorithm of RFC 9000, appendix A.3, for every packet
  number the protocol allows and every encoded length, with one exception: when the expected number
  is exactly half a window and the truncated number is zero it answers zero, and the reference
  answers a whole window.
\<close>

theorem decode_packet_number_rfc:
  assumes "largest < 2 ^ 62" and "1 \<le> n" and "n \<le> 32" and "t < 2 ^ n"
  shows "int (decode_packet_number largest t n) =
    (if largest + 1 = 2 ^ (n - 1) \<and> t = 0 then 0 else rfc_decode_pn (int largest) (int t) n)"
proof -
  define c where "c = (largest + 1) div 2 ^ n * 2 ^ n + t"
  have half: "(2 :: int) ^ n div 2 = int (2 ^ (n - 1))" using assms(2) by (cases n) simp_all
  have ci: "(int largest + 1) div 2 ^ n * 2 ^ n + int t = int c"
    by (simp add: c_def zdiv_int add.commute)
  have conv: "int (largest + 1) = int largest + 1" "int (2 ^ n) = 2 ^ n" by simp_all
  have zero: "c = 0 \<longleftrightarrow> t = 0" if "largest + 1 = 2 ^ (n - 1)"
    unfolding c_def that using window_halves(1) [OF assms(2,3)] by simp
  have "rfc_decode_pn (int largest) (int t) n =
    (if int c \<le> int (largest + 1) - int (2 ^ (n - 1)) \<and> int c < 2 ^ 62 - int (2 ^ n)
     then int c + int (2 ^ n)
     else if int c > int (largest + 1) + int (2 ^ (n - 1)) \<and> int c \<ge> int (2 ^ n)
     then int c - int (2 ^ n) else int c)"
    by (simp only: rfc_decode_pn_def Let_def half ci conv)
  then show ?thesis
    unfolding decode_packet_number_adjust [OF assms] c_def [symmetric]
      pn_adjust_int [OF window_halves [OF assms(2,3)]]
    using zero by presburger
qed

theorem decode_packet_number_rfc_witness:
  "int (decode_packet_number 0xa82f30ea 0x9b32 16) = rfc_decode_pn 0xa82f30ea 0x9b32 16
   \<and> decode_packet_number 0xa82f30ea 0x9b32 16 = 0xa82f9b32"
proof -
  have "int (decode_packet_number 0xa82f30ea 0x9b32 16) = rfc_decode_pn 0xa82f30ea 0x9b32 16"
    using decode_packet_number_rfc [of "0xa82f30ea" 16 "0x9b32"] by simp
  moreover have "rfc_decode_pn 0xa82f30ea 0x9b32 16 = 0xa82f9b32"
    by (simp add: rfc_decode_pn_def)
  ultimately show ?thesis by simp
qed

lemma pn_window_recovered:
  assumes "largest < 2 ^ 62" and "pn < 2 ^ 62" and "1 \<le> n" and "n \<le> 32"
    and "largest + 1 < pn + 2 ^ (n - 1)" and "pn < largest + 1 + 2 ^ (n - 1)"
  shows "decode_packet_number largest (pn mod 2 ^ n) n = pn"
proof -
  let ?e = "largest + 1" and ?w = "2 ^ n :: nat" and ?h = "2 ^ (n - 1) :: nat"
  let ?q = "?e div ?w" and ?q' = "pn div ?w" and ?t = "pn mod ?w"
  have h: "?w = 2 * ?h" using assms(3) by (cases n) simp_all
  have t: "?t < ?w" by simp
  have pos: "0 < ?h" by simp
  have e: "?e = ?q * ?w + ?e mod ?w" and pn: "pn = ?q' * ?w + ?t"
    by (simp_all only: div_mult_mod_eq)
  have r: "?e mod ?w < ?w" by simp
  have up: "?q' \<le> ?q + 1"
  proof (rule ccontr)
    assume "\<not> ?q' \<le> ?q + 1"
    then have "(?q + 2) * ?w \<le> ?q' * ?w" by (intro mult_right_mono) simp_all
    then have "?q * ?w + 2 * ?w \<le> ?q' * ?w" by (simp only: add_mult_distrib)
    with e pn r h assms(6) pos show False by linarith
  qed
  have down: "?q \<le> ?q' + 1"
  proof (rule ccontr)
    assume "\<not> ?q \<le> ?q' + 1"
    then have "(?q' + 2) * ?w \<le> ?q * ?w" by (intro mult_right_mono) simp_all
    then have "?q' * ?w + 2 * ?w \<le> ?q * ?w" by (simp only: add_mult_distrib)
    with e pn t h assms(5) pos show False by linarith
  qed
  let ?c = "?q * ?w + ?t"
  consider "?q' = ?q + 1" | "?q' = ?q" | "?q = ?q' + 1" using up down by linarith
  then have "pn = ?c + ?w \<or> pn = ?c \<or> ?c = pn + ?w"
  proof cases
    case 1
    have "?q' * ?w = ?q * ?w + ?w" by (simp only: 1 add_mult_distrib mult_1)
    then have "pn = ?c + ?w" using pn by linarith
    then show ?thesis ..
  next
    case 2
    then show ?thesis using pn by simp
  next
    case 3
    have "?q * ?w = ?q' * ?w + ?w" by (simp only: 3 add_mult_distrib mult_1)
    then have "?c = pn + ?w" using pn by linarith
    then show ?thesis by blast
  qed
  then show ?thesis
    unfolding decode_packet_number_adjust [OF assms(1,3,4) t]
    by (rule pn_adjust_hit [OF h pos assms(5,6,2)])
qed

text \<open>
  C22. A packet number that lies strictly within half a window of the expected one is recovered from
  its truncation to \<open>n\<close> bits, for each encoded length and also next to the largest packet number of
  the protocol.
\<close>

theorem packet_number_recovered:
  assumes "largest < 2 ^ 62" and "pn < 2 ^ 62" and "n \<in> {8, 16, 24, 32}"
    and "largest + 1 < pn + 2 ^ (n - 1)" and "pn < largest + 1 + 2 ^ (n - 1)"
  shows "decode_packet_number largest (pn mod 2 ^ n) n = pn"
  by (rule pn_window_recovered) (use assms in auto)

theorem packet_number_recovered_witness:
  "decode_packet_number 1000 (1130 mod 2 ^ 16) 16 = 1130"
  using packet_number_recovered [of 1000 1130 16] by simp

section \<open>Nonces\<close>

lemma nonce_loop:
  fixes f :: "nat \<Rightarrow> byte" and k :: nat and iv :: bytes
  assumes "k \<le> length iv"
  defines "nonce \<equiv> fold (\<lambda>i b. xor_at (length b - 1 - i) (f i) b) [0..<k] iv"
  shows "length nonce = length iv \<and>
    (\<forall>i < length iv. nonce ! (length iv - 1 - i) =
       (if i < k then iv ! (length iv - 1 - i) XOR f i else iv ! (length iv - 1 - i)))"
  using assms(1) unfolding nonce_def
proof (induction k)
  case (Suc k)
  let ?L = "length iv"
  define n where "n = fold (\<lambda>i b. xor_at (length b - 1 - i) (f i) b) [0..<k] iv"
  have k: "k < ?L" using Suc.prems by simp
  have len: "length n = ?L" and IH: "\<And>i. i < ?L \<Longrightarrow> n ! (?L - 1 - i) =
      (if i < k then iv ! (?L - 1 - i) XOR f i else iv ! (?L - 1 - i))"
    using Suc.IH k unfolding n_def [symmetric] by auto
  have step: "fold (\<lambda>i b. xor_at (length b - 1 - i) (f i) b) [0..<Suc k] iv =
      xor_at (?L - 1 - k) (f k) n"
    by (simp only: upt_Suc le0 if_True fold_append comp_apply fold_simps n_def [symmetric] len)
  have "xor_at (?L - 1 - k) (f k) n ! (?L - 1 - i) =
      (if i < Suc k then iv ! (?L - 1 - i) XOR f i else iv ! (?L - 1 - i))" if i: "i < ?L" for i
  proof (cases "i = k")
    case True
    then show ?thesis using IH [OF i] k by (simp add: nth_xor_at len)
  next
    case False
    then have "?L - 1 - i \<noteq> ?L - 1 - k" using i k by linarith
    then show ?thesis using IH [OF i] False k by (simp add: nth_xor_at len less_Suc_eq)
  qed
  then show ?case unfolding step by (simp add: len)
qed simp

definition nonce_byte :: "nat \<Rightarrow> nat \<Rightarrow> byte" where
  "nonce_byte pn i = of_nat (drop_bit (8 * i) pn AND 0xFF)"

lemma make_aead_nonce_Some:
  assumes "8 \<le> length iv"
  obtains nonce where "make_aead_nonce iv pn = Some nonce" and "length nonce = length iv"
    and "\<And>i. i < 8 \<Longrightarrow> nonce ! (length iv - 1 - i) = iv ! (length iv - 1 - i) XOR nonce_byte pn i"
proof
  let ?n = "fold (\<lambda>i b. xor_at (length b - 1 - i) (nonce_byte pn i) b) [0..<8] iv"
  show "make_aead_nonce iv pn = Some ?n"
    using assms by (simp only: make_aead_nonce_def nonce_byte_def if_not_P not_less)
  show "length ?n = length iv" using nonce_loop [OF assms, of "nonce_byte pn"] by blast
  fix i :: nat
  assume i: "i < 8"
  with assms have "i < length iv" by linarith
  from conjunct2 [OF nonce_loop [OF assms, of "nonce_byte pn"], rule_format, OF this] i
  show "?n ! (length iv - 1 - i) = iv ! (length iv - 1 - i) XOR nonce_byte pn i"
    by (simp only: if_True)
qed

lemma bytes_determine:
  fixes m n :: nat
  assumes "m < 2 ^ 64" and "n < 2 ^ 64"
    and "\<And>i. i < 8 \<Longrightarrow> drop_bit (8 * i) m AND 0xFF = drop_bit (8 * i) n AND 0xFF"
  shows "m = n"
proof (rule bit_eqI)
  fix j :: nat
  show "bit m j = bit n j"
  proof (cases "j < 64")
    case True
    have "(255 :: nat) = mask 8" by (simp add: mask_eq_exp_minus_1)
    then have ff: "bit (255 :: nat) (j mod 8)" by (simp only: bit_mask_iff) simp
    have "j div 8 < 8" using True by simp
    then have "bit (drop_bit (8 * (j div 8)) m AND 0xFF) (j mod 8) =
      bit (drop_bit (8 * (j div 8)) n AND 0xFF) (j mod 8)" by (simp only: assms(3))
    then show ?thesis using ff by (simp add: bit_and_iff bit_drop_bit_eq)
  next
    case False
    then show ?thesis using assms(1,2) nat_bit_bound by blast
  qed
qed

text \<open>
  C24. No nonce is used twice under a key: for an IV of at least eight bytes every packet number has a
  nonce, of the length of the IV, and distinct packet numbers have distinct nonces.
\<close>

theorem nonces_distinct:
  assumes "8 \<le> length iv" and "pn1 < 2 ^ 64" and "pn2 < 2 ^ 64"
  shows "\<exists>n1 n2. make_aead_nonce iv pn1 = Some n1 \<and> make_aead_nonce iv pn2 = Some n2
    \<and> length n1 = length iv \<and> (n1 = n2 \<longleftrightarrow> pn1 = pn2)"
proof -
  obtain n1 where n1: "make_aead_nonce iv pn1 = Some n1" "length n1 = length iv"
    "\<And>i. i < 8 \<Longrightarrow> n1 ! (length iv - 1 - i) = iv ! (length iv - 1 - i) XOR nonce_byte pn1 i"
    using make_aead_nonce_Some [OF assms(1), of pn1] by blast
  obtain n2 where n2: "make_aead_nonce iv pn2 = Some n2" "length n2 = length iv"
    "\<And>i. i < 8 \<Longrightarrow> n2 ! (length iv - 1 - i) = iv ! (length iv - 1 - i) XOR nonce_byte pn2 i"
    using make_aead_nonce_Some [OF assms(1), of pn2] by blast
  have "pn1 = pn2" if eq: "n1 = n2"
  proof (rule bytes_determine [OF assms(2,3)])
    fix i :: nat
    assume i: "i < 8"
    let ?b = "iv ! (length iv - 1 - i)"
    have "?b XOR nonce_byte pn1 i = ?b XOR nonce_byte pn2 i" using n1(3) [OF i] n2(3) [OF i] eq by simp
    then have "?b XOR (?b XOR nonce_byte pn1 i) = ?b XOR (?b XOR nonce_byte pn2 i)" by (rule arg_cong)
    then have "nonce_byte pn1 i = nonce_byte pn2 i" by (simp flip: xor.assoc)
    moreover have "drop_bit (8 * i) pn AND 0xFF < 256" for pn :: nat by (simp add: and_255_mod)
    ultimately show "drop_bit (8 * i) pn1 AND 0xFF = drop_bit (8 * i) pn2 AND 0xFF"
      unfolding nonce_byte_def using of_nat_byte_eq by blast
  qed
  with n1(1,2) n2(1) show ?thesis by auto
qed

theorem nonces_distinct_witness:
  "\<exists>n1 n2. make_aead_nonce (replicate 12 7) 1 = Some n1 \<and> make_aead_nonce (replicate 12 7) 2 = Some n2
    \<and> length n1 = 12 \<and> n1 \<noteq> n2"
  using nonces_distinct [of "replicate 12 7" 1 2] by simp

section \<open>Initial packets\<close>

lemma header_protection_mask_total:
  assumes "evp_documented lib co" and "length k = aead_hp_length a" and "length smp = 16"
  obtains m where "header_protection_mask lib a k smp = Some m" and "length m = 5"
proof -
  obtain m where "header_protection_mask lib a k smp = Some m"
    using assms documented_core [OF assms(1)]
    by (cases a) (simp_all add: header_protection_mask_def evp_do_documented evp_run aead_hp_length_def)
  then show thesis using header_protection_mask_length that by blast
qed

text \<open>Keys of the algorithm's lengths.\<close>

definition keys_ok :: "aead \<Rightarrow> packet_keys \<Rightarrow> bool" where
  "keys_ok a keys \<longleftrightarrow> length (pk_key keys) = aead_key_length a \<and> length (pk_iv keys) = 12
     \<and> length (pk_hp keys) = aead_hp_length a"

lemma mask_pn_append:
  assumes "length h = off" and "length x = n"
  shows "mask_pn off n m (h @ x @ y) = h @ mask_pn 0 n m x @ y"
  by (rule nth_equalityI) (use assms in \<open>auto simp: nth_mask_pn nth_append\<close>)

lemma read_pn_shift:
  assumes "drop off buf = x @ y" and "n \<le> length x"
  shows "read_pn off n buf = read_pn 0 n x"
proof -
  have "fold (\<lambda>i t. push_bit 8 t OR unat (buf ! (off + i))) is (0 :: nat) =
      fold (\<lambda>i t. push_bit 8 t OR unat (x ! (0 + i))) is 0" if "list_all (\<lambda>i. i < n) is" for "is"
    by (rule fold_cong) (use that assms cursor_nth [OF assms(1)] in
        \<open>auto simp: list_all_iff nth_append\<close>)
  then show ?thesis by (simp add: read_pn_def list_all_iff)
qed

lemma upt_4: "[0..<4] = [0, 1, 2, 3 :: nat]"
  by (simp add: upt_rec)

lemma mod_join_byte: "v mod 2 ^ (k + 8) = v div 2 ^ k mod 256 * 2 ^ k + v mod (2 :: nat) ^ k"
  using mod_mult2_eq [of v "2 ^ k" 256] by (simp add: power_add mult.commute)

lemma read_pn_bytes_4: "read_pn 0 4 (pn_bytes 4 pn) = pn mod 2 ^ 32"
proof -
  let ?b = "\<lambda>k. pn div 2 ^ k mod 256"
  have b: "pn_bytes 4 pn = [of_nat (?b 24), of_nat (?b 16), of_nat (?b 8), of_nat (?b 0)]"
    by (simp add: pn_bytes_def upt_4 and_255_mod drop_bit_eq_div)
  have "read_pn 0 4 (pn_bytes 4 pn) = ((?b 24 * 256 + ?b 16) * 256 + ?b 8) * 256 + ?b 0"
    unfolding b read_pn_def upt_4 by (simp add: push_byte_or unat_of_nat_byte)
  moreover have "pn mod 2 ^ 32 = ?b 24 * 2 ^ 24 + pn mod 2 ^ 24" using mod_join_byte [of pn 24] by simp
  moreover have "pn mod 2 ^ 24 = ?b 16 * 2 ^ 16 + pn mod 2 ^ 16" using mod_join_byte [of pn 16] by simp
  moreover have "pn mod 2 ^ 16 = ?b 8 * 2 ^ 8 + pn mod 2 ^ 8" using mod_join_byte [of pn 8] by simp
  ultimately show ?thesis by simp
qed

lemma length_pn_bytes [simp]: "length (pn_bytes n pn) = n"
  by (simp add: pn_bytes_def)

lemma read_cid_at:
  assumes "drop off dg = of_nat (length c) # c @ r" and "length c \<le> 20"
  shows "read_cid dg off = Some (c, off + 1 + length c)"
proof -
  have l: "length dg = off + 1 + length c + length r"
    using cursor_length [OF assms(1)] by simp
  have n: "unat (dg ! off) = length c"
    using nth_drop_0 [OF assms(1)] assms(2) by (simp add: unat_of_nat_byte)
  have d: "drop (off + 1) dg = c @ r"
    using drop_add_append [of off dg "[of_nat (length c)]" "c @ r"] assms(1) by simp
  have t: "take (length c) (drop (off + 1) dg) = c" unfolding d by simp
  show ?thesis using assms(2) unfolding read_cid_def Let_def n t by (simp add: l kMaxConnectionIdLen_def)
qed

text \<open>The header that \<open>build_initial_packet\<close> writes before the packet number.\<close>

definition initial_prefix :: "bytes \<Rightarrow> bytes \<Rightarrow> bytes \<Rightarrow> nat \<Rightarrow> bytes" where
  "initial_prefix dcid scid token len =
     [0, 0, 0, 1] @ of_nat (length dcid) # dcid @ of_nat (length scid) # scid
     @ vbytes (length token) @ token @ vbytes len"

lemma parse_initial_at:
  assumes "drop off dg = b # initial_prefix dcid scid token (length body) @ body @ rest"
    and "b AND kLongHeaderBit \<noteq> 0" and "long_type_of b = LInitial"
    and "length dcid \<le> 20" and "length scid \<le> 20" and "length token \<le> kMax" and "length body \<le> kMax"
  defines "p \<equiv> Suc (length (initial_prefix dcid scid token (length body)))"
  shows "parse_long_header dg off h0 =
    Some (h0\<lparr>lh_type := LInitial, lh_version := kQuicV1, lh_dcid := dcid, lh_scid := scid,
             lh_token := token, lh_length := length body, lh_pn_offset := off + p,
             lh_packet_len := p + length body\<rparr>, off + p + length body)"
proof -
  define r4 where "r4 = body @ rest"
  define r3 where "r3 = vbytes (length body) @ r4"
  define r2 where "r2 = vbytes (length token) @ token @ r3"
  define r1 where "r1 = of_nat (length scid) # scid @ r2"
  let ?o1 = "off + 5" and ?o2 = "off + 6 + length dcid" and ?o3 = "off + 7 + length dcid + length scid"
  let ?o4 = "?o3 + length (vbytes (length token))"
  let ?o5 = "?o4 + length token" let ?o6 = "?o5 + length (vbytes (length body))"
  have d0: "drop off dg = [b, 0, 0, 0, 1] @ of_nat (length dcid) # dcid @ r1"
    using assms(1) by (simp add: initial_prefix_def r1_def r2_def r3_def r4_def)
  have d1: "drop ?o1 dg = of_nat (length dcid) # dcid @ r1"
    using arg_cong [OF d0, of "drop 5"] by (simp add: add.commute)
  have d2: "drop ?o2 dg = of_nat (length scid) # scid @ r2"
    using drop_add_append [of ?o1 dg "of_nat (length dcid) # dcid" r1] d1
    by (simp add: r1_def algebra_simps)
  have d3: "drop ?o3 dg = vbytes (length token) @ token @ r3"
    using drop_add_append [of ?o2 dg "of_nat (length scid) # scid" r2] d2
    by (simp add: r2_def algebra_simps)
  have d4: "drop ?o4 dg = token @ r3" using drop_add_append [OF d3] .
  have d5: "drop ?o5 dg = vbytes (length body) @ r4"
    using drop_add_append [OF d4] by (simp add: r3_def)
  have d6: "drop ?o6 dg = body @ rest" using drop_add_append [OF d5] by (simp add: r4_def)
  have len: "length dg = ?o6 + length body + length rest"
    using cursor_length [OF assms(1)]
    by (simp add: initial_prefix_def algebra_simps)
  have p: "off + p = ?o6" by (simp add: p_def initial_prefix_def algebra_simps)
  have b: "dg ! off = b" using nth_drop_0 [of off dg] assms(1) by simp
  have "dg ! (off + 1) = 0" "dg ! (off + 1 + 1) = 0" "dg ! (off + 1 + 2) = 0" "dg ! (off + 1 + 3) = 1"
    using cursor_nth [OF d0, of 1] cursor_nth [OF d0, of 2] cursor_nth [OF d0, of 3]
      cursor_nth [OF d0, of 4] by (simp_all add: eval_nat_numeral)
  then have v: "read_version dg (off + 1) = 1" unfolding read_version_def by simp
  have cids: "read_cid dg (off + 1 + 4) = Some (dcid, ?o2)" "read_cid dg ?o2 = Some (scid, ?o3)"
    using read_cid_at [OF d1 assms(4)] read_cid_at [OF d2 assms(5)] by (simp_all add: algebra_simps)
  have vt: "varint_decode dg ?o3 = Some (length token, ?o4)"
    by (rule varint_roundtrip_at [OF assms(6) d3])
  have vl: "varint_decode dg ?o5 = Some (length body, ?o6)"
    by (rule varint_roundtrip_at [OF assms(7) d5])
  have tk: "take (length token) (drop ?o4 dg) = token" unfolding d4 by simp
  have bounds: "\<not> off \<ge> length dg" "\<not> off + 1 + 4 > length dg" "\<not> ?o4 + length token > length dg"
    "\<not> ?o6 + length body > length dg" "?o6 - off = p"
    unfolding len using p by linarith+
  show ?thesis
    using assms(2,3) bounds
    unfolding parse_long_header_def parse_long_rest_def Let_def b v cids vt vl tk p kQuicV1_def
    by (simp add: cids vt vl tk)
qed

lemma first_byte_masked:
  fixes m :: byte
  defines "b \<equiv> 0xC3 XOR (m AND kLongHpMask)"
  shows "b AND kLongHeaderBit \<noteq> 0" and "long_type_of b = LInitial"
proof -
  have hi: "b AND kLongHeaderBit = 0x80" "b AND kLongTypeMask = 0"
    by (simp_all add: b_def packet_consts bit.conj_xor_distrib2 and.assoc)
  show "b AND kLongHeaderBit \<noteq> 0" unfolding hi by simp
  show "long_type_of b = LInitial" unfolding long_type_of_def hi by simp
qed

lemma split_after_pn:
  assumes "length x = 4"
  shows "drop (Suc (length pre) + 4) (c # pre @ x @ y) = y"
    and "take (Suc (length pre) + 4) (c # pre @ x @ y) = c # pre @ x"
proof -
  have "c # pre @ x @ y = (c # pre @ x) @ y" and "Suc (length pre) + 4 = length (c # pre @ x)"
    using assms by simp_all
  then show "drop (Suc (length pre) + 4) (c # pre @ x @ y) = y"
    and "take (Suc (length pre) + 4) (c # pre @ x @ y) = c # pre @ x"
    by (metis append_eq_conv_conj)+
qed

lemma build_initial_eq:
  fixes dcid scid token payload :: bytes and pn :: nat
  assumes "evp_documented lib co" and "keys_ok a keys" and "length dcid \<le> 20" and "length scid \<le> 20"
    and "length token < 2 ^ 30" and "length payload < 2 ^ 30"
  defines "pre \<equiv> initial_prefix dcid scid token (length payload + 20)"
    and "pn4 \<equiv> pn_bytes 4 pn"
  obtains nonce m sealed where "make_aead_nonce (pk_iv keys) pn = Some nonce"
    and "message_ok nonce (0xC3 # pre @ pn4) payload"
    and "aead_seal lib a (pk_key keys) nonce (0xC3 # pre @ pn4) payload = Some sealed"
    and "length sealed = length payload + 16"
    and "header_protection_mask lib a (pk_hp keys) (take 16 sealed) = Some m"
    and "build_initial_packet lib a keys dcid scid token payload pn =
      Some ((0xC3 XOR (m ! 0 AND kLongHpMask)) # pre @ mask_pn 0 4 m pn4 @ sealed)"
proof -
  have key: "length (pk_key keys) = aead_key_length a" using assms(2) by (simp add: keys_ok_def)
  obtain nonce where n: "make_aead_nonce (pk_iv keys) pn = Some nonce" and nl: "length nonce = 12"
    using make_aead_nonce_Some [of "pk_iv keys" pn] assms(2) by (auto simp: keys_ok_def)
  have "length token \<le> kMax" "length payload + 20 \<le> kMax" using assms(5,6) by (simp_all add: kMax_eq)
  note small = this
  have "length (vbytes (length token)) \<le> 8" "length (vbytes (length payload + 20)) \<le> 8"
    using vbytes_length_le [of "length token" 8] vbytes_length_le [of "length payload + 20" 8] assms(5,6) by simp_all
  then have ok: "message_ok nonce (0xC3 # pre @ pn4) payload"
    using assms(3-6) nl by (simp add: message_ok_def pre_def pn4_def initial_prefix_def)
  define sealed where "sealed = the (aead_seal lib a (pk_key keys) nonce (0xC3 # pre @ pn4) payload)"
  have s: "aead_seal lib a (pk_key keys) nonce (0xC3 # pre @ pn4) payload = Some sealed"
    and sl: "length sealed = length payload + 16"
    using aead_seal_documented [OF assms(1) key ok]
      core_okD [OF conjunct1 [OF documented_core [OF assms(1)]], of "pk_key keys" a, unfolded key_length_aead, OF key]
    by (simp_all add: sealed_def)
  have "length (take 16 sealed) = 16" using sl by simp
  then obtain m where m: "header_protection_mask lib a (pk_hp keys) (take 16 sealed) = Some m"
    using header_protection_mask_total [OF assms(1), of "pk_hp keys" a "take 16 sealed"] assms(2)
    by (auto simp: keys_ok_def)
  have first: "kLongHeaderBit OR kFixedBit OR 3 = 0xC3"
    by (simp add: packet_consts)
  have ver: "version_bytes kQuicV1 = [0, 0, 0, 1]"
    by (simp add: version_bytes_def kQuicV1_def)
  have mp: "mask_pn (Suc (length pre)) 4 m (c # pre @ pn4 @ sealed) = c # pre @ mask_pn 0 4 m pn4 @ sealed"
    for c
    using mask_pn_append [of "c # pre" "Suc (length pre)" pn4 4 m sealed] by (simp add: pn4_def)
  have l4: "length pn4 = 4" by (simp add: pn4_def)
  have pk: "[0xC3] @ [0, 0, 0, 1] @ [of_nat (length dcid)] @ dcid @ [of_nat (length scid)] @ scid
      @ vbytes (length token) @ token @ vbytes (4 + length payload + 16) = 0xC3 # pre"
    by (simp add: pre_def initial_prefix_def add.commute)
  have smp: "take kSampleLen (drop (Suc (length pre) + 4) (0xC3 # pre @ pn4 @ sealed)) = take 16 sealed"
    by (simp only: split_after_pn(1) [OF l4] kSampleLen_def)
  have "build_initial_packet lib a keys dcid scid token payload pn =
      Some ((0xC3 XOR (m ! 0 AND kLongHpMask)) # pre @ mask_pn 0 4 m pn4 @ sealed)"
    using small n s m mp smp pk sl l4
    by (simp add: build_initial_packet_def pick_pn_length_def aead_tag_length_def Let_def first ver
        varint_append_vbytes pn4_def [symmetric] xor_at_def kSampleLen_def)
  with n ok s sl m show thesis using that by blast
qed

lemma first_byte_unmasked: "((0xC3 :: byte) XOR v) XOR v = 0xC3"
  by (simp add: xor.assoc)

lemma decrypt_initial:
  assumes "evp_documented lib co" and "make_aead_nonce (pk_iv keys) pn = Some nonce"
    and "aead_seal lib a (pk_key keys) nonce (0xC3 # pre @ pn_bytes 4 pn) payload = Some sealed"
    and "length sealed = length payload + 16"
    and "header_protection_mask lib a (pk_hp keys) (take 16 sealed) = Some m"
    and "lh_pn_offset h = Suc (length pre)" and "lh_length h = length payload + 20"
    and "decode_packet_number largest (pn mod 2 ^ 32) 32 = pn"
    and "length (pk_key keys) = aead_key_length a" and "message_ok nonce (0xC3 # pre @ pn_bytes 4 pn) payload"
  shows "\<exists>dg'. decrypt_long_packet lib a keys largest
      ((0xC3 XOR (m ! 0 AND kLongHpMask)) # pre @ mask_pn 0 4 m (pn_bytes 4 pn) @ sealed @ rest) h =
    Some (dg', Some (pn, payload))"
proof -
  let ?pn4 = "pn_bytes 4 pn" and ?off = "Suc (length pre)"
  let ?v = "m ! 0 AND kLongHpMask"
  let ?dg = "(0xC3 XOR ?v) # pre @ mask_pn 0 4 m ?pn4 @ sealed @ rest"
  let ?plain = "0xC3 # pre @ ?pn4 @ sealed @ rest"
  have smp: "take kSampleLen (drop (?off + 4) ?dg) = take 16 sealed"
    using assms(4) by (simp only: split_after_pn(1) length_mask_pn length_pn_bytes kSampleLen_def) simp
  have x: "xor_at 0 ?v ?dg = 0xC3 # pre @ mask_pn 0 4 m ?pn4 @ sealed @ rest"
    by (simp add: xor_at_def first_byte_unmasked)
  have "mask_pn ?off 4 m ((0xC3 # pre) @ mask_pn 0 4 m ?pn4 @ sealed @ rest) =
      (0xC3 # pre) @ mask_pn 0 4 m (mask_pn 0 4 m ?pn4) @ sealed @ rest"
    by (rule mask_pn_append) simp_all
  then have u: "mask_pn ?off 4 m (0xC3 # pre @ mask_pn 0 4 m ?pn4 @ sealed @ rest) = ?plain"
    by (simp add: mask_pn_twice)
  have pl: "pn_length_from_first_byte ((0xC3 # ys) ! 0) = 4" for ys
    by (simp add: pn_length_from_first_byte_def kPnLenMask_def)
  have "drop ?off ?plain = ?pn4 @ sealed @ rest" by simp
  from read_pn_shift [OF this, of 4] have rp: "read_pn ?off 4 ?plain = pn mod 2 ^ 32"
    by (simp only: read_pn_bytes_4 length_pn_bytes order_refl)
  have hd: "take (?off + 4) ?plain = 0xC3 # pre @ ?pn4"
    and ct: "take (length payload + 20 - 4) (drop (?off + 4) ?plain) = sealed"
    using assms(4) by (simp_all only: split_after_pn length_pn_bytes) simp
  have op: "aead_open lib a (pk_key keys) nonce (0xC3 # pre @ ?pn4) sealed = Some payload"
    using assms(3) aead_seal_documented [OF assms(1,9,10)] aead_open_documented [OF assms(1,9,10)] by auto
  have fit: "\<not> ?off + 4 + kSampleLen > length ?dg" "\<not> length payload + 20 < kSampleLen + 1"
    "\<not> ?off + 4 + (length payload + 20 - 4) > length ?plain"
    using assms(4) by (simp_all add: kSampleLen_def)
  have dec: "decode_packet_number largest (pn mod 2 ^ 32) (4 * 8) = pn" using assms(8) by simp
  show ?thesis
    unfolding decrypt_long_packet_def Let_def assms(6,7) smp assms(5)
    using fit by (simp only: x u pl rp dec hd ct assms(2) op if_False nat.simps de_Morgan_disj Option.bind.bind_lunit
        option.map simp_thms) blast
qed

text \<open>
  C12. An Initial packet survives the trip: building one never fails, and what is built, alone or with
  further packets behind it in the datagram, is parsed to the connection ids, token and length it was
  built from and opened with the same keys to the packet number and the frames. The keys have the
  algorithm's lengths, ids at most twenty bytes, token and frames less than \<open>2 ^ 30\<close> each, and the packet
  number is within \<open>2 ^ 31\<close> of the one the receiver expects.
\<close>

theorem initial_packet_roundtrip:
  assumes "evp_documented lib co" and "keys_ok a keys"
    and "length dcid \<le> 20" and "length scid \<le> 20" and "length token < 2 ^ 30"
    and "length payload < 2 ^ 30" and "pn < 2 ^ 62" and "largest < 2 ^ 62"
    and "largest + 1 < pn + 2 ^ 31" and "pn < largest + 1 + 2 ^ 31"
  shows "\<exists>pkt h dg. build_initial_packet lib a keys dcid scid token payload pn = Some pkt
    \<and> parse_long_header (pkt @ rest) 0 long_header_init = Some (h, length pkt)
    \<and> lh_type h = LInitial \<and> lh_version h = kQuicV1 \<and> lh_dcid h = dcid \<and> lh_scid h = scid
    \<and> lh_token h = token \<and> lh_packet_len h = length pkt
    \<and> decrypt_long_packet lib a keys largest (pkt @ rest) h = Some (dg, Some (pn, payload))"
proof -
  let ?pre = "initial_prefix dcid scid token (length payload + 20)"
  have key: "length (pk_key keys) = aead_key_length a" using assms(2) by (simp add: keys_ok_def)
  obtain nonce m sealed where n: "make_aead_nonce (pk_iv keys) pn = Some nonce"
    and ok: "message_ok nonce (0xC3 # ?pre @ pn_bytes 4 pn) payload"
    and s: "aead_seal lib a (pk_key keys) nonce (0xC3 # ?pre @ pn_bytes 4 pn) payload = Some sealed"
    and sl: "length sealed = length payload + 16"
    and m: "header_protection_mask lib a (pk_hp keys) (take 16 sealed) = Some m"
    and b: "build_initial_packet lib a keys dcid scid token payload pn =
      Some ((0xC3 XOR (m ! 0 AND kLongHpMask)) # ?pre @ mask_pn 0 4 m (pn_bytes 4 pn) @ sealed)"
    using build_initial_eq [OF assms(1-6)] by blast
  let ?first = "0xC3 XOR (m ! 0 AND kLongHpMask)" and ?body = "mask_pn 0 4 m (pn_bytes 4 pn) @ sealed"
  let ?pkt = "?first # ?pre @ ?body"
  let ?h = "long_header_init\<lparr>lh_type := LInitial, lh_version := kQuicV1, lh_dcid := dcid,
      lh_scid := scid, lh_token := token, lh_length := length ?body,
      lh_pn_offset := 0 + Suc (length ?pre), lh_packet_len := Suc (length ?pre) + length ?body\<rparr>"
  have lb: "length ?body = length payload + 20" using sl by simp
  have "parse_long_header (?pkt @ rest) 0 long_header_init =
      Some (?h, 0 + Suc (length (initial_prefix dcid scid token (length ?body))) + length ?body)"
    unfolding lb [symmetric]
    by (rule parse_initial_at) (use assms lb first_byte_masked [of "m ! 0"] in \<open>simp_all add: kMax_eq\<close>)
  moreover have "0 + Suc (length (initial_prefix dcid scid token (length ?body))) + length ?body =
      length ?pkt"
    unfolding lb using sl by simp
  ultimately have p: "parse_long_header (?pkt @ rest) 0 long_header_init = Some (?h, length ?pkt)"
    by (simp only:)
  have d: "decode_packet_number largest (pn mod 2 ^ 32) 32 = pn"
    by (rule pn_window_recovered) (use assms in simp_all)
  obtain dg where "decrypt_long_packet lib a keys largest (?first # ?pre @ mask_pn 0 4 m (pn_bytes 4 pn)
      @ sealed @ rest) ?h = Some (dg, Some (pn, payload))"
    using decrypt_initial [OF assms(1) n s sl m, of ?h largest rest] d lb key ok by auto
  then show ?thesis using b p by (intro exI [of _ ?pkt] exI [of _ ?h] exI [of _ dg]) simp
qed

theorem initial_packet_roundtrip_witness:
  "\<exists>pkt h dg. build_initial_packet demo_lib Aes128Gcm
      \<lparr>pk_key = replicate 16 5, pk_iv = replicate 12 9, pk_hp = replicate 16 1\<rparr> [1, 2] [3] [] [1, 0] 7 = Some pkt
    \<and> parse_long_header pkt 0 long_header_init = Some (h, length pkt)
    \<and> lh_dcid h = [1, 2] \<and> lh_scid h = [3]
    \<and> decrypt_long_packet demo_lib Aes128Gcm
        \<lparr>pk_key = replicate 16 5, pk_iv = replicate 12 9, pk_hp = replicate 16 1\<rparr> 4 pkt h
      = Some (dg, Some (7, [1, 0]))"
proof -
  let ?keys = "\<lparr>pk_key = replicate 16 5, pk_iv = replicate 12 9, pk_hp = replicate 16 1\<rparr> :: packet_keys"
  have "keys_ok Aes128Gcm ?keys" by (simp add: keys_ok_def aead_hp_length_def)
  from initial_packet_roundtrip [OF demo_documented this, of "[1, 2]" "[3]" "[]" "[1, 0]" 7 4 "[]"]
  show ?thesis by auto
qed

end
