(* ===== verification/TransportParams.thy ===== *)
theory TransportParams
  imports VarInt "HOL-Library.Sublist"
begin

text \<open>
  Transport parameters: \<open>example/quic-http3/src/quic/transport_params.cpp\<close>. The encoder emits a
  parameter only when it differs from its default; the decoder starts from the defaults, rejects
  repeated identifiers and malformed values and keeps unknown parameters. The theory shows that
  decoding inverts encoding and that a repeated parameter is always rejected.
\<close>

section \<open>The code\<close>

definition OriginalDestinationConnectionId :: nat where "OriginalDestinationConnectionId = 0x00"

definition MaxIdleTimeout :: nat where "MaxIdleTimeout = 0x01"

definition StatelessResetToken :: nat where "StatelessResetToken = 0x02"

definition MaxUdpPayloadSize :: nat where "MaxUdpPayloadSize = 0x03"

definition InitialMaxData :: nat where "InitialMaxData = 0x04"

definition InitialMaxStreamDataBidiLocal :: nat where "InitialMaxStreamDataBidiLocal = 0x05"

definition InitialMaxStreamDataBidiRemote :: nat where "InitialMaxStreamDataBidiRemote = 0x06"

definition InitialMaxStreamDataUni :: nat where "InitialMaxStreamDataUni = 0x07"

definition InitialMaxStreamsBidi :: nat where "InitialMaxStreamsBidi = 0x08"

definition InitialMaxStreamsUni :: nat where "InitialMaxStreamsUni = 0x09"

definition AckDelayExponent :: nat where "AckDelayExponent = 0x0a"

definition MaxAckDelay :: nat where "MaxAckDelay = 0x0b"

definition DisableActiveMigration :: nat where "DisableActiveMigration = 0x0c"

definition ActiveConnectionIdLimit :: nat where "ActiveConnectionIdLimit = 0x0e"

definition InitialSourceConnectionId :: nat where "InitialSourceConnectionId = 0x0f"

definition RetrySourceConnectionId :: nat where "RetrySourceConnectionId = 0x10"

lemmas param_ids = OriginalDestinationConnectionId_def MaxIdleTimeout_def StatelessResetToken_def
  MaxUdpPayloadSize_def InitialMaxData_def InitialMaxStreamDataBidiLocal_def
  InitialMaxStreamDataBidiRemote_def InitialMaxStreamDataUni_def InitialMaxStreamsBidi_def
  InitialMaxStreamsUni_def AckDelayExponent_def MaxAckDelay_def DisableActiveMigration_def
  ActiveConnectionIdLimit_def InitialSourceConnectionId_def RetrySourceConnectionId_def

record transport_params =
  tp_original_dcid :: "bytes option"
  tp_initial_scid :: "bytes option"
  tp_retry_scid :: "bytes option"
  tp_reset_token :: "bytes option"
  tp_max_idle_timeout_ms :: nat
  tp_max_udp_payload_size :: nat
  tp_initial_max_data :: nat
  tp_initial_max_stream_data_bidi_local :: nat
  tp_initial_max_stream_data_bidi_remote :: nat
  tp_initial_max_stream_data_uni :: nat
  tp_initial_max_streams_bidi :: nat
  tp_initial_max_streams_uni :: nat
  tp_ack_delay_exponent :: nat
  tp_max_ack_delay_ms :: nat
  tp_active_connection_id_limit :: nat
  tp_disable_active_migration :: bool
  tp_unknown :: "(nat \<times> bytes) list"

definition tp_default :: transport_params where
  "tp_default = \<lparr>tp_original_dcid = None, tp_initial_scid = None, tp_retry_scid = None,
     tp_reset_token = None, tp_max_idle_timeout_ms = 0, tp_max_udp_payload_size = 65527,
     tp_initial_max_data = 0, tp_initial_max_stream_data_bidi_local = 0,
     tp_initial_max_stream_data_bidi_remote = 0, tp_initial_max_stream_data_uni = 0,
     tp_initial_max_streams_bidi = 0, tp_initial_max_streams_uni = 0, tp_ack_delay_exponent = 3,
     tp_max_ack_delay_ms = 25, tp_active_connection_id_limit = 2,
     tp_disable_active_migration = False, tp_unknown = []\<rparr>"

definition append_param :: "bytes \<Rightarrow> nat \<Rightarrow> bytes \<Rightarrow> bytes option" where
  "append_param out pid v = do {
     out \<leftarrow> varint_append out pid;
     out \<leftarrow> varint_append out (length v);
     Some (out @ v)
   }"

definition append_varint_param :: "bytes \<Rightarrow> nat \<Rightarrow> nat \<Rightarrow> bytes option" where
  "append_varint_param out pid v = do { w \<leftarrow> varint_append [] v; append_param out pid w }"

definition append_empty_param :: "bytes \<Rightarrow> nat \<Rightarrow> bytes option" where
  "append_empty_param out pid = do { out \<leftarrow> varint_append out pid; varint_append out 0 }"

text \<open>The guards \<open>if (tp.x)\<close> and \<open>if (tp.x != default)\<close> of the encoder.\<close>

definition emit_opt :: "nat \<Rightarrow> bytes option \<Rightarrow> bytes \<Rightarrow> bytes option" where
  "emit_opt pid v out = (case v of None \<Rightarrow> Some out | Some b \<Rightarrow> append_param out pid b)"

definition emit_num :: "nat \<Rightarrow> nat \<Rightarrow> nat \<Rightarrow> bytes \<Rightarrow> bytes option" where
  "emit_num pid dflt v out = (if v \<noteq> dflt then append_varint_param out pid v else Some out)"

fun emit_unknown :: "(nat \<times> bytes) list \<Rightarrow> bytes \<Rightarrow> bytes option" where
  "emit_unknown [] out = Some out"
| "emit_unknown ((pid, v) # us) out = do { out \<leftarrow> append_param out pid v; emit_unknown us out }"

definition encode_transport_params :: "transport_params \<Rightarrow> bytes option" where
  "encode_transport_params tp = do {
     out \<leftarrow> emit_opt OriginalDestinationConnectionId (tp_original_dcid tp) [];
     out \<leftarrow> emit_opt InitialSourceConnectionId (tp_initial_scid tp) out;
     out \<leftarrow> emit_opt RetrySourceConnectionId (tp_retry_scid tp) out;
     out \<leftarrow> emit_opt StatelessResetToken (tp_reset_token tp) out;
     out \<leftarrow> emit_num MaxIdleTimeout 0 (tp_max_idle_timeout_ms tp) out;
     out \<leftarrow> emit_num MaxUdpPayloadSize 65527 (tp_max_udp_payload_size tp) out;
     out \<leftarrow> emit_num InitialMaxData 0 (tp_initial_max_data tp) out;
     out \<leftarrow> emit_num InitialMaxStreamDataBidiLocal 0 (tp_initial_max_stream_data_bidi_local tp) out;
     out \<leftarrow> emit_num InitialMaxStreamDataBidiRemote 0 (tp_initial_max_stream_data_bidi_remote tp) out;
     out \<leftarrow> emit_num InitialMaxStreamDataUni 0 (tp_initial_max_stream_data_uni tp) out;
     out \<leftarrow> emit_num InitialMaxStreamsBidi 0 (tp_initial_max_streams_bidi tp) out;
     out \<leftarrow> emit_num InitialMaxStreamsUni 0 (tp_initial_max_streams_uni tp) out;
     out \<leftarrow> emit_num AckDelayExponent 3 (tp_ack_delay_exponent tp) out;
     out \<leftarrow> emit_num MaxAckDelay 25 (tp_max_ack_delay_ms tp) out;
     out \<leftarrow> emit_num ActiveConnectionIdLimit 2 (tp_active_connection_id_limit tp) out;
     out \<leftarrow> (if tp_disable_active_migration tp
            then append_empty_param out DisableActiveMigration else Some out);
     emit_unknown (tp_unknown tp) out
   }"

definition read_varint_value :: "bytes \<Rightarrow> nat option" where
  "read_varint_value v = do {
     (x, off) \<leftarrow> varint_decode v 0;
     if off = length v then Some x else None
   }"

definition kMaxCidLen :: nat where "kMaxCidLen = 20"

definition small_cid :: "bytes \<Rightarrow> bytes option" where
  "small_cid v = (if length v > kMaxCidLen then None else Some v)"

text \<open>The \<open>switch\<close> on the identifier.\<close>

definition apply_param :: "nat \<Rightarrow> bytes \<Rightarrow> transport_params \<Rightarrow> transport_params option" where
  "apply_param pid v tp =
     (if pid = OriginalDestinationConnectionId then
        map_option (\<lambda>b. tp\<lparr>tp_original_dcid := Some b\<rparr>) (small_cid v)
      else if pid = InitialSourceConnectionId then
        map_option (\<lambda>b. tp\<lparr>tp_initial_scid := Some b\<rparr>) (small_cid v)
      else if pid = RetrySourceConnectionId then
        map_option (\<lambda>b. tp\<lparr>tp_retry_scid := Some b\<rparr>) (small_cid v)
      else if pid = StatelessResetToken then
        (if length v \<noteq> 16 then None else Some (tp\<lparr>tp_reset_token := Some v\<rparr>))
      else if pid = MaxIdleTimeout then
        map_option (\<lambda>n. tp\<lparr>tp_max_idle_timeout_ms := n\<rparr>) (read_varint_value v)
      else if pid = MaxUdpPayloadSize then
        map_option (\<lambda>n. tp\<lparr>tp_max_udp_payload_size := n\<rparr>) (read_varint_value v)
      else if pid = InitialMaxData then
        map_option (\<lambda>n. tp\<lparr>tp_initial_max_data := n\<rparr>) (read_varint_value v)
      else if pid = InitialMaxStreamDataBidiLocal then
        map_option (\<lambda>n. tp\<lparr>tp_initial_max_stream_data_bidi_local := n\<rparr>) (read_varint_value v)
      else if pid = InitialMaxStreamDataBidiRemote then
        map_option (\<lambda>n. tp\<lparr>tp_initial_max_stream_data_bidi_remote := n\<rparr>) (read_varint_value v)
      else if pid = InitialMaxStreamDataUni then
        map_option (\<lambda>n. tp\<lparr>tp_initial_max_stream_data_uni := n\<rparr>) (read_varint_value v)
      else if pid = InitialMaxStreamsBidi then
        map_option (\<lambda>n. tp\<lparr>tp_initial_max_streams_bidi := n\<rparr>) (read_varint_value v)
      else if pid = InitialMaxStreamsUni then
        map_option (\<lambda>n. tp\<lparr>tp_initial_max_streams_uni := n\<rparr>) (read_varint_value v)
      else if pid = AckDelayExponent then
        map_option (\<lambda>n. tp\<lparr>tp_ack_delay_exponent := n\<rparr>) (read_varint_value v)
      else if pid = MaxAckDelay then
        map_option (\<lambda>n. tp\<lparr>tp_max_ack_delay_ms := n\<rparr>) (read_varint_value v)
      else if pid = ActiveConnectionIdLimit then
        map_option (\<lambda>n. tp\<lparr>tp_active_connection_id_limit := n\<rparr>) (read_varint_value v)
      else if pid = DisableActiveMigration then
        (if v \<noteq> [] then None else Some (tp\<lparr>tp_disable_active_migration := True\<rparr>))
      else Some (tp\<lparr>tp_unknown := tp_unknown tp @ [(pid, v)]\<rparr>))"

text \<open>
  One parameter at the cursor: identifier, length, and the bytes that must be there. The sum does not
  wrap: the cursor is inside the buffer and a varint is below \<open>2 ^ 62\<close>.
\<close>

definition read_param :: "bytes \<Rightarrow> nat \<Rightarrow> ((nat \<times> bytes) \<times> nat) option" where
  "read_param wire off = do {
     (pid, off) \<leftarrow> varint_decode wire off;
     (len, off) \<leftarrow> varint_decode wire off;
     if off + len > length wire then None
     else Some ((pid, take len (drop off wire)), off + len)
   }"

lemma read_param_progress:
  "read_param wire off = Some (p, off') \<Longrightarrow> off < off'"
  by (auto simp: read_param_def split: bind_splits if_splits dest!: varint_decode_SomeE(1))

function decode_params_from ::
    "bytes \<Rightarrow> nat \<Rightarrow> nat set \<Rightarrow> transport_params \<Rightarrow> transport_params option" where
  "decode_params_from wire off seen tp =
     (if off < length wire then
        (case read_param wire off of
           None \<Rightarrow> None
         | Some ((pid, v), off') \<Rightarrow>
             if pid \<in> seen then None
             else (case apply_param pid v tp of
                     None \<Rightarrow> None
                   | Some tp' \<Rightarrow> decode_params_from wire off' (insert pid seen) tp'))
      else Some tp)"
  by pat_completeness auto
termination
  by (relation "measure (\<lambda>(wire, off, seen, tp). length wire - off)")
    (auto dest: read_param_progress)

declare decode_params_from.simps [simp del]

text \<open>The caller passes the structure to fill; a fresh one holds the defaults.\<close>

definition decode_transport_params :: "bytes \<Rightarrow> transport_params \<Rightarrow> transport_params option" where
  "decode_transport_params wire tp = decode_params_from wire 0 {} tp"

section \<open>Parameters on the wire\<close>

definition param_wire :: "nat \<times> bytes \<Rightarrow> bytes" where
  "param_wire p = vbytes (fst p) @ vbytes (length (snd p)) @ snd p"

definition param_ok :: "nat \<times> bytes \<Rightarrow> bool" where
  "param_ok p \<longleftrightarrow> fst p \<le> kMax \<and> length (snd p) \<le> kMax"

lemma append_param_wire:
  "param_ok (pid, v) \<Longrightarrow> append_param out pid v = Some (out @ param_wire (pid, v))"
  by (simp add: append_param_def param_ok_def param_wire_def varint_append_vbytes)

lemma read_param_wire:
  assumes "param_ok p" and "drop off wire = param_wire p @ rest"
  shows "read_param wire off = Some (p, off + length (param_wire p))"
proof -
  obtain pid v where p: "p = (pid, v)" by (cases p)
  have ok: "pid \<le> kMax" "length v \<le> kMax" using assms(1) by (simp_all add: p param_ok_def)
  have d0: "drop off wire = vbytes pid @ (vbytes (length v) @ v @ rest)"
    using assms(2) by (simp add: p param_wire_def)
  have d1: "drop (off + length (vbytes pid)) wire = vbytes (length v) @ (v @ rest)"
    by (rule drop_add_append [OF d0])
  have d2: "drop (off + length (vbytes pid) + length (vbytes (length v))) wire = v @ rest"
    by (rule drop_add_append [OF d1])
  have "off + length (vbytes pid) < length wire"
    using vbytes_not_Nil [OF ok(2)] d1 by (intro drop_nonempty_less) simp
  then have len: "off + length (vbytes pid) + length (vbytes (length v)) + length v \<le> length wire"
    using arg_cong [OF d1, of length] by simp
  show ?thesis
    using varint_roundtrip_at [OF ok(1) d0] varint_roundtrip_at [OF ok(2) d1] d2 len
    by (simp add: read_param_def p param_wire_def add.assoc)
qed

interpretation param: wire_codec "\<lambda>(pid, v). append_param [] pid v" read_param param_ok
  "\<lambda>_ _. True"
proof
  show "\<exists>w. (case p of (pid, v) \<Rightarrow> append_param [] pid v) = Some w" if "param_ok p" for p
    using that by (cases p) (simp add: append_param_wire)
  show "read_param wire off = Some (p, off + length w)"
    if "param_ok p" "(case p of (pid, v) \<Rightarrow> append_param [] pid v) = Some w"
      "drop off wire = w @ rest" for p w rest off wire
    using that read_param_wire [of p off wire rest] by (cases p) (simp add: append_param_wire)
  show "off < off' \<and> off' \<le> length wire" if "read_param wire off = Some (p, off')" for wire off p off'
    using that
    by (auto simp: read_param_def split: bind_splits if_splits dest!: varint_decode_SomeE(1))
qed

text \<open>What the decoder does with a sequence of parameters, when none is repeated.\<close>

fun apply_params :: "(nat \<times> bytes) list \<Rightarrow> transport_params \<Rightarrow> transport_params option" where
  "apply_params [] tp = Some tp"
| "apply_params ((pid, v) # ps) tp = Option.bind (apply_param pid v tp) (apply_params ps)"

lemma apply_params_append:
  "apply_params (ps @ qs) tp = Option.bind (apply_params ps tp) (apply_params qs)"
proof (induction ps tp rule: apply_params.induct)
  case (2 pid v ps tp)
  then show ?case by (cases "apply_param pid v tp") simp_all
qed simp

lemma param_wire_not_Nil: "param_ok p \<Longrightarrow> param_wire p \<noteq> []"
  using vbytes_not_Nil by (simp add: param_wire_def param_ok_def)

lemma decode_params_concat:
  assumes "list_all param_ok ps" and "drop off wire = concat (map param_wire ps)"
  shows "decode_params_from wire off seen tp =
    (if distinct (map fst ps) \<and> fst ` set ps \<inter> seen = {} then apply_params ps tp else None)"
  using assms
proof (induction ps arbitrary: off seen tp)
  case Nil
  then show ?case by (subst decode_params_from.simps) simp
next
  case (Cons p ps)
  obtain pid v where p: "p = (pid, v)" by (cases p)
  have d: "drop off wire = param_wire p @ concat (map param_wire ps)" using Cons.prems(2) by simp
  have ok: "param_ok p" using Cons.prems(1) by simp
  have lt: "off < length wire"
    using d param_wire_not_Nil [OF ok] by (intro drop_nonempty_less) simp
  have IH: "decode_params_from wire (off + length (param_wire p)) S t =
      (if distinct (map fst ps) \<and> fst ` set ps \<inter> S = {} then apply_params ps t else None)" for S t
    using Cons.IH [OF _ drop_add_append [OF d]] Cons.prems(1) by simp
  have "decode_params_from wire off seen tp =
    (if pid \<in> seen then None else Option.bind (apply_param pid v tp)
      (decode_params_from wire (off + length (param_wire p)) (insert pid seen)))"
    by (subst decode_params_from.simps)
      (simp add: lt read_param_wire [OF ok d, unfolded p] p split: option.split)
  also have "\<dots> = (if distinct (map fst (p # ps)) \<and> fst ` set (p # ps) \<inter> seen = {}
      then apply_params (p # ps) tp else None)"
    by (auto simp: IH [unfolded p] p split: bind_split)
  finally show ?case .
qed

section \<open>Round trip\<close>

definition opt_params :: "nat \<Rightarrow> bytes option \<Rightarrow> (nat \<times> bytes) list" where
  "opt_params pid v = (case v of None \<Rightarrow> [] | Some b \<Rightarrow> [(pid, b)])"

definition num_params :: "nat \<Rightarrow> nat \<Rightarrow> nat \<Rightarrow> (nat \<times> bytes) list" where
  "num_params pid dflt v = (if v \<noteq> dflt then [(pid, vbytes v)] else [])"

text \<open>The parameters of the structure in the order in which they are emitted.\<close>

definition tp_params :: "transport_params \<Rightarrow> (nat \<times> bytes) list" where
  "tp_params tp =
     opt_params OriginalDestinationConnectionId (tp_original_dcid tp) @
     opt_params InitialSourceConnectionId (tp_initial_scid tp) @
     opt_params RetrySourceConnectionId (tp_retry_scid tp) @
     opt_params StatelessResetToken (tp_reset_token tp) @
     num_params MaxIdleTimeout 0 (tp_max_idle_timeout_ms tp) @
     num_params MaxUdpPayloadSize 65527 (tp_max_udp_payload_size tp) @
     num_params InitialMaxData 0 (tp_initial_max_data tp) @
     num_params InitialMaxStreamDataBidiLocal 0 (tp_initial_max_stream_data_bidi_local tp) @
     num_params InitialMaxStreamDataBidiRemote 0 (tp_initial_max_stream_data_bidi_remote tp) @
     num_params InitialMaxStreamDataUni 0 (tp_initial_max_stream_data_uni tp) @
     num_params InitialMaxStreamsBidi 0 (tp_initial_max_streams_bidi tp) @
     num_params InitialMaxStreamsUni 0 (tp_initial_max_streams_uni tp) @
     num_params AckDelayExponent 3 (tp_ack_delay_exponent tp) @
     num_params MaxAckDelay 25 (tp_max_ack_delay_ms tp) @
     num_params ActiveConnectionIdLimit 2 (tp_active_connection_id_limit tp) @
     (if tp_disable_active_migration tp then [(DisableActiveMigration, [])] else []) @
     tp_unknown tp"

definition known_ids :: "nat set" where
  "known_ids = {0, 1, 2, 3, 4, 5, 6, 7, 8, 9, 10, 11, 12, 14, 15, 16}"

text \<open>
  The structures the encoder can represent: connection identifiers of at most 20 bytes, a token of 16
  bytes, integers that fit a varint, and unknown parameters with identifiers of their own.
\<close>

definition cid_ok :: "bytes option \<Rightarrow> bool" where
  "cid_ok v \<longleftrightarrow> (\<forall>b \<in> set_option v. length b \<le> kMaxCidLen)"

definition tp_ok :: "transport_params \<Rightarrow> bool" where
  "tp_ok tp \<longleftrightarrow> cid_ok (tp_original_dcid tp) \<and> cid_ok (tp_initial_scid tp) \<and> cid_ok (tp_retry_scid tp)
     \<and> (\<forall>t \<in> set_option (tp_reset_token tp). length t = 16)
     \<and> list_all (\<lambda>n. n \<le> kMax) [tp_max_idle_timeout_ms tp, tp_max_udp_payload_size tp,
         tp_initial_max_data tp, tp_initial_max_stream_data_bidi_local tp,
         tp_initial_max_stream_data_bidi_remote tp, tp_initial_max_stream_data_uni tp,
         tp_initial_max_streams_bidi tp, tp_initial_max_streams_uni tp, tp_ack_delay_exponent tp,
         tp_max_ack_delay_ms tp, tp_active_connection_id_limit tp]
     \<and> list_all param_ok (tp_unknown tp) \<and> distinct (map fst (tp_unknown tp))
     \<and> fst ` set (tp_unknown tp) \<inter> known_ids = {}"

lemma vbytes_param: "pid \<le> 16 \<Longrightarrow> v \<le> kMax \<Longrightarrow> param_ok (pid, vbytes v)"
  using vbytes_length [of v] by (auto simp: param_ok_def kMax_eq varint_encoded_size_def split: if_splits)

lemma emit_num_wire:
  "pid \<le> 16 \<Longrightarrow> v \<le> kMax \<Longrightarrow>
     emit_num pid dflt v out = Some (out @ concat (map param_wire (num_params pid dflt v)))"
  by (simp add: emit_num_def num_params_def append_varint_param_def varint_append_vbytes
      append_param_wire vbytes_param)

lemma emit_opt_wire:
  "pid \<le> 16 \<Longrightarrow> \<forall>b \<in> set_option v. length b \<le> 20 \<Longrightarrow>
     emit_opt pid v out = Some (out @ concat (map param_wire (opt_params pid v)))"
  by (cases v) (simp_all add: emit_opt_def opt_params_def append_param_wire param_ok_def kMax_eq)

lemma emit_unknown_wire:
  "list_all param_ok us \<Longrightarrow> emit_unknown us out = Some (out @ concat (map param_wire us))"
  by (induction us arbitrary: out) (auto simp: append_param_wire)

lemma append_empty_param_wire:
  "pid \<le> 16 \<Longrightarrow> append_empty_param out pid = Some (out @ param_wire (pid, []))"
  by (simp add: append_empty_param_def varint_append_vbytes kMax_eq param_wire_def)

lemma encode_wire:
  assumes "tp_ok tp"
  shows "encode_transport_params tp = Some (concat (map param_wire (tp_params tp)))"
  using assms
  by (simp add: encode_transport_params_def tp_params_def tp_ok_def cid_ok_def kMaxCidLen_def
      emit_opt_wire emit_num_wire emit_unknown_wire append_empty_param_wire param_ids)

text \<open>The identifiers emitted are a part of the fixed order of the encoder.\<close>

lemma params_ids_subseq:
  "subseq (map fst (num_params pid dflt v)) [pid]" "subseq (map fst (opt_params pid b)) [pid]"
  by (simp_all add: num_params_def opt_params_def split: option.split)

lemma tp_params_ids:
  "subseq (map fst (tp_params tp)) ([0] @ [15] @ [16] @ [2] @ [1] @ [3] @ [4] @ [5] @ [6] @ [7] @ [8] @ [9]
     @ [10] @ [11] @ [14] @ [12] @ map fst (tp_unknown tp))"
  unfolding tp_params_def map_append
  by (intro list_emb_append_mono) (simp_all add: params_ids_subseq param_ids)

lemma tp_params_distinct:
  assumes "tp_ok tp"
  shows "distinct (map fst (tp_params tp))"
proof -
  have "distinct ([0] @ [15] @ [16] @ [2] @ [1] @ [3] @ [4] @ [5] @ [6] @ [7] @ [8] @ [9]
     @ [10] @ [11] @ [14] @ [12] @ map fst (tp_unknown tp))"
    using assms by (auto simp: tp_ok_def known_ids_def)
  moreover obtain N where "map fst (tp_params tp) = nths ([0] @ [15] @ [16] @ [2] @ [1] @ [3] @ [4] @ [5]
     @ [6] @ [7] @ [8] @ [9] @ [10] @ [11] @ [14] @ [12] @ map fst (tp_unknown tp)) N"
    using tp_params_ids [of tp] unfolding subseq_conv_nths by blast
  ultimately show ?thesis by (metis distinct_nthsI)
qed

lemma read_varint_vbytes [simp]: "v \<le> kMax \<Longrightarrow> read_varint_value (vbytes v) = Some v"
  using varint_roundtrip_at [of v 0 "vbytes v" "[]"] by (simp add: read_varint_value_def)

text \<open>Each piece sets its own field when that field still holds the default.\<close>

lemma apply_cids:
  "\<forall>b \<in> set_option v. length b \<le> kMaxCidLen \<Longrightarrow> tp_original_dcid t = None \<Longrightarrow>
     apply_params (opt_params OriginalDestinationConnectionId v) t = Some (t\<lparr>tp_original_dcid := v\<rparr>)"
  "\<forall>b \<in> set_option v. length b \<le> kMaxCidLen \<Longrightarrow> tp_initial_scid t = None \<Longrightarrow>
     apply_params (opt_params InitialSourceConnectionId v) t = Some (t\<lparr>tp_initial_scid := v\<rparr>)"
  "\<forall>b \<in> set_option v. length b \<le> kMaxCidLen \<Longrightarrow> tp_retry_scid t = None \<Longrightarrow>
     apply_params (opt_params RetrySourceConnectionId v) t = Some (t\<lparr>tp_retry_scid := v\<rparr>)"
  "\<forall>b \<in> set_option v. length b = 16 \<Longrightarrow> tp_reset_token t = None \<Longrightarrow>
     apply_params (opt_params StatelessResetToken v) t = Some (t\<lparr>tp_reset_token := v\<rparr>)"
  by (cases v; simp add: opt_params_def apply_param_def param_ids small_cid_def)+

lemma apply_nums:
  assumes "v \<le> kMax"
  shows "tp_max_idle_timeout_ms t = 0 \<Longrightarrow>
      apply_params (num_params MaxIdleTimeout 0 v) t = Some (t\<lparr>tp_max_idle_timeout_ms := v\<rparr>)"
    "tp_max_udp_payload_size t = 65527 \<Longrightarrow>
      apply_params (num_params MaxUdpPayloadSize 65527 v) t = Some (t\<lparr>tp_max_udp_payload_size := v\<rparr>)"
    "tp_initial_max_data t = 0 \<Longrightarrow>
      apply_params (num_params InitialMaxData 0 v) t = Some (t\<lparr>tp_initial_max_data := v\<rparr>)"
    "tp_initial_max_stream_data_bidi_local t = 0 \<Longrightarrow>
      apply_params (num_params InitialMaxStreamDataBidiLocal 0 v) t =
        Some (t\<lparr>tp_initial_max_stream_data_bidi_local := v\<rparr>)"
    "tp_initial_max_stream_data_bidi_remote t = 0 \<Longrightarrow>
      apply_params (num_params InitialMaxStreamDataBidiRemote 0 v) t =
        Some (t\<lparr>tp_initial_max_stream_data_bidi_remote := v\<rparr>)"
    "tp_initial_max_stream_data_uni t = 0 \<Longrightarrow>
      apply_params (num_params InitialMaxStreamDataUni 0 v) t =
        Some (t\<lparr>tp_initial_max_stream_data_uni := v\<rparr>)"
    "tp_initial_max_streams_bidi t = 0 \<Longrightarrow>
      apply_params (num_params InitialMaxStreamsBidi 0 v) t = Some (t\<lparr>tp_initial_max_streams_bidi := v\<rparr>)"
    "tp_initial_max_streams_uni t = 0 \<Longrightarrow>
      apply_params (num_params InitialMaxStreamsUni 0 v) t = Some (t\<lparr>tp_initial_max_streams_uni := v\<rparr>)"
    "tp_ack_delay_exponent t = 3 \<Longrightarrow>
      apply_params (num_params AckDelayExponent 3 v) t = Some (t\<lparr>tp_ack_delay_exponent := v\<rparr>)"
    "tp_max_ack_delay_ms t = 25 \<Longrightarrow>
      apply_params (num_params MaxAckDelay 25 v) t = Some (t\<lparr>tp_max_ack_delay_ms := v\<rparr>)"
    "tp_active_connection_id_limit t = 2 \<Longrightarrow>
      apply_params (num_params ActiveConnectionIdLimit 2 v) t =
        Some (t\<lparr>tp_active_connection_id_limit := v\<rparr>)"
  using assms by (simp_all add: num_params_def apply_param_def param_ids)

lemma apply_flag:
  "\<not> tp_disable_active_migration t \<Longrightarrow>
     apply_params (if b then [(DisableActiveMigration, [])] else []) t =
       Some (t\<lparr>tp_disable_active_migration := b\<rparr>)"
  by (simp add: apply_param_def param_ids)

lemma apply_unknown:
  "fst ` set us \<inter> known_ids = {} \<Longrightarrow> apply_params us t = Some (t\<lparr>tp_unknown := tp_unknown t @ us\<rparr>)"
  by (induction us arbitrary: t) (auto simp: apply_param_def param_ids known_ids_def)

lemma apply_tp_params:
  assumes "tp_ok tp"
  shows "apply_params (tp_params tp) tp_default = Some tp"
  using assms
  by (simp add: tp_params_def apply_params_append tp_ok_def cid_ok_def tp_default_def
      apply_cids apply_nums apply_flag apply_unknown)

lemma tp_params_ok:
  assumes "tp_ok tp"
  shows "list_all param_ok (tp_params tp)"
proof -
  have opt: "list_all param_ok (opt_params pid v)"
    if "pid \<le> 16" "\<forall>b \<in> set_option v. length b \<le> 20" for pid v
    using that by (cases v) (auto simp: opt_params_def param_ok_def kMax_eq)
  have num: "list_all param_ok (num_params pid dflt v)" if "pid \<le> 16" "v \<le> kMax" for pid dflt v
    using that by (simp add: num_params_def vbytes_param)
  show ?thesis
    using assms by (auto simp: tp_params_def tp_ok_def cid_ok_def kMaxCidLen_def param_ids opt num
        param_ok_def kMax_eq)
qed

section \<open>Properties\<close>

text \<open>C18. Decoding inverts encoding: every representable structure, with its unknown parameters, is
  encoded without an exception, and decoding the bytes into a fresh structure gives it back.\<close>

theorem transport_params_roundtrip:
  assumes "tp_ok tp"
  shows "\<exists>w. encode_transport_params tp = Some w \<and> decode_transport_params w tp_default = Some tp"
proof -
  let ?w = "concat (map param_wire (tp_params tp))"
  have "decode_params_from ?w 0 {} tp_default = apply_params (tp_params tp) tp_default"
    using decode_params_concat [OF tp_params_ok [OF assms], of 0 ?w] tp_params_distinct [OF assms]
    by simp
  then show ?thesis
    using encode_wire [OF assms] apply_tp_params [OF assms] by (simp add: decode_transport_params_def)
qed

theorem transport_params_roundtrip_witness:
  "\<exists>w. encode_transport_params (tp_default\<lparr>tp_initial_scid := Some [1, 2, 3], tp_initial_max_data := 65536,
      tp_disable_active_migration := True, tp_unknown := [(0x20, [9, 9])]\<rparr>) = Some w
    \<and> decode_transport_params w tp_default = Some (tp_default\<lparr>tp_initial_scid := Some [1, 2, 3],
      tp_initial_max_data := 65536, tp_disable_active_migration := True, tp_unknown := [(0x20, [9, 9])]\<rparr>)"
  by (rule transport_params_roundtrip)
    (simp add: tp_ok_def cid_ok_def tp_default_def kMaxCidLen_def kMax_eq param_ok_def known_ids_def)

text \<open>A sequence of parameters in which an identifier is repeated is rejected, whatever the values
  and whatever the parameters around the repetition.\<close>

theorem repeated_param_rejected:
  assumes "list_all param_ok ps" and "\<not> distinct (map fst ps)"
  shows "decode_transport_params (concat (map param_wire ps)) tp = None"
  using decode_params_concat [OF assms(1), of 0 "concat (map param_wire ps)"] assms(2)
  by (simp add: decode_transport_params_def)

theorem repeated_param_rejected_witness:
  "decode_transport_params [0x20, 0x00, 0x01, 0x01, 0x05, 0x20, 0x00] tp_default = None"
proof -
  have "decode_transport_params (concat (map param_wire [(0x20, []), (1, [5]), (0x20, [])])) tp_default
      = None"
    by (rule repeated_param_rejected) (simp_all add: param_ok_def kMax_eq)
  then show ?thesis by (simp add: param_wire_def vbytes_1)
qed

end
