(* ===== verification/Tls.thy ===== *)
theory Tls
  imports Crypto TransportParams
begin

text \<open>
  The TLS engine's wrapper: \<open>example/quic-http3/src/quic/tls.cpp\<close> in the build that uses OpenSSL. The
  wrapper keeps the CRYPTO bytes in both directions, the traffic secrets and the peer's transport
  parameters; OpenSSL drives it through callbacks. One call of \<open>SSL_do_handshake\<close> is an input of the
  model: the callbacks it makes, in order, its return value, the error class and the negotiated
  cipher suite. So every statement holds for whatever the engine does.
\<close>

section \<open>State\<close>

datatype enc_level = Initial | EarlyData | Handshake | Application

datatype tls_state = THandshaking | TEstablished | TFailed

text \<open>\<open>ti_read_cursor\<close> is the position up to which OpenSSL has taken the received bytes.\<close>

record level_in =
  ti_data :: bytes
  ti_read_cursor :: nat

record tls_connection =
  tls_ssl :: bool
  tls_status :: tls_state
  tls_alert_code :: nat
  tls_in :: "enc_level \<Rightarrow> level_in"
  tls_send_level :: enc_level
  tls_out :: "enc_level \<Rightarrow> bytes"
  tls_read_secret :: "enc_level \<Rightarrow> bytes"
  tls_write_secret :: "enc_level \<Rightarrow> bytes"
  tls_peer_tp :: transport_params
  tls_have_peer_tp :: bool
  tls_negotiated_aead :: aead
  tls_own_tp_wire :: bytes

definition tls_blank :: tls_connection where
  "tls_blank = \<lparr>tls_ssl = False, tls_status = THandshaking, tls_alert_code = 0,
     tls_in = (\<lambda>_. \<lparr>ti_data = [], ti_read_cursor = 0\<rparr>), tls_send_level = Initial,
     tls_out = (\<lambda>_. []), tls_read_secret = (\<lambda>_. []), tls_write_secret = (\<lambda>_. []),
     tls_peer_tp = tp_default, tls_have_peer_tp = False, tls_negotiated_aead = Aes128Gcm,
     tls_own_tp_wire = []\<rparr>"

section \<open>Operations\<close>

text \<open>The outcome of the three set-up calls of OpenSSL in the constructor.\<close>

record tls_setup =
  su_ssl_new :: bool
  su_quic_cbs :: bool
  su_quic_tp :: bool

definition tls_new :: "tls_setup \<Rightarrow> transport_params \<Rightarrow> tls_connection option" where
  "tls_new su tp =
     (if \<not> su_ssl_new su then Some (tls_blank\<lparr>tls_status := TFailed\<rparr>)
      else do {
        wire \<leftarrow> encode_transport_params tp;
        let s = tls_blank\<lparr>tls_ssl := True, tls_own_tp_wire := wire\<rparr>;
        Some (if su_quic_cbs su \<and> su_quic_tp su then s else s\<lparr>tls_status := TFailed\<rparr>)
      })"

definition deliver_crypto :: "enc_level \<Rightarrow> bytes \<Rightarrow> tls_connection \<Rightarrow> tls_connection" where
  "deliver_crypto level data s =
     (let lvl = tls_in s level
      in s\<lparr>tls_in := (tls_in s)(level := lvl\<lparr>ti_data := ti_data lvl @ data\<rparr>)\<rparr>)"

fun aead_from_tls_cipher_id :: "nat \<Rightarrow> aead" where
  "aead_from_tls_cipher_id cid =
     (if cid = 0x1301 then Aes128Gcm
      else if cid = 0x1302 then Aes256Gcm
      else if cid = 0x1303 then ChaCha20Poly1305
      else Aes128Gcm)"

text \<open>\<open>cipher_id\<close> is the current cipher suite, \<open>None\<close> when OpenSSL has none.\<close>

definition refresh_negotiated_aead :: "nat option \<Rightarrow> tls_connection \<Rightarrow> tls_connection" where
  "refresh_negotiated_aead cipher_id s =
     (case cipher_id of None \<Rightarrow> s
      | Some c \<Rightarrow> s\<lparr>tls_negotiated_aead := aead_from_tls_cipher_id (c mod 2 ^ 16)\<rparr>)"

definition from_ossl_level :: "nat \<Rightarrow> enc_level" where
  "from_ossl_level ossl =
     (if ossl = 0 then Initial else if ossl = 1 then EarlyData
      else if ossl = 2 then Handshake else Application)"

definition on_crypto_send :: "bytes \<Rightarrow> tls_connection \<Rightarrow> tls_connection" where
  "on_crypto_send data s =
     (let l = tls_send_level s in s\<lparr>tls_out := (tls_out s)(l := tls_out s l @ data)\<rparr>)"

text \<open>The lowest level that holds bytes OpenSSL has not taken yet.\<close>

fun first_unread :: "enc_level list \<Rightarrow> tls_connection \<Rightarrow> enc_level option" where
  "first_unread [] s = None"
| "first_unread (l # ls) s =
     (if ti_read_cursor (tls_in s l) < length (ti_data (tls_in s l)) then Some l
      else first_unread ls s)"

definition all_levels :: "enc_level list" where
  "all_levels = [Initial, EarlyData, Handshake, Application]"

definition on_crypto_recv :: "tls_connection \<Rightarrow> bytes" where
  "on_crypto_recv s =
     (case first_unread all_levels s of
        None \<Rightarrow> []
      | Some l \<Rightarrow> drop (ti_read_cursor (tls_in s l)) (ti_data (tls_in s l)))"

definition on_crypto_release :: "nat \<Rightarrow> tls_connection \<Rightarrow> tls_connection" where
  "on_crypto_release bytes_read s =
     (case first_unread all_levels s of
        None \<Rightarrow> s
      | Some l \<Rightarrow>
          let lvl = tls_in s l;
              n = min bytes_read (length (ti_data lvl) - ti_read_cursor lvl)
          in s\<lparr>tls_in := (tls_in s)(l := lvl\<lparr>ti_read_cursor := ti_read_cursor lvl + n\<rparr>)\<rparr>)"

definition on_yield_secret ::
    "nat \<Rightarrow> nat \<Rightarrow> bytes \<Rightarrow> nat option \<Rightarrow> tls_connection \<Rightarrow> tls_connection" where
  "on_yield_secret prot_level direction secret cipher_id s =
     (let level = from_ossl_level prot_level;
          s = (if direction = 0
               then s\<lparr>tls_read_secret := (tls_read_secret s)(level := secret)\<rparr>
               else s\<lparr>tls_write_secret := (tls_write_secret s)(level := secret)\<rparr>);
          s = refresh_negotiated_aead cipher_id s
      in s\<lparr>tls_send_level := level\<rparr>)"

text \<open>
  The decoder fills the stored structure as it goes; where it fails, \<open>leftover\<close> is what it had filled
  in by then.
\<close>

definition on_got_transport_params ::
    "bytes \<Rightarrow> transport_params \<Rightarrow> tls_connection \<Rightarrow> tls_connection" where
  "on_got_transport_params params leftover s =
     (case decode_transport_params params (tls_peer_tp s) of
        None \<Rightarrow> s\<lparr>tls_have_peer_tp := False, tls_peer_tp := leftover\<rparr>
      | Some tp \<Rightarrow> s\<lparr>tls_have_peer_tp := True, tls_peer_tp := tp\<rparr>)"

definition on_alert :: "nat \<Rightarrow> tls_connection \<Rightarrow> tls_connection" where
  "on_alert code s = s\<lparr>tls_alert_code := code, tls_status := TFailed\<rparr>"

section \<open>The handshake\<close>

datatype tls_callback =
    CryptoSend bytes
  | CryptoRelease nat
  | YieldSecret nat nat bytes "nat option"
  | GotTransportParams bytes transport_params
  | Alert nat

fun tls_call :: "tls_callback \<Rightarrow> tls_connection \<Rightarrow> tls_connection" where
  "tls_call (CryptoSend d) s = on_crypto_send d s"
| "tls_call (CryptoRelease n) s = on_crypto_release n s"
| "tls_call (YieldSecret l dir secret c) s = on_yield_secret l dir secret c s"
| "tls_call (GotTransportParams p rest) s = on_got_transport_params p rest s"
| "tls_call (Alert c) s = on_alert c s"

text \<open>
  One call of \<open>SSL_do_handshake\<close>. \<open>hr_want\<close> says that the error is one of those that mean \<open>call
  again\<close>, \<open>hr_err\<close> is its code.
\<close>

record handshake_run =
  hr_callbacks :: "tls_callback list"
  hr_rc :: int
  hr_want :: bool
  hr_err :: nat
  hr_cipher :: "nat option"

definition set_state_from_handshake_result :: "handshake_run \<Rightarrow> tls_connection \<Rightarrow> tls_connection" where
  "set_state_from_handshake_result r s =
     (if hr_rc r = 1 then s\<lparr>tls_status := TEstablished\<rparr>
      else if hr_want r then s\<lparr>tls_status := THandshaking\<rparr>
      else
        (if tls_alert_code s = 0 then s\<lparr>tls_alert_code := hr_err r mod 256\<rparr> else s)
          \<lparr>tls_status := TFailed\<rparr>)"

definition tls_advance :: "handshake_run \<Rightarrow> tls_connection \<Rightarrow> tls_connection" where
  "tls_advance r s =
     (if tls_status s = TFailed \<or> \<not> tls_ssl s then s
      else
        let s = fold tls_call (hr_callbacks r) s;
            s = set_state_from_handshake_result r s
        in if tls_status s = TEstablished then refresh_negotiated_aead (hr_cipher r) s else s)"

definition consume_out_crypto :: "enc_level \<Rightarrow> nat \<Rightarrow> tls_connection \<Rightarrow> tls_connection" where
  "consume_out_crypto level n s =
     s\<lparr>tls_out := (tls_out s)(level := drop (min n (length (tls_out s level))) (tls_out s level))\<rparr>"

section \<open>Protocol selection\<close>

text \<open>
  \<open>alpn_select_cb\<close>: the client's list is a sequence of length-prefixed names; the first that is among
  the offered ones is chosen, \<open>None\<close> is a fatal alert.
\<close>

function alpn_select_from :: "bytes list \<Rightarrow> bytes \<Rightarrow> nat \<Rightarrow> bytes option" where
  "alpn_select_from offered inp i =
     (if i + 1 \<le> length inp then
        (let n = unat (inp ! i)
         in if i + 1 + n > length inp then None
            else
              let name = take n (drop (i + 1) inp)
              in if name \<in> set offered then Some name
                 else alpn_select_from offered inp (i + 1 + n))
      else None)"
  by pat_completeness auto
termination
  by (relation "measure (\<lambda>(offered, inp, i). length inp - i)") auto

declare alpn_select_from.simps [simp del]

definition alpn_select :: "bytes list \<Rightarrow> bytes \<Rightarrow> bytes option" where
  "alpn_select offered inp = alpn_select_from offered inp 0"

definition alpn_wire :: "bytes list \<Rightarrow> bytes" where
  "alpn_wire names = concat (map (\<lambda>n. of_nat (length n) # n) names)"

lemma alpn_select_at:
  assumes "drop i inp = alpn_wire names" and "list_all (\<lambda>n. length n < 256) names"
  shows "alpn_select_from offered inp i = find (\<lambda>n. n \<in> set offered) names"
  using assms
proof (induction names arbitrary: i)
  case Nil
  then have "length inp \<le> i" by (simp add: alpn_wire_def)
  then show ?case by (subst alpn_select_from.simps) simp
next
  case (Cons n names)
  let ?r = "alpn_wire names"
  have d: "drop i inp = (of_nat (length n) # n) @ ?r" using Cons.prems(1) by (simp add: alpn_wire_def)
  have l: "length inp = i + (1 + length n + length ?r)"
    using cursor_length [OF d] by simp
  have n: "unat (inp ! i) = length n"
    using nth_drop_0 [of i inp] d Cons.prems(2) by (simp add: unat_of_nat_byte)
  have "drop (i + 1) inp = n @ ?r" using drop_add_append [of i inp "[of_nat (length n)]"] d by simp
  then have t: "take (length n) (drop (i + 1) inp) = n" by simp
  have nxt: "drop (i + 1 + length n) inp = ?r"
    using drop_add_append [OF d] by (simp add: add.commute)
  show ?case
    using Cons.IH [OF nxt] Cons.prems(2) n t l
    by (subst alpn_select_from.simps) (simp add: Let_def)
qed

text \<open>
  C37. On a well-formed list the server selects the first of the client's protocols that it offers, and
  refuses when it offers none of them.
\<close>

theorem alpn_selects_first_offered:
  assumes "list_all (\<lambda>n. length n < 256) names"
  shows "alpn_select offered (alpn_wire names) = find (\<lambda>n. n \<in> set offered) names"
  using alpn_select_at [of 0 "alpn_wire names"] assms by (simp add: alpn_select_def)

theorem alpn_selects_first_offered_witness:
  "alpn_select [[104, 51]] (alpn_wire [[104, 50], [104, 51]]) = Some [104, 51]"
  using alpn_selects_first_offered [of "[[104, 50], [104, 51]]" "[[104, 51]]"] by simp

section \<open>CRYPTO bytes reach the engine in order\<close>

definition tls_in_ok :: "tls_connection \<Rightarrow> bool" where
  "tls_in_ok s \<longleftrightarrow> (\<forall>l. ti_read_cursor (tls_in s l) \<le> length (ti_data (tls_in s l)))"

text \<open>What the engine has taken at a level.\<close>

definition tls_taken :: "enc_level \<Rightarrow> tls_connection \<Rightarrow> bytes" where
  "tls_taken l s = take (ti_read_cursor (tls_in s l)) (ti_data (tls_in s l))"

lemma deliver_crypto_in:
  assumes "tls_in_ok s"
  shows "tls_in_ok (deliver_crypto l d s)" and "tls_taken l' (deliver_crypto l d s) = tls_taken l' s"
    and "ti_data (tls_in (deliver_crypto l d s) l') =
      ti_data (tls_in s l') @ (if l' = l then d else [])"
  using assms by (auto simp: deliver_crypto_def tls_in_ok_def tls_taken_def Let_def intro: trans_le_add1)

lemma first_unread_SomeD:
  "first_unread ls s = Some l \<Longrightarrow> ti_read_cursor (tls_in s l) < length (ti_data (tls_in s l))"
  by (induction ls) (auto split: if_splits)

lemma on_crypto_release_in:
  assumes "tls_in_ok s"
  shows "tls_in_ok (on_crypto_release n s) \<and> ti_data (tls_in (on_crypto_release n s) l) = ti_data (tls_in s l)
    \<and> (\<exists>k. tls_taken l (on_crypto_release n s) = tls_taken l s @ take k (on_crypto_recv s))"
proof (cases "first_unread all_levels s")
  case None
  then show ?thesis using assms by (simp add: on_crypto_release_def)
next
  case (Some l0)
  note less = first_unread_SomeD [OF Some]
  let ?c = "ti_read_cursor (tls_in s l0)" and ?d = "ti_data (tls_in s l0)"
  let ?k = "min n (length ?d - ?c)"
  have "take (?c + ?k) ?d = take ?c ?d @ take ?k (drop ?c ?d)" by (rule take_add)
  moreover have "?c + ?k \<le> length ?d" using less by simp
  moreover have "\<exists>k. tls_taken l s = tls_taken l s @ take k (on_crypto_recv s)" by (rule exI [of _ 0]) simp
  ultimately show ?thesis
    using assms Some
    by (auto simp: on_crypto_release_def on_crypto_recv_def tls_in_ok_def tls_taken_def Let_def)
qed

lemma other_calls_in:
  "tls_in (on_crypto_send d s) = tls_in s" "tls_in (on_yield_secret a b c e s) = tls_in s"
  "tls_in (on_got_transport_params p r s) = tls_in s" "tls_in (on_alert code s) = tls_in s"
  "tls_in (set_state_from_handshake_result r' s) = tls_in s"
  "tls_in (refresh_negotiated_aead ci s) = tls_in s"
  by (auto simp: on_crypto_send_def on_yield_secret_def on_got_transport_params_def on_alert_def
      set_state_from_handshake_result_def refresh_negotiated_aead_def Let_def split: option.splits)

lemma tls_call_in:
  assumes "tls_in_ok s"
  shows "tls_in_ok (tls_call c s) \<and> ti_data (tls_in (tls_call c s) l) = ti_data (tls_in s l)"
proof (cases c)
  case (CryptoRelease n)
  then show ?thesis using on_crypto_release_in [OF assms, of n l] by simp
qed (use assms in \<open>simp_all add: other_calls_in tls_in_ok_def\<close>)

lemma tls_advance_in:
  assumes "tls_in_ok s"
  shows "tls_in_ok (tls_advance r s) \<and> ti_data (tls_in (tls_advance r s) l) = ti_data (tls_in s l)"
proof -
  have "tls_in_ok (fold tls_call cs t) \<and> ti_data (tls_in (fold tls_call cs t) l) = ti_data (tls_in t l)"
    if "tls_in_ok t" for cs t
    using that
  proof (induction cs arbitrary: t)
    case (Cons c cs)
    with tls_call_in [of t c l] Cons.IH [of "tls_call c t"] show ?case by simp
  qed simp
  from this [OF assms] show ?thesis
    using assms by (auto simp: tls_advance_def Let_def other_calls_in tls_in_ok_def)
qed

end
