(* ===== verification/OrdMap.thy ===== *)
theory OrdMap
  imports Prelude
begin

text \<open>
  \<open>std::map\<close> with integer keys, as an association list in ascending key order: iteration order is
  list order. The operations are those the sources use, with the laws of a finite map.
\<close>

type_synonym 'v omap = "(nat \<times> 'v) list"

definition om_wf :: "'v omap \<Rightarrow> bool" where
  "om_wf m \<longleftrightarrow> sorted_wrt (<) (map fst m)"

text \<open>\<open>find\<close> is \<open>map_of\<close>. \<open>operator[]\<close> with assignment replaces or inserts.\<close>

fun om_set :: "nat \<Rightarrow> 'v \<Rightarrow> 'v omap \<Rightarrow> 'v omap" where
  "om_set k v [] = [(k, v)]"
| "om_set k v ((k', v') # m) =
     (if k < k' then (k, v) # (k', v') # m
      else if k = k' then (k, v) # m
      else (k', v') # om_set k v m)"

text \<open>\<open>emplace\<close> keeps an entry that is present.\<close>

definition om_emplace :: "nat \<Rightarrow> 'v \<Rightarrow> 'v omap \<Rightarrow> 'v omap" where
  "om_emplace k v m = (if map_of m k = None then om_set k v m else m)"

definition om_erase :: "nat \<Rightarrow> 'v omap \<Rightarrow> 'v omap" where
  "om_erase k m = filter (\<lambda>e. fst e \<noteq> k) m"

lemma om_wf_Nil [simp]: "om_wf []"
  by (simp add: om_wf_def)

lemma om_wf_Cons: "om_wf (e # m) \<longleftrightarrow> (\<forall>x \<in> set m. fst e < fst x) \<and> om_wf m"
  by (auto simp: om_wf_def)

lemma om_wf_filter: "om_wf m \<Longrightarrow> om_wf (filter P m)"
  by (induction m) (auto simp: om_wf_Cons)

lemma om_wf_tail_gt: "om_wf ((k', v') # m) \<Longrightarrow> map_of m k = Some w \<Longrightarrow> k' < k"
  by (drule map_of_SomeD) (force simp: om_wf_Cons)

lemma keys_om_set: "fst ` set (om_set k v m) = insert k (fst ` set m)"
  by (induction k v m rule: om_set.induct) auto

lemma om_wf_set: "om_wf m \<Longrightarrow> om_wf (om_set k v m)"
proof (induction k v m rule: om_set.induct)
  case (2 k v k' v' m)
  have "\<forall>x \<in> set (om_set k v m). k' < fst x" if "k' < k"
    using that 2 keys_om_set [of k v m] unfolding om_wf_Cons by (metis fst_conv image_iff insert_iff)
  with 2 show ?case by (force simp: om_wf_Cons)
qed (simp add: om_wf_Cons)

lemma om_wf_emplace: "om_wf m \<Longrightarrow> om_wf (om_emplace k v m)"
  by (simp add: om_emplace_def om_wf_set)

lemma om_wf_erase: "om_wf m \<Longrightarrow> om_wf (om_erase k m)"
  by (simp add: om_erase_def om_wf_filter)

lemma map_of_om_set [simp]: "om_wf m \<Longrightarrow> map_of (om_set k v m) = (map_of m)(k \<mapsto> v)"
proof (induction m)
  case (Cons e m)
  obtain k' v' where e: "e = (k', v')" by (cases e)
  have "map_of m k = None" if "k < k'" using Cons.prems om_wf_tail_gt [of k' v' m k] that
    by (cases "map_of m k") (auto simp: e)
  with Cons show ?case by (auto simp: e om_wf_Cons)
qed simp

lemma map_of_om_erase [simp]: "map_of (om_erase k m) = (map_of m)(k := None)"
  by (rule ext) (induction m, auto simp: om_erase_def)

lemma om_set_map_fst: "map_of m k = Some w \<Longrightarrow> om_wf m \<Longrightarrow> map fst (om_set k v m) = map fst m"
  by (induction m) (auto simp: om_wf_Cons dest!: map_of_SomeD split: if_splits)

text \<open>A sum over the values, and what an update does to it.\<close>

definition om_sum :: "('v \<Rightarrow> nat) \<Rightarrow> 'v omap \<Rightarrow> nat" where
  "om_sum f m = sum_list (map (\<lambda>e. f (snd e)) m)"

lemma om_sum_simps [simp]: "om_sum f [] = 0" "om_sum f ((k, v) # m) = f v + om_sum f m"
  by (simp_all add: om_sum_def)

lemma om_sum_insert: "map_of m k = None \<Longrightarrow> om_sum f (om_set k v m) = om_sum f m + f v"
  by (induction k v m rule: om_set.induct) (auto split: if_splits)

lemma om_sum_update:
  assumes "om_wf m" and "map_of m k = Some w"
  shows "om_sum f (om_set k v m) + f w = om_sum f m + f v"
  using assms
proof (induction m)
  case (Cons e m)
  obtain k' v' where e: "e = (k', v')" by (cases e)
  show ?case
  proof (cases "k = k'")
    case True
    with Cons.prems show ?thesis by (simp add: e)
  next
    case False
    with Cons.prems have m: "map_of m k = Some w" "om_wf m" by (auto simp: e om_wf_Cons)
    then have "k' < k" using Cons.prems(1) om_wf_tail_gt [of k' v' m k w] by (simp add: e)
    then show ?thesis using Cons.IH [OF m(2,1)] by (simp add: e)
  qed
qed simp

lemma om_sum_member: "map_of m k = Some w \<Longrightarrow> f w \<le> om_sum f m"
  by (induction m) (auto split: if_splits)

lemma om_sum_split: "om_sum f m = om_sum f (filter P m) + om_sum f (filter (\<lambda>e. \<not> P e) m)"
  by (induction m) auto

lemma om_sum_erase:
  "om_wf m \<Longrightarrow> map_of m k = Some v \<Longrightarrow> om_sum f (om_erase k m) + f v = om_sum f m"
proof (induction m)
  case (Cons e m)
  obtain k' v' where e: "e = (k', v')" by (cases e)
  show ?case
  proof (cases "k' = k")
    case True
    then have "om_erase k m = m"
      using Cons.prems(1) by (auto simp: e om_wf_Cons om_erase_def filter_id_conv)
    then show ?thesis using Cons.prems True by (simp add: e om_erase_def)
  qed (use Cons in \<open>auto simp: e om_wf_Cons om_erase_def\<close>)
qed simp

lemma om_wf_distinct: "om_wf m \<Longrightarrow> distinct (map fst m)"
  by (induction m) (auto simp: om_wf_Cons)

lemma om_wf_members: "om_wf m \<Longrightarrow> (k, v) \<in> set m \<Longrightarrow> map_of m k = Some v"
  by (simp add: om_wf_distinct)

lemma om_sum_mono:
  assumes "om_wf m" and "\<And>k v. map_of m k = Some v \<Longrightarrow> f v \<le> g v"
  shows "om_sum f m \<le> om_sum g m"
  unfolding om_sum_def
proof (rule sum_list_mono)
  fix e assume "e \<in> set m"
  then show "f (snd e) \<le> g (snd e)"
    using om_wf_members [OF assms(1), of "fst e" "snd e"] assms(2) by simp
qed

lemma om_sum_erase_le: "om_sum f (om_erase k m) \<le> om_sum f m"
  by (induction m) (auto simp: om_erase_def)

end
