(* ===== verification/Frame.thy ===== *)
theory Frame
  imports VarInt
begin

text \<open>
  The QUIC frame codec: \<open>example/quic-http3/include/libspaznet/quic/frame.hpp\<close> (the frame structs and
  their \<open>std::variant\<close>) and \<open>example/quic-http3/src/quic/frame.cpp\<close> (\<open>parse_frame\<close>,
  \<open>parse_frames\<close>, \<open>encode_frame\<close>, \<open>is_ack_eliciting\<close>). A parser that returns \<open>false\<close> is \<open>None\<close>
  (the source then restores the offset); an encoder that throws is \<open>None\<close>. The theory proves that
  parsing makes progress, terminates, stays inside the buffer and inverts the encoder, frame by
  frame and for whole payloads.
\<close>

section \<open>Data\<close>

record ack_range =
  ar_gap :: nat
  ar_length :: nat

record ack_frame =
  ack_largest_acked :: nat
  ack_delay :: nat
  ack_first_range :: nat
  ack_ranges :: "ack_range list"
  ack_ecn :: bool
  ack_ect0 :: nat
  ack_ect1 :: nat
  ack_ce :: nat

record stream_frame =
  sf_stream_id :: nat
  sf_offset :: nat
  sf_has_length :: bool
  sf_fin :: bool
  sf_data :: bytes

record new_connection_id_frame =
  ncid_sequence_number :: nat
  ncid_retire_prior_to :: nat
  ncid_connection_id :: bytes
  ncid_stateless_reset_token :: bytes

record connection_close_frame =
  cc_application :: bool
  cc_error_code :: nat
  cc_frame_type :: nat
  cc_reason :: bytes

datatype frame =
    PaddingFrame (padding_count: nat)
  | PingFrame
  | AckFrame ack_frame
  | ResetStreamFrame (rs_stream_id: nat) (rs_app_error: nat) (rs_final_size: nat)
  | StopSendingFrame (ss_stream_id: nat) (ss_app_error: nat)
  | CryptoFrame (crypto_offset: nat) (crypto_data: bytes)
  | NewTokenFrame (nt_token: bytes)
  | StreamFrame stream_frame
  | MaxDataFrame (md_maximum: nat)
  | MaxStreamDataFrame (msd_stream_id: nat) (msd_maximum: nat)
  | MaxStreamsFrame (ms_bidi: bool) (ms_maximum: nat)
  | DataBlockedFrame (db_limit: nat)
  | StreamDataBlockedFrame (sdb_stream_id: nat) (sdb_limit: nat)
  | StreamsBlockedFrame (sb_bidi: bool) (sb_limit: nat)
  | NewConnectionIdFrame new_connection_id_frame
  | RetireConnectionIdFrame (rcid_sequence_number: nat)
  | PathChallengeFrame (pc_data: bytes)
  | PathResponseFrame (pr_data: bytes)
  | ConnectionCloseFrame connection_close_frame
  | HandshakeDoneFrame

text \<open>The enumeration \<open>FrameType\<close>.\<close>

definition FT_Padding :: nat where "FT_Padding = 0x00"
definition FT_Ping :: nat where "FT_Ping = 0x01"
definition FT_Ack :: nat where "FT_Ack = 0x02"
definition FT_AckEcn :: nat where "FT_AckEcn = 0x03"
definition FT_ResetStream :: nat where "FT_ResetStream = 0x04"
definition FT_StopSending :: nat where "FT_StopSending = 0x05"
definition FT_Crypto :: nat where "FT_Crypto = 0x06"
definition FT_NewToken :: nat where "FT_NewToken = 0x07"
definition FT_MaxData :: nat where "FT_MaxData = 0x10"
definition FT_MaxStreamData :: nat where "FT_MaxStreamData = 0x11"
definition FT_MaxStreamsBidi :: nat where "FT_MaxStreamsBidi = 0x12"
definition FT_MaxStreamsUni :: nat where "FT_MaxStreamsUni = 0x13"
definition FT_DataBlocked :: nat where "FT_DataBlocked = 0x14"
definition FT_StreamDataBlocked :: nat where "FT_StreamDataBlocked = 0x15"
definition FT_StreamsBlockedBidi :: nat where "FT_StreamsBlockedBidi = 0x16"
definition FT_StreamsBlockedUni :: nat where "FT_StreamsBlockedUni = 0x17"
definition FT_NewConnectionId :: nat where "FT_NewConnectionId = 0x18"
definition FT_RetireConnectionId :: nat where "FT_RetireConnectionId = 0x19"
definition FT_PathChallenge :: nat where "FT_PathChallenge = 0x1a"
definition FT_PathResponse :: nat where "FT_PathResponse = 0x1b"
definition FT_ConnectionCloseTransport :: nat where "FT_ConnectionCloseTransport = 0x1c"
definition FT_ConnectionCloseApplication :: nat where "FT_ConnectionCloseApplication = 0x1d"
definition FT_HandshakeDone :: nat where "FT_HandshakeDone = 0x1e"

lemmas FT_defs = FT_Padding_def FT_Ping_def FT_Ack_def FT_AckEcn_def FT_ResetStream_def
  FT_StopSending_def FT_Crypto_def FT_NewToken_def FT_MaxData_def FT_MaxStreamData_def
  FT_MaxStreamsBidi_def FT_MaxStreamsUni_def FT_DataBlocked_def FT_StreamDataBlocked_def
  FT_StreamsBlockedBidi_def FT_StreamsBlockedUni_def FT_NewConnectionId_def
  FT_RetireConnectionId_def FT_PathChallenge_def FT_PathResponse_def
  FT_ConnectionCloseTransport_def FT_ConnectionCloseApplication_def FT_HandshakeDone_def

definition kStreamTypeMask :: nat where "kStreamTypeMask = 0xF8"
definition kStreamBaseType :: nat where "kStreamBaseType = 0x08"
definition kStreamOffBit :: nat where "kStreamOffBit = 0x04"
definition kStreamLenBit :: nat where "kStreamLenBit = 0x02"
definition kStreamFinBit :: nat where "kStreamFinBit = 0x01"

lemmas stream_bit_defs = kStreamTypeMask_def kStreamBaseType_def kStreamOffBit_def
  kStreamLenBit_def kStreamFinBit_def

section \<open>Parsing\<close>

abbreviation read_varint :: "bytes \<Rightarrow> nat \<Rightarrow> (nat \<times> nat) option" where
  "read_varint \<equiv> varint_decode"

definition read_bytes :: "bytes \<Rightarrow> nat \<Rightarrow> nat \<Rightarrow> (bytes \<times> nat) option" where
  "read_bytes buf off n =
     (if off + n > length buf then None else Some (take n (drop off buf), off + n))"

text \<open>The padding loop: \<open>while (offset < buf.size() && buf[offset] == 0)\<close>.\<close>

function padding_run :: "bytes \<Rightarrow> nat \<Rightarrow> nat \<Rightarrow> nat \<times> nat" where
  "padding_run buf offset count =
     (if offset < length buf \<and> buf ! offset = 0
      then padding_run buf (Suc offset) (Suc count) else (count, offset))"
  by pat_completeness auto
termination
  by (relation "measure (\<lambda>(buf, offset, count). length buf - offset)") auto

declare padding_run.simps [simp del]

text \<open>The loop over the additional ranges of an ACK frame.\<close>

fun parse_ack_ranges :: "bytes \<Rightarrow> nat \<Rightarrow> nat \<Rightarrow> (ack_range list \<times> nat) option" where
  "parse_ack_ranges buf offset 0 = Some ([], offset)"
| "parse_ack_ranges buf offset (Suc n) = do {
     (g, offset) \<leftarrow> read_varint buf offset;
     (l, offset) \<leftarrow> read_varint buf offset;
     (rs, offset) \<leftarrow> parse_ack_ranges buf offset n;
     Some (\<lparr>ar_gap = g, ar_length = l\<rparr> # rs, offset)
   }"

definition parse_ack_frame :: "bytes \<Rightarrow> nat \<Rightarrow> bool \<Rightarrow> (frame \<times> nat) option" where
  "parse_ack_frame buf offset ecn = do {
     (largest_acked, offset) \<leftarrow> read_varint buf offset;
     (delay, offset) \<leftarrow> read_varint buf offset;
     (ack_range_count, offset) \<leftarrow> read_varint buf offset;
     (first_range, offset) \<leftarrow> read_varint buf offset;
     if ack_range_count > (length buf - offset) div 2 then None
     else do {
       (ranges, offset) \<leftarrow> parse_ack_ranges buf offset ack_range_count;
       if ecn then do {
         (e0, offset) \<leftarrow> read_varint buf offset;
         (e1, offset) \<leftarrow> read_varint buf offset;
         (ce, offset) \<leftarrow> read_varint buf offset;
         Some (AckFrame \<lparr>ack_largest_acked = largest_acked, ack_delay = delay,
           ack_first_range = first_range, ack_ranges = ranges, ack_ecn = True,
           ack_ect0 = e0, ack_ect1 = e1, ack_ce = ce\<rparr>, offset)
       }
       else Some (AckFrame \<lparr>ack_largest_acked = largest_acked, ack_delay = delay,
           ack_first_range = first_range, ack_ranges = ranges, ack_ecn = False,
           ack_ect0 = 0, ack_ect1 = 0, ack_ce = 0\<rparr>, offset)
     }
   }"

definition parse_stream_frame :: "bytes \<Rightarrow> nat \<Rightarrow> nat \<Rightarrow> (frame \<times> nat) option" where
  "parse_stream_frame buf offset type_raw =
     (let flags = of_nat type_raw :: byte;
          fin = (unat flags AND kStreamFinBit \<noteq> 0);
          has_off = (unat flags AND kStreamOffBit \<noteq> 0);
          has_length = (unat flags AND kStreamLenBit \<noteq> 0)
      in do {
        (stream_id, offset) \<leftarrow> read_varint buf offset;
        (off, offset) \<leftarrow> (if has_off then read_varint buf offset else Some (0, offset));
        (data_len, offset) \<leftarrow>
          (if has_length then read_varint buf offset else Some (length buf - offset, offset));
        (data, offset) \<leftarrow> read_bytes buf offset data_len;
        Some (StreamFrame \<lparr>sf_stream_id = stream_id, sf_offset = off,
          sf_has_length = has_length, sf_fin = fin, sf_data = data\<rparr>, offset)
      })"

definition parse_new_connection_id_frame :: "bytes \<Rightarrow> nat \<Rightarrow> (frame \<times> nat) option" where
  "parse_new_connection_id_frame buf offset = do {
     (sequence_number, offset) \<leftarrow> read_varint buf offset;
     (retire_prior_to, offset) \<leftarrow> read_varint buf offset;
     if offset \<ge> length buf then None
     else
       let cid_len = unat (buf ! offset); offset = offset + 1
       in if cid_len < 1 \<or> cid_len > 20 then None
          else do {
            (cid, offset) \<leftarrow> read_bytes buf offset cid_len;
            if offset + 16 > length buf then None
            else Some (NewConnectionIdFrame
              \<lparr>ncid_sequence_number = sequence_number, ncid_retire_prior_to = retire_prior_to,
               ncid_connection_id = cid,
               ncid_stateless_reset_token = take 16 (drop offset buf)\<rparr>, offset + 16)
          }
   }"

definition parse_connection_close_frame :: "bytes \<Rightarrow> nat \<Rightarrow> bool \<Rightarrow> (frame \<times> nat) option" where
  "parse_connection_close_frame buf offset application = do {
     (error_code, offset) \<leftarrow> read_varint buf offset;
     (frame_type, offset) \<leftarrow> (if \<not> application then read_varint buf offset else Some (0, offset));
     (reason_len, offset) \<leftarrow> read_varint buf offset;
     (reason, offset) \<leftarrow> read_bytes buf offset reason_len;
     Some (ConnectionCloseFrame \<lparr>cc_application = application, cc_error_code = error_code,
       cc_frame_type = frame_type, cc_reason = reason\<rparr>, offset)
   }"

text \<open>The frame types from MAX_DATA on.\<close>

definition parse_control_frame :: "bytes \<Rightarrow> nat \<Rightarrow> nat \<Rightarrow> (frame \<times> nat) option" where
  "parse_control_frame buf offset type_raw =
     (if type_raw = FT_MaxData then do {
        (maximum, offset) \<leftarrow> read_varint buf offset;
        Some (MaxDataFrame maximum, offset)
      }
      else if type_raw = FT_MaxStreamData then do {
        (stream_id, offset) \<leftarrow> read_varint buf offset;
        (maximum, offset) \<leftarrow> read_varint buf offset;
        Some (MaxStreamDataFrame stream_id maximum, offset)
      }
      else if type_raw = FT_MaxStreamsBidi \<or> type_raw = FT_MaxStreamsUni then do {
        (maximum, offset) \<leftarrow> read_varint buf offset;
        Some (MaxStreamsFrame (type_raw = FT_MaxStreamsBidi) maximum, offset)
      }
      else if type_raw = FT_DataBlocked then do {
        (limit, offset) \<leftarrow> read_varint buf offset;
        Some (DataBlockedFrame limit, offset)
      }
      else if type_raw = FT_StreamDataBlocked then do {
        (stream_id, offset) \<leftarrow> read_varint buf offset;
        (limit, offset) \<leftarrow> read_varint buf offset;
        Some (StreamDataBlockedFrame stream_id limit, offset)
      }
      else if type_raw = FT_StreamsBlockedBidi \<or> type_raw = FT_StreamsBlockedUni then do {
        (limit, offset) \<leftarrow> read_varint buf offset;
        Some (StreamsBlockedFrame (type_raw = FT_StreamsBlockedBidi) limit, offset)
      }
      else if type_raw = FT_NewConnectionId then parse_new_connection_id_frame buf offset
      else if type_raw = FT_RetireConnectionId then do {
        (sequence_number, offset) \<leftarrow> read_varint buf offset;
        Some (RetireConnectionIdFrame sequence_number, offset)
      }
      else if type_raw = FT_PathChallenge \<or> type_raw = FT_PathResponse then
        (if offset + 8 > length buf then None
         else if type_raw = FT_PathChallenge
         then Some (PathChallengeFrame (take 8 (drop offset buf)), offset + 8)
         else Some (PathResponseFrame (take 8 (drop offset buf)), offset + 8))
      else if type_raw = FT_ConnectionCloseTransport \<or> type_raw = FT_ConnectionCloseApplication
      then parse_connection_close_frame buf offset (type_raw = FT_ConnectionCloseApplication)
      else if type_raw = FT_HandshakeDone then Some (HandshakeDoneFrame, offset)
      else None)"

text \<open>The dispatch on the frame type that has just been read.\<close>

definition parse_frame_body :: "bytes \<Rightarrow> nat \<Rightarrow> nat \<Rightarrow> (frame \<times> nat) option" where
  "parse_frame_body buf offset type_raw =
     (if type_raw = FT_Padding then
        (let (count, offset) = padding_run buf offset 1 in Some (PaddingFrame count, offset))
      else if type_raw = FT_Ping then Some (PingFrame, offset)
      else if type_raw = FT_Ack \<or> type_raw = FT_AckEcn
      then parse_ack_frame buf offset (type_raw = FT_AckEcn)
      else if type_raw = FT_ResetStream then do {
        (stream_id, offset) \<leftarrow> read_varint buf offset;
        (app_error, offset) \<leftarrow> read_varint buf offset;
        (final_size, offset) \<leftarrow> read_varint buf offset;
        Some (ResetStreamFrame stream_id app_error final_size, offset)
      }
      else if type_raw = FT_StopSending then do {
        (stream_id, offset) \<leftarrow> read_varint buf offset;
        (app_error, offset) \<leftarrow> read_varint buf offset;
        Some (StopSendingFrame stream_id app_error, offset)
      }
      else if type_raw = FT_Crypto then do {
        (off, offset) \<leftarrow> read_varint buf offset;
        (len, offset) \<leftarrow> read_varint buf offset;
        (data, offset) \<leftarrow> read_bytes buf offset len;
        Some (CryptoFrame off data, offset)
      }
      else if type_raw = FT_NewToken then do {
        (len, offset) \<leftarrow> read_varint buf offset;
        (token, offset) \<leftarrow> read_bytes buf offset len;
        Some (NewTokenFrame token, offset)
      }
      else if type_raw AND kStreamTypeMask = kStreamBaseType
      then parse_stream_frame buf offset type_raw
      else parse_control_frame buf offset type_raw)"

definition parse_frame :: "bytes \<Rightarrow> nat \<Rightarrow> (frame \<times> nat) option" where
  "parse_frame buf offset =
     (if offset \<ge> length buf then None
      else do {
        (type_raw, offset) \<leftarrow> read_varint buf offset;
        parse_frame_body buf offset type_raw
      })"

section \<open>Encoding\<close>

definition write_type :: "bytes \<Rightarrow> nat \<Rightarrow> bytes option" where
  "write_type out t = varint_append out t"

fun encode_ack_ranges :: "bytes \<Rightarrow> ack_range list \<Rightarrow> bytes option" where
  "encode_ack_ranges out [] = Some out"
| "encode_ack_ranges out (r # rs) = do {
     out \<leftarrow> varint_append out (ar_gap r);
     out \<leftarrow> varint_append out (ar_length r);
     encode_ack_ranges out rs
   }"

definition encode_ack_frame :: "bytes \<Rightarrow> ack_frame \<Rightarrow> bytes option" where
  "encode_ack_frame out x = do {
     out \<leftarrow> write_type out (if ack_ecn x then FT_AckEcn else FT_Ack);
     out \<leftarrow> varint_append out (ack_largest_acked x);
     out \<leftarrow> varint_append out (ack_delay x);
     out \<leftarrow> varint_append out (length (ack_ranges x));
     out \<leftarrow> varint_append out (ack_first_range x);
     out \<leftarrow> encode_ack_ranges out (ack_ranges x);
     if ack_ecn x then do {
       out \<leftarrow> varint_append out (ack_ect0 x);
       out \<leftarrow> varint_append out (ack_ect1 x);
       varint_append out (ack_ce x)
     }
     else Some out
   }"

definition stream_type_byte :: "stream_frame \<Rightarrow> byte" where
  "stream_type_byte x =
     of_nat (kStreamBaseType OR kStreamLenBit
       OR (if sf_offset x \<noteq> 0 then kStreamOffBit else 0)
       OR (if sf_fin x then kStreamFinBit else 0))"

definition encode_stream_frame :: "bytes \<Rightarrow> stream_frame \<Rightarrow> bytes option" where
  "encode_stream_frame out x = do {
     let out = out @ [stream_type_byte x];
     out \<leftarrow> varint_append out (sf_stream_id x);
     out \<leftarrow> (if sf_offset x \<noteq> 0 then varint_append out (sf_offset x) else Some out);
     out \<leftarrow> varint_append out (length (sf_data x));
     Some (out @ sf_data x)
   }"

definition encode_connection_close_frame :: "bytes \<Rightarrow> connection_close_frame \<Rightarrow> bytes option"
  where
  "encode_connection_close_frame out x = do {
     out \<leftarrow> write_type out (if cc_application x then FT_ConnectionCloseApplication
                              else FT_ConnectionCloseTransport);
     out \<leftarrow> varint_append out (cc_error_code x);
     out \<leftarrow> (if \<not> cc_application x then varint_append out (cc_frame_type x) else Some out);
     out \<leftarrow> varint_append out (length (cc_reason x));
     Some (out @ cc_reason x)
   }"

fun encode_frame :: "bytes \<Rightarrow> frame \<Rightarrow> bytes option" where
  "encode_frame out (PaddingFrame count) = Some (out @ replicate count 0)"
| "encode_frame out PingFrame = write_type out FT_Ping"
| "encode_frame out (AckFrame x) = encode_ack_frame out x"
| "encode_frame out (ResetStreamFrame stream_id app_error final_size) = do {
     out \<leftarrow> write_type out FT_ResetStream;
     out \<leftarrow> varint_append out stream_id;
     out \<leftarrow> varint_append out app_error;
     varint_append out final_size
   }"
| "encode_frame out (StopSendingFrame stream_id app_error) = do {
     out \<leftarrow> write_type out FT_StopSending;
     out \<leftarrow> varint_append out stream_id;
     varint_append out app_error
   }"
| "encode_frame out (CryptoFrame off data) = do {
     out \<leftarrow> write_type out FT_Crypto;
     out \<leftarrow> varint_append out off;
     out \<leftarrow> varint_append out (length data);
     Some (out @ data)
   }"
| "encode_frame out (NewTokenFrame token) = do {
     out \<leftarrow> write_type out FT_NewToken;
     out \<leftarrow> varint_append out (length token);
     Some (out @ token)
   }"
| "encode_frame out (StreamFrame x) = encode_stream_frame out x"
| "encode_frame out (MaxDataFrame maximum) = do {
     out \<leftarrow> write_type out FT_MaxData;
     varint_append out maximum
   }"
| "encode_frame out (MaxStreamDataFrame stream_id maximum) = do {
     out \<leftarrow> write_type out FT_MaxStreamData;
     out \<leftarrow> varint_append out stream_id;
     varint_append out maximum
   }"
| "encode_frame out (MaxStreamsFrame bidi maximum) = do {
     out \<leftarrow> write_type out (if bidi then FT_MaxStreamsBidi else FT_MaxStreamsUni);
     varint_append out maximum
   }"
| "encode_frame out (DataBlockedFrame limit) = do {
     out \<leftarrow> write_type out FT_DataBlocked;
     varint_append out limit
   }"
| "encode_frame out (StreamDataBlockedFrame stream_id limit) = do {
     out \<leftarrow> write_type out FT_StreamDataBlocked;
     out \<leftarrow> varint_append out stream_id;
     varint_append out limit
   }"
| "encode_frame out (StreamsBlockedFrame bidi limit) = do {
     out \<leftarrow> write_type out (if bidi then FT_StreamsBlockedBidi else FT_StreamsBlockedUni);
     varint_append out limit
   }"
| "encode_frame out (NewConnectionIdFrame x) = do {
     out \<leftarrow> write_type out FT_NewConnectionId;
     out \<leftarrow> varint_append out (ncid_sequence_number x);
     out \<leftarrow> varint_append out (ncid_retire_prior_to x);
     Some (out @ [of_nat (length (ncid_connection_id x))] @ ncid_connection_id x
           @ ncid_stateless_reset_token x)
   }"
| "encode_frame out (RetireConnectionIdFrame sequence_number) = do {
     out \<leftarrow> write_type out FT_RetireConnectionId;
     varint_append out sequence_number
   }"
| "encode_frame out (PathChallengeFrame data) = do {
     out \<leftarrow> write_type out FT_PathChallenge;
     Some (out @ data)
   }"
| "encode_frame out (PathResponseFrame data) = do {
     out \<leftarrow> write_type out FT_PathResponse;
     Some (out @ data)
   }"
| "encode_frame out (ConnectionCloseFrame x) = encode_connection_close_frame out x"
| "encode_frame out HandshakeDoneFrame = write_type out FT_HandshakeDone"

fun is_ack_eliciting :: "frame \<Rightarrow> bool" where
  "is_ack_eliciting (PaddingFrame _) = False"
| "is_ack_eliciting (AckFrame _) = False"
| "is_ack_eliciting (ConnectionCloseFrame _) = False"
| "is_ack_eliciting _ = True"

section \<open>Progress and termination\<close>

lemmas read_varint_progress = varint.dec_progress

lemma read_bytes_SomeD:
  "read_bytes buf off n = Some (d, off') \<Longrightarrow>
     off' = off + n \<and> off' \<le> length buf \<and> d = take n (drop off buf) \<and> length d = n"
  by (auto simp: read_bytes_def split: if_splits)

lemma padding_run_progress:
  "padding_run buf off c = (c', off') \<Longrightarrow> off \<le> length buf \<Longrightarrow> off \<le> off' \<and> off' \<le> length buf"
proof (induction buf off c rule: padding_run.induct)
  case (1 buf off c)
  show ?case
  proof (cases "off < length buf \<and> buf ! off = 0")
    case True
    with "1.prems" have "padding_run buf (Suc off) (Suc c) = (c', off')"
      by (subst (asm) padding_run.simps) simp
    with "1.IH" [OF True] True show ?thesis by auto
  next
    case False
    with "1.prems" show ?thesis by (subst (asm) padding_run.simps) auto
  qed
qed

lemma parse_ack_ranges_progress:
  "parse_ack_ranges buf off n = Some (rs, off') \<Longrightarrow> off \<le> length buf \<Longrightarrow>
     off + 2 * n \<le> off' \<and> off' \<le> length buf \<and> length rs = n"
proof (induction n arbitrary: off rs)
  case 0
  then show ?case by simp
next
  case (Suc n)
  then obtain g o1 l o2 rs' where s: "read_varint buf off = Some (g, o1)"
    "read_varint buf o1 = Some (l, o2)" "parse_ack_ranges buf o2 n = Some (rs', off')"
    "rs = \<lparr>ar_gap = g, ar_length = l\<rparr> # rs'"
    by (auto simp: bind_eq_Some_conv)
  from Suc.IH [OF s(3)] read_varint_progress [OF s(1)] read_varint_progress [OF s(2)] s(4)
  show ?case by simp
qed

named_theorems frame_progress \<open>a sub-parser moves the cursor forward and stays in the buffer\<close>

lemma parse_ack_frame_progress [frame_progress]:
  "parse_ack_frame buf off e = Some (f, off') \<Longrightarrow> off \<le> off' \<and> off' \<le> length buf"
  by (auto simp: parse_ack_frame_def bind_eq_Some_conv split: if_splits
      dest!: parse_ack_ranges_progress read_varint_progress)

lemma parse_stream_frame_progress [frame_progress]:
  "parse_stream_frame buf off t = Some (f, off') \<Longrightarrow> off \<le> off' \<and> off' \<le> length buf"
  by (auto simp: parse_stream_frame_def Let_def bind_eq_Some_conv split: if_splits
      dest!: read_bytes_SomeD read_varint_progress)

lemma parse_new_connection_id_frame_progress [frame_progress]:
  "parse_new_connection_id_frame buf off = Some (f, off') \<Longrightarrow> off \<le> off' \<and> off' \<le> length buf"
  by (auto simp: parse_new_connection_id_frame_def Let_def bind_eq_Some_conv split: if_splits
      dest!: read_bytes_SomeD read_varint_progress)

lemma parse_connection_close_frame_progress [frame_progress]:
  "parse_connection_close_frame buf off a = Some (f, off') \<Longrightarrow> off \<le> off' \<and> off' \<le> length buf"
  by (auto simp: parse_connection_close_frame_def bind_eq_Some_conv split: if_splits
      dest!: read_bytes_SomeD read_varint_progress)

lemma parse_control_frame_progress [frame_progress]:
  "parse_control_frame buf off t = Some (f, off') \<Longrightarrow> off \<le> length buf \<Longrightarrow>
     off \<le> off' \<and> off' \<le> length buf"
  by (auto simp: parse_control_frame_def bind_eq_Some_conv split: if_splits
      dest!: read_varint_progress frame_progress)

lemma parse_frame_body_progress:
  "parse_frame_body buf off t = Some (f, off') \<Longrightarrow> off \<le> length buf \<Longrightarrow>
     off \<le> off' \<and> off' \<le> length buf"
  by (auto simp: parse_frame_body_def bind_eq_Some_conv split: if_splits prod.splits
      dest!: read_varint_progress read_bytes_SomeD padding_run_progress frame_progress)

lemma parse_frame_progress:
  assumes "parse_frame buf off = Some (f, off')"
  shows "off < off' \<and> off' \<le> length buf"
proof -
  from assms obtain t o1 where o1: "read_varint buf off = Some (t, o1)"
    and "parse_frame_body buf o1 t = Some (f, off')"
    by (auto simp: parse_frame_def bind_eq_Some_conv split: if_splits)
  then show ?thesis
    using read_varint_progress [OF o1] parse_frame_body_progress by fastforce
qed

text \<open>
  \<open>parse_frames\<close> loops over the payload; it terminates because every parsed frame consumes at
  least one byte.
\<close>

function parse_frames_from :: "bytes \<Rightarrow> nat \<Rightarrow> frame list option" where
  "parse_frames_from payload off =
     (if off < length payload then
        (case parse_frame payload off of
           None \<Rightarrow> None
         | Some (f, off') \<Rightarrow> map_option (\<lambda>fs. f # fs) (parse_frames_from payload off'))
      else Some [])"
  by pat_completeness auto
termination
proof (relation "measure (\<lambda>(payload, off). length payload - off)")
  fix payload :: bytes and off p f off'
  assume "off < length payload" and "parse_frame payload off = Some p" and "(f, off') = p"
  then have "off < off'" using parse_frame_progress [of payload off f off'] by simp
  with \<open>off < length payload\<close>
  show "((payload, off'), (payload, off)) \<in> measure (\<lambda>(payload, off). length payload - off)"
    by simp
qed simp

declare parse_frames_from.simps [simp del]

definition parse_frames :: "bytes \<Rightarrow> frame list option" where
  "parse_frames payload = parse_frames_from payload 0"

section \<open>Round trip\<close>

definition range_ok :: "ack_range \<Rightarrow> bool" where
  "range_ok r \<longleftrightarrow> ar_gap r \<le> kMax \<and> ar_length r \<le> kMax"

text \<open>
  The frames the encoder can represent: every integer fits a varint, fixed-size arrays have their
  size, and fields that are not on the wire have the value the parser gives them.
\<close>

fun frame_ok :: "frame \<Rightarrow> bool" where
  "frame_ok (PaddingFrame count) \<longleftrightarrow> 1 \<le> count"
| "frame_ok PingFrame \<longleftrightarrow> True"
| "frame_ok (AckFrame x) \<longleftrightarrow> ack_largest_acked x \<le> kMax \<and> ack_delay x \<le> kMax
     \<and> ack_first_range x \<le> kMax \<and> length (ack_ranges x) \<le> kMax
     \<and> list_all range_ok (ack_ranges x)
     \<and> (if ack_ecn x then ack_ect0 x \<le> kMax \<and> ack_ect1 x \<le> kMax \<and> ack_ce x \<le> kMax
        else ack_ect0 x = 0 \<and> ack_ect1 x = 0 \<and> ack_ce x = 0)"
| "frame_ok (ResetStreamFrame a b c) \<longleftrightarrow> a \<le> kMax \<and> b \<le> kMax \<and> c \<le> kMax"
| "frame_ok (StopSendingFrame a b) \<longleftrightarrow> a \<le> kMax \<and> b \<le> kMax"
| "frame_ok (CryptoFrame a d) \<longleftrightarrow> a \<le> kMax \<and> length d \<le> kMax"
| "frame_ok (NewTokenFrame d) \<longleftrightarrow> length d \<le> kMax"
| "frame_ok (StreamFrame x) \<longleftrightarrow> sf_stream_id x \<le> kMax \<and> sf_offset x \<le> kMax
     \<and> sf_has_length x \<and> length (sf_data x) \<le> kMax"
| "frame_ok (MaxDataFrame a) \<longleftrightarrow> a \<le> kMax"
| "frame_ok (MaxStreamDataFrame a b) \<longleftrightarrow> a \<le> kMax \<and> b \<le> kMax"
| "frame_ok (MaxStreamsFrame _ a) \<longleftrightarrow> a \<le> kMax"
| "frame_ok (DataBlockedFrame a) \<longleftrightarrow> a \<le> kMax"
| "frame_ok (StreamDataBlockedFrame a b) \<longleftrightarrow> a \<le> kMax \<and> b \<le> kMax"
| "frame_ok (StreamsBlockedFrame _ a) \<longleftrightarrow> a \<le> kMax"
| "frame_ok (NewConnectionIdFrame x) \<longleftrightarrow> ncid_sequence_number x \<le> kMax
     \<and> ncid_retire_prior_to x \<le> kMax \<and> 1 \<le> length (ncid_connection_id x)
     \<and> length (ncid_connection_id x) \<le> 20 \<and> length (ncid_stateless_reset_token x) = 16"
| "frame_ok (RetireConnectionIdFrame a) \<longleftrightarrow> a \<le> kMax"
| "frame_ok (PathChallengeFrame d) \<longleftrightarrow> length d = 8"
| "frame_ok (PathResponseFrame d) \<longleftrightarrow> length d = 8"
| "frame_ok (ConnectionCloseFrame x) \<longleftrightarrow> cc_error_code x \<le> kMax \<and> cc_frame_type x \<le> kMax
     \<and> (cc_application x \<longrightarrow> cc_frame_type x = 0) \<and> length (cc_reason x) \<le> kMax"
| "frame_ok HandshakeDoneFrame \<longleftrightarrow> True"

text \<open>A padding run absorbs the zero bytes that follow it; every other frame is self-delimiting.\<close>

fun frame_follow :: "frame \<Rightarrow> bytes \<Rightarrow> bool" where
  "frame_follow (PaddingFrame _) rest \<longleftrightarrow> rest = [] \<or> hd rest \<noteq> 0"
| "frame_follow _ rest \<longleftrightarrow> True"

definition range_bytes :: "ack_range \<Rightarrow> bytes" where
  "range_bytes r = vbytes (ar_gap r) @ vbytes (ar_length r)"

lemma encode_ack_ranges_bytes [wire_simps]:
  "list_all range_ok rs \<Longrightarrow> encode_ack_ranges out rs = Some (out @ concat (map range_bytes rs))"
  by (induction rs arbitrary: out)
    (auto simp: range_ok_def range_bytes_def varint_append_vbytes)

lemma range_bytes_length:
  "list_all range_ok rs \<Longrightarrow> 2 * length rs \<le> length (concat (map range_bytes rs))"
proof (induction rs)
  case Nil
  then show ?case by simp
next
  case (Cons r rs)
  then have "2 \<le> length (range_bytes r)"
    using vbytes_nonempty [of "ar_gap r"] vbytes_nonempty [of "ar_length r"]
    by (simp add: range_ok_def range_bytes_def)
  with Cons show ?case by simp
qed

lemma parse_ack_ranges_bytes:
  "list_all range_ok rs \<Longrightarrow> drop off buf = concat (map range_bytes rs) @ rest \<Longrightarrow>
     parse_ack_ranges buf off (length rs) =
       Some (rs, off + length (concat (map range_bytes rs)))"
proof (induction rs arbitrary: off)
  case Nil
  then show ?case by simp
next
  case (Cons r rs)
  then have "range_ok r" and ok3: "list_all range_ok rs" by simp_all
  then have ok: "ar_gap r \<le> kMax" "ar_length r \<le> kMax" by (simp_all add: range_ok_def)
  let ?tail = "concat (map range_bytes rs) @ rest"
  have d0: "drop off buf = vbytes (ar_gap r) @ vbytes (ar_length r) @ ?tail"
    using Cons.prems(2) by (simp add: range_bytes_def [of r])
  note d1 = drop_add_append [OF d0]
  note d2 = drop_add_append [OF d1]
  show ?case
    using varint_roundtrip_at [OF ok(1) d0] varint_roundtrip_at [OF ok(2) d1]
      Cons.IH [OF ok3 d2]
    by (simp add: range_bytes_def [of r] add.assoc)
qed

lemma read_bytes_at:
  assumes "drop off buf = d @ rest" and "off \<le> length buf"
  shows "read_bytes buf off (length d) = Some (d, off + length d)"
proof -
  have "length buf - off = length d + length rest"
    using assms(1) by (metis length_append length_drop)
  then show ?thesis using assms by (simp add: read_bytes_def)
qed

text \<open>The wire image of a frame, as RFC 9000 section 19 lays it out.\<close>

fun frame_wire :: "frame \<Rightarrow> bytes" where
  "frame_wire (PaddingFrame count) = replicate count 0"
| "frame_wire PingFrame = vbytes FT_Ping"
| "frame_wire (AckFrame x) =
     vbytes (if ack_ecn x then FT_AckEcn else FT_Ack) @ vbytes (ack_largest_acked x)
     @ vbytes (ack_delay x) @ vbytes (length (ack_ranges x)) @ vbytes (ack_first_range x)
     @ concat (map range_bytes (ack_ranges x))
     @ (if ack_ecn x then vbytes (ack_ect0 x) @ vbytes (ack_ect1 x) @ vbytes (ack_ce x) else [])"
| "frame_wire (ResetStreamFrame a b c) = vbytes FT_ResetStream @ vbytes a @ vbytes b @ vbytes c"
| "frame_wire (StopSendingFrame a b) = vbytes FT_StopSending @ vbytes a @ vbytes b"
| "frame_wire (CryptoFrame a d) = vbytes FT_Crypto @ vbytes a @ vbytes (length d) @ d"
| "frame_wire (NewTokenFrame d) = vbytes FT_NewToken @ vbytes (length d) @ d"
| "frame_wire (StreamFrame x) =
     stream_type_byte x # vbytes (sf_stream_id x)
     @ (if sf_offset x \<noteq> 0 then vbytes (sf_offset x) else [])
     @ vbytes (length (sf_data x)) @ sf_data x"
| "frame_wire (MaxDataFrame a) = vbytes FT_MaxData @ vbytes a"
| "frame_wire (MaxStreamDataFrame a b) = vbytes FT_MaxStreamData @ vbytes a @ vbytes b"
| "frame_wire (MaxStreamsFrame bidi a) =
     vbytes (if bidi then FT_MaxStreamsBidi else FT_MaxStreamsUni) @ vbytes a"
| "frame_wire (DataBlockedFrame a) = vbytes FT_DataBlocked @ vbytes a"
| "frame_wire (StreamDataBlockedFrame a b) = vbytes FT_StreamDataBlocked @ vbytes a @ vbytes b"
| "frame_wire (StreamsBlockedFrame bidi a) =
     vbytes (if bidi then FT_StreamsBlockedBidi else FT_StreamsBlockedUni) @ vbytes a"
| "frame_wire (NewConnectionIdFrame x) =
     vbytes FT_NewConnectionId @ vbytes (ncid_sequence_number x) @ vbytes (ncid_retire_prior_to x)
     @ [of_nat (length (ncid_connection_id x))] @ ncid_connection_id x
     @ ncid_stateless_reset_token x"
| "frame_wire (RetireConnectionIdFrame a) = vbytes FT_RetireConnectionId @ vbytes a"
| "frame_wire (PathChallengeFrame d) = vbytes FT_PathChallenge @ d"
| "frame_wire (PathResponseFrame d) = vbytes FT_PathResponse @ d"
| "frame_wire (ConnectionCloseFrame x) =
     vbytes (if cc_application x then FT_ConnectionCloseApplication
             else FT_ConnectionCloseTransport)
     @ vbytes (cc_error_code x) @ (if cc_application x then [] else vbytes (cc_frame_type x))
     @ vbytes (length (cc_reason x)) @ cc_reason x"
| "frame_wire HandshakeDoneFrame = vbytes FT_HandshakeDone"

lemma FT_small: "t \<le> 0x1e \<Longrightarrow> t \<le> kMax"
  by (simp add: kMax_eq)

lemma write_type_wire [wire_simps]: "t \<le> 0x1e \<Longrightarrow> write_type out t = Some (out @ vbytes t)"
  by (simp add: write_type_def varint_append_vbytes FT_small)

lemma encode_frame_wire: "frame_ok f \<Longrightarrow> encode_frame out f = Some (out @ frame_wire f)"
  by (cases f)
    (auto simp: encode_ack_frame_def encode_stream_frame_def encode_connection_close_frame_def
      FT_defs wire_simps)

lemma parse_frame_type:
  assumes "t \<le> kMax"
  shows "parse_frame (pre @ vbytes t @ rest) (length pre) =
    parse_frame_body (pre @ vbytes t @ rest) (length pre + length (vbytes t)) t"
  using assms by (simp add: parse_frame_def varint_run)

lemmas frame_run = parse_frame_type FT_small FT_defs parse_frame_body_def varint_run
  parse_control_frame_def read_bytes_def stream_bit_defs

text \<open>Frames whose layout is a sequence of varints and byte strings.\<close>

lemma parse_simple_wire:
  assumes "frame_ok f" and "\<not> is_PaddingFrame f" "\<not> is_AckFrame f" "\<not> is_StreamFrame f"
    "\<not> is_NewConnectionIdFrame f" "\<not> is_ConnectionCloseFrame f"
  shows "parse_frame (pre @ frame_wire f @ rest) (length pre) =
    Some (f, length pre + length (frame_wire f))"
  using assms by (cases f) (simp_all add: frame_run)

lemma parse_connection_close_wire:
  assumes "frame_ok (ConnectionCloseFrame x)"
  shows "parse_frame (pre @ frame_wire (ConnectionCloseFrame x) @ rest) (length pre) =
    Some (ConnectionCloseFrame x, length pre + length (frame_wire (ConnectionCloseFrame x)))"
  using assms by (simp add: frame_run parse_connection_close_frame_def)

lemma parse_new_connection_id_wire:
  assumes "frame_ok (NewConnectionIdFrame x)"
  shows "parse_frame (pre @ frame_wire (NewConnectionIdFrame x) @ rest) (length pre) =
    Some (NewConnectionIdFrame x, length pre + length (frame_wire (NewConnectionIdFrame x)))"
proof -
  have "ncid_connection_id x \<noteq> []" using assms by auto
  with assms show ?thesis
    by (simp add: frame_run parse_new_connection_id_frame_def unat_of_nat_byte nth_append Let_def)
qed

lemma parse_ack_wire:
  assumes "frame_ok (AckFrame x)"
  shows "parse_frame (pre @ frame_wire (AckFrame x) @ rest) (length pre) =
    Some (AckFrame x, length pre + length (frame_wire (AckFrame x)))"
proof -
  let ?rs = "concat (map range_bytes (ack_ranges x))"
  from assms have ok: "list_all range_ok (ack_ranges x)" by simp
  note len = range_bytes_length [OF ok]
  have ranges: "parse_ack_ranges (p @ a @ b @ c @ d @ e @ ?rs @ r)
      (length p + length a + length b + length c + length d + length e) (length (ack_ranges x)) =
      Some (ack_ranges x, length p + length a + length b + length c + length d + length e
        + length ?rs)" for p a b c d e r
    by (rule parse_ack_ranges_bytes [OF ok]) simp
  show ?thesis
  proof (cases "ack_ecn x")
    case True
    with assms len show ?thesis by (simp add: frame_run parse_ack_frame_def ranges)
  next
    case False
    with assms len show ?thesis by (simp add: frame_run parse_ack_frame_def ranges)
  qed
qed

lemma parse_stream_wire:
  assumes "frame_ok (StreamFrame x)"
  shows "parse_frame (pre @ frame_wire (StreamFrame x) @ rest) (length pre) =
    Some (StreamFrame x, length pre + length (frame_wire (StreamFrame x)))"
proof -
  define t where "t = (if sf_offset x \<noteq> 0 then if sf_fin x then 15 else 14
    else if sf_fin x then 11 else (10::nat))"
  have t: "t < 64" "t \<le> kMax" by (simp_all add: t_def kMax_eq)
  have "[stream_type_byte x] = vbytes t"
    using vbytes_1 [OF t(1)] by (simp add: stream_type_byte_def stream_bit_defs t_def)
  then have w: "frame_wire (StreamFrame x) = vbytes t @ vbytes (sf_stream_id x)
     @ (if sf_offset x \<noteq> 0 then vbytes (sf_offset x) else [])
     @ vbytes (length (sf_data x)) @ sf_data x"
    by (metis append_Cons append_Nil frame_wire.simps(8))
  show ?thesis
    using assms t unfolding w
    by (simp add: frame_run parse_stream_frame_def t_def unat_of_nat_byte Let_def)
qed

lemma padding_run_replicate:
  assumes "rest = [] \<or> hd rest \<noteq> 0"
  shows "drop off buf = replicate n 0 @ rest \<Longrightarrow> off \<le> length buf \<Longrightarrow>
    padding_run buf off c = (c + n, off + n)"
proof (induction n arbitrary: off c)
  case 0
  then have "\<not> (off < length buf \<and> buf ! off = 0)"
    using assms by (auto simp: hd_drop_conv_nth [symmetric])
  then show ?case by (subst padding_run.simps) auto
next
  case (Suc n)
  then have d: "drop off buf = 0 # replicate n 0 @ rest" by simp
  have "off < length buf" by (rule drop_less_length [OF d])
  moreover have "buf ! off = 0" by (rule nth_drop_0 [OF d])
  moreover have "drop (Suc off) buf = replicate n 0 @ rest"
    using drop_add_append [of off buf "[0]"] d by simp
  ultimately show ?case
    using Suc.IH [of "Suc off" "Suc c"] by (subst padding_run.simps) simp
qed

lemma parse_padding_wire:
  assumes "frame_ok (PaddingFrame n)" and "frame_follow (PaddingFrame n) rest"
  shows "parse_frame (pre @ frame_wire (PaddingFrame n) @ rest) (length pre) =
    Some (PaddingFrame n, length pre + length (frame_wire (PaddingFrame n)))"
proof -
  obtain m where n: "n = Suc m" using assms(1) by (cases n) auto
  have v0: "vbytes 0 = [0]" using vbytes_1 [of 0] by simp
  have run: "padding_run (pre @ 0 # replicate m 0 @ rest) (Suc (length pre)) 1 =
      (1 + m, Suc (length pre) + m)"
    by (rule padding_run_replicate) (use assms(2) in auto)
  show ?thesis
    using parse_frame_type [of 0 pre "replicate m 0 @ rest"] run
    by (simp add: n v0 parse_frame_body_def FT_defs)
qed

lemma parse_frame_wire:
  assumes "frame_ok f" and "frame_follow f rest"
  shows "parse_frame (pre @ frame_wire f @ rest) (length pre) =
    Some (f, length pre + length (frame_wire f))"
  using assms parse_padding_wire parse_ack_wire parse_stream_wire parse_new_connection_id_wire
    parse_connection_close_wire parse_simple_wire [OF assms(1)]
  by (cases f) (simp_all del: frame_wire.simps frame_ok.simps)

lemma frame_wire_not_Nil: "frame_ok f \<Longrightarrow> frame_wire f \<noteq> []"
  by (cases f) (auto simp: vbytes_not_Nil FT_small FT_defs)

lemma parse_frame_wire_at:
  assumes "frame_ok f" and "frame_follow f rest" and "drop off buf = frame_wire f @ rest"
  shows "parse_frame buf off = Some (f, off + length (frame_wire f))"
proof -
  have "off < length buf"
    using assms(3) frame_wire_not_Nil [OF assms(1)] by (intro drop_nonempty_less) simp
  then have "buf = take off buf @ frame_wire f @ rest" and "length (take off buf) = off"
    using assms(3) by (simp_all flip: assms(3))
  then show ?thesis using parse_frame_wire [OF assms(1,2), of "take off buf"] by simp
qed

interpretation frame: wire_codec "encode_frame []" parse_frame frame_ok frame_follow
proof
  show "\<exists>w. encode_frame [] f = Some w" if "frame_ok f" for f
    using encode_frame_wire [OF that, of "[]"] by blast
  show "parse_frame buf off = Some (f, off + length w)"
    if "frame_ok f" "encode_frame [] f = Some w" "frame_follow f rest" "drop off buf = w @ rest"
    for f w rest off buf
    using that parse_frame_wire_at [of f rest off buf] by (simp add: encode_frame_wire)
  show "off < off' \<and> off' \<le> length buf" if "parse_frame buf off = Some (f, off')"
    for buf off f off'
    using that by (rule parse_frame_progress)
qed

interpretation frames: wire_loop "encode_frame []" parse_frame frame_ok frame_follow
  parse_frames_from
  by unfold_locales (rule parse_frames_from.simps)

section \<open>Whole payloads\<close>

text \<open>A payload built by encoding frames one after the other into the same buffer.\<close>

fun encode_frames :: "bytes \<Rightarrow> frame list \<Rightarrow> bytes option" where
  "encode_frames out [] = Some out"
| "encode_frames out (f # fs) = do { out \<leftarrow> encode_frame out f; encode_frames out fs }"

text \<open>No two padding frames in a row: the parser would return them as one.\<close>

fun pads_separated :: "frame list \<Rightarrow> bool" where
  "pads_separated [] = True"
| "pads_separated [f] = True"
| "pads_separated (f # g # fs) =
     (\<not> (is_PaddingFrame f \<and> is_PaddingFrame g) \<and> pads_separated (g # fs))"

lemma encode_frames_wire:
  "list_all frame_ok fs \<Longrightarrow> encode_frames out fs = Some (out @ concat (map frame_wire fs))"
  by (induction fs arbitrary: out) (simp_all add: encode_frame_wire)

lemma vbytes_hd: "0 < v \<Longrightarrow> v < 64 \<Longrightarrow> hd (vbytes v @ rest) \<noteq> 0"
  by (simp add: vbytes_1 word_of_nat_eq_0_iff) (auto dest!: dvd_imp_le)

lemma frame_wire_hd: "frame_ok g \<Longrightarrow> \<not> is_PaddingFrame g \<Longrightarrow> hd (frame_wire g @ rest) \<noteq> 0"
proof (cases g)
  case (StreamFrame x)
  then show ?thesis by (simp add: stream_type_byte_def stream_bit_defs)
qed (simp_all add: FT_defs vbytes_hd)

lemma frame_follow_Nil: "frame_follow f []"
  by (cases f) simp_all

lemma frames_chain:
  "list_all frame_ok fs \<Longrightarrow> pads_separated fs \<Longrightarrow> frames.chain (map (\<lambda>f. (f, frame_wire f)) fs)"
proof (induction fs rule: pads_separated.induct)
  case (3 f g fs)
  then have "frame_follow f (concat (map frame_wire (g # fs)))"
    using frame_wire_hd [of g] by (cases f) auto
  with 3 show ?case by (simp add: encode_frame_wire frame_wire_not_Nil comp_def)
qed (simp_all add: encode_frame_wire frame_wire_not_Nil frame_follow_Nil)

lemma parse_frames_encode_frames:
  assumes "list_all frame_ok fs" and "pads_separated fs" and "encode_frames [] fs = Some w"
  shows "parse_frames w = Some fs"
proof -
  have w: "w = concat (map frame_wire fs)" using assms(3) encode_frames_wire [OF assms(1)] by simp
  have "parse_frames_from w 0 = Some (map fst (map (\<lambda>f. (f, frame_wire f)) fs))"
    by (rule frames.dec_all_chain [OF frames_chain [OF assms(1,2)]]) (simp add: w comp_def)
  then show ?thesis by (simp add: parse_frames_def comp_def)
qed

section \<open>What the parser accepts\<close>

text \<open>The encoder always sets the length bit; the flag is the only field it does not preserve.\<close>

fun frame_norm :: "frame \<Rightarrow> frame" where
  "frame_norm (StreamFrame x) = StreamFrame (x\<lparr>sf_has_length := True\<rparr>)"
| "frame_norm f = f"

lemma encode_frame_norm: "encode_frame out (frame_norm f) = encode_frame out f"
  by (cases f) (simp_all add: encode_stream_frame_def stream_type_byte_def)

named_theorems frame_accepts \<open>what a sub-parser returns is representable\<close>

lemma read_varint_bound: "read_varint buf off = Some (v, off') \<Longrightarrow> v \<le> kMax"
  by (rule varint_decode_SomeE)

lemma read_bytes_length:
  "read_bytes buf off n = Some (d, off') \<Longrightarrow> length d = n \<and> length d \<le> length buf"
  by (auto simp: read_bytes_def split: if_splits)

lemma parse_ack_ranges_ok:
  "parse_ack_ranges buf off n = Some (rs, off') \<Longrightarrow> list_all range_ok rs \<and> length rs = n"
  by (induction n arbitrary: off rs)
    (auto simp: bind_eq_Some_conv range_ok_def dest: read_varint_bound)

lemma parse_ack_frame_ok [frame_accepts]:
  "parse_ack_frame buf off e = Some (f, off') \<Longrightarrow> frame_ok (frame_norm f)"
  by (auto simp: parse_ack_frame_def bind_eq_Some_conv split: if_splits
      dest!: read_varint_bound parse_ack_ranges_ok)

lemma parse_stream_frame_ok [frame_accepts]:
  "parse_stream_frame buf off t = Some (f, off') \<Longrightarrow> length buf \<le> kMax \<Longrightarrow>
     frame_ok (frame_norm f)"
  by (auto simp: parse_stream_frame_def Let_def bind_eq_Some_conv split: if_splits
      dest!: read_varint_bound read_bytes_length)

lemma parse_new_connection_id_frame_ok [frame_accepts]:
  "parse_new_connection_id_frame buf off = Some (f, off') \<Longrightarrow> frame_ok (frame_norm f)"
  by (auto simp: parse_new_connection_id_frame_def Let_def bind_eq_Some_conv split: if_splits
      dest!: read_varint_bound read_bytes_length)

lemma parse_connection_close_frame_ok [frame_accepts]:
  "parse_connection_close_frame buf off a = Some (f, off') \<Longrightarrow> frame_ok (frame_norm f)"
  by (auto simp: parse_connection_close_frame_def bind_eq_Some_conv split: if_splits
      dest!: read_varint_bound read_bytes_length)

lemma parse_control_frame_ok [frame_accepts]:
  "parse_control_frame buf off t = Some (f, off') \<Longrightarrow> frame_ok (frame_norm f)"
  by (auto simp: parse_control_frame_def bind_eq_Some_conv split: if_splits
      dest!: read_varint_bound frame_accepts)

lemma padding_run_count: "padding_run buf off c = (c', off') \<Longrightarrow> c \<le> c'"
proof (induction buf off c rule: padding_run.induct)
  case (1 buf off c)
  then show ?case by (subst (asm) (2) padding_run.simps) (auto split: if_splits)
qed

lemma parse_frame_body_ok:
  "parse_frame_body buf off t = Some (f, off') \<Longrightarrow> length buf \<le> kMax \<Longrightarrow> frame_ok (frame_norm f)"
  by (auto simp: parse_frame_body_def bind_eq_Some_conv split: if_splits prod.splits
      dest!: read_varint_bound read_bytes_length padding_run_count frame_accepts)

lemma parse_frame_ok:
  "parse_frame buf off = Some (f, off') \<Longrightarrow> length buf \<le> kMax \<Longrightarrow> frame_ok (frame_norm f)"
  by (auto simp: parse_frame_def bind_eq_Some_conv split: if_splits dest!: parse_frame_body_ok)

lemmas frame_eval = varint_eval FT_defs stream_bit_defs parse_frame_def parse_frame_body_def
  parse_stream_frame_def read_bytes_def write_type_def encode_stream_frame_def
  stream_type_byte_def unat_of_nat_byte replicate_numeral_Cons

section \<open>Properties\<close>

text \<open>C11. Encoding a frame after any prefix and parsing at the position where it starts returns the
  frame and the position right behind it, whatever follows (a padding run must not be followed by
  another zero byte, which belongs to the run).\<close>

theorem frame_roundtrip:
  assumes "frame_ok f" and "frame_follow f rest" and "encode_frame pre f = Some out"
  shows "parse_frame (out @ rest) (length pre) = Some (f, length out)"
  using assms parse_frame_wire [OF assms(1,2), of pre] by (auto simp: encode_frame_wire)

theorem frame_roundtrip_witness:
  "parse_frame [0x01, 0x0b, 0x04, 0x02, 0xab, 0xcd, 0x00] 1 =
     Some (StreamFrame \<lparr>sf_stream_id = 4, sf_offset = 0, sf_has_length = True, sf_fin = True,
       sf_data = [0xab, 0xcd]\<rparr>, 6)"
proof -
  let ?f = "StreamFrame \<lparr>sf_stream_id = 4, sf_offset = 0, sf_has_length = True, sf_fin = True,
       sf_data = [0xab, 0xcd]\<rparr>"
  have "frame_ok ?f" by (simp add: kMax_eq)
  moreover have "encode_frame [0x01] ?f = Some [0x01, 0x0b, 0x04, 0x02, 0xab, 0xcd]"
    by (simp add: frame_eval)
  ultimately show ?thesis using frame_roundtrip [of ?f "[0]" "[0x01]"] by simp
qed

text \<open>C17. A payload assembled from representable frames, in which no padding run directly follows
  another, parses back to exactly the frames it was assembled from.\<close>

theorem payload_roundtrip:
  assumes "list_all frame_ok fs" and "pads_separated fs" and "encode_frames [] fs = Some w"
  shows "parse_frames w = Some fs"
  using assms by (rule parse_frames_encode_frames)

theorem payload_roundtrip_witness:
  "parse_frames [0x10, 0x41, 0x00, 0x00, 0x00, 0x01, 0x1e] =
     Some [MaxDataFrame 256, PaddingFrame 2, PingFrame, HandshakeDoneFrame]"
proof (rule payload_roundtrip)
  show "list_all frame_ok [MaxDataFrame 256, PaddingFrame 2, PingFrame, HandshakeDoneFrame]"
    by (simp add: kMax_eq)
  show "pads_separated [MaxDataFrame 256, PaddingFrame 2, PingFrame, HandshakeDoneFrame]"
    by simp
  show "encode_frames [] [MaxDataFrame 256, PaddingFrame 2, PingFrame, HandshakeDoneFrame] =
    Some [0x10, 0x41, 0x00, 0x00, 0x00, 0x01, 0x1e]"
    by (simp add: frame_eval)
qed

text \<open>C16. Whatever the parser accepts, from any bytes at all, it consumes at least one byte, stays
  inside the buffer, and returns a frame that the encoder can write without throwing and that then
  parses to the same frame (only the flag recording the presence of a length field is set).\<close>

theorem parsed_frame_reencodes:
  assumes "parse_frame buf off = Some (f, off')" and "length buf \<le> kMax"
  shows "off < off' \<and> off' \<le> length buf \<and>
    (\<exists>out. encode_frame [] f = Some out \<and> parse_frame out 0 = Some (frame_norm f, length out))"
proof -
  have ok: "frame_ok (frame_norm f)" using assms by (rule parse_frame_ok)
  then have "encode_frame [] f = Some (frame_wire (frame_norm f))"
    using encode_frame_wire [of "frame_norm f" "[]"] by (simp add: encode_frame_norm)
  moreover have "parse_frame (frame_wire (frame_norm f)) 0 =
      Some (frame_norm f, length (frame_wire (frame_norm f)))"
    by (rule parse_frame_wire_at [OF ok frame_follow_Nil, of 0, simplified]) simp
  ultimately show ?thesis using parse_frame_progress [OF assms(1)] by blast
qed

theorem parsed_frame_reencodes_witness:
  "(0::nat) < 3 \<and> (3::nat) \<le> length [0x08, 0x04, 0xaa :: byte] \<and>
    (\<exists>out. encode_frame [] (StreamFrame \<lparr>sf_stream_id = 4, sf_offset = 0, sf_has_length = False,
        sf_fin = False, sf_data = [0xaa]\<rparr>) = Some out \<and>
      parse_frame out 0 = Some (StreamFrame \<lparr>sf_stream_id = 4, sf_offset = 0,
        sf_has_length = True, sf_fin = False, sf_data = [0xaa]\<rparr>, length out))"
proof -
  let ?x = "\<lparr>sf_stream_id = 4, sf_offset = 0, sf_has_length = False, sf_fin = False,
      sf_data = [0xaa]\<rparr>"
  have p: "parse_frame [0x08, 0x04, 0xaa] 0 = Some (StreamFrame ?x, 3)"
    by (simp add: frame_eval)
  have l: "length [0x08, 0x04, 0xaa :: byte] \<le> kMax" by (simp add: kMax_eq)
  have n: "frame_norm (StreamFrame ?x) = StreamFrame (?x\<lparr>sf_has_length := True\<rparr>)" by simp
  show ?thesis
    using parsed_frame_reencodes [OF p l] unfolding n stream_frame.update_convs .
qed

text \<open>C35. The STREAM test masks the frame type with an eight-bit constant, so every type whose low
  byte is 0x08 to 0x0f is parsed as a STREAM frame: for instance the unassigned two-byte type
  0x108, which the comment at the end of the parser says is rejected as unknown.\<close>

theorem stream_type_aliases:
  assumes "8 \<le> t mod 256" and "t mod 256 < 16"
  shows "parse_frame_body buf off t = parse_stream_frame buf off t"
proof -
  have "t AND 248 = (t AND 255) AND 248" by (simp add: and.assoc)
  also have "\<dots> = (t mod 256) AND 248" by (simp add: and_255_mod)
  also have "\<dots> = 8"
  proof -
    have "t mod 256 \<in> {8, 9, 10, 11, 12, 13, 14, 15}" using assms by auto
    then show ?thesis by auto
  qed
  finally have "t AND kStreamTypeMask = kStreamBaseType" by (simp add: stream_bit_defs)
  moreover have "7 < t" using assms(1) mod_less_eq_dividend [of t 256] by linarith
  ultimately show ?thesis by (simp add: parse_frame_body_def FT_defs)
qed

theorem stream_type_aliases_witness:
  "parse_frame [0x41, 0x08, 0x04, 0xaa] 0 = Some (StreamFrame \<lparr>sf_stream_id = 4, sf_offset = 0,
      sf_has_length = False, sf_fin = False, sf_data = [0xaa]\<rparr>, 4)"
proof -
  have "parse_frame [0x41, 0x08, 0x04, 0xaa] 0 = parse_frame_body [0x41, 0x08, 0x04, 0xaa] 2 0x108"
    by (simp add: frame_eval)
  also have "\<dots> = parse_stream_frame [0x41, 0x08, 0x04, 0xaa] 2 0x108"
    by (rule stream_type_aliases) simp_all
  also have "\<dots> = Some (StreamFrame \<lparr>sf_stream_id = 4, sf_offset = 0,
      sf_has_length = False, sf_fin = False, sf_data = [0xaa]\<rparr>, 4)"
    by (simp add: frame_eval)
  finally show ?thesis .
qed

end
