(* ===== verification/PnSpace.thy ===== *)
theory PnSpace
  imports Frame
begin

text \<open>
  Acknowledgement bookkeeping of one packet-number space:
  \<open>example/quic-http3/src/quic/pn_space.cpp\<close>. The state is the list of received ranges, sorted by
  descending packet number. The abstraction is the set of packet numbers the ranges cover; the
  theory shows that every operation keeps the representation invariant, what it does to the set,
  and that the ACK frame built from the ranges denotes exactly that set.
\<close>

section \<open>The code\<close>

record pn_range =
  pr_lo :: nat
  pr_hi :: nat

record pn_space =
  ps_ranges :: "pn_range list"
  ps_largest_received :: "nat option"
  ps_needs_ack :: bool

definition pn_space_init :: pn_space where
  "pn_space_init = \<lparr>ps_ranges = [], ps_largest_received = None, ps_needs_ack = False\<rparr>"

definition kMaxAckRanges :: nat where
  "kMaxAckRanges = 32"

text \<open>
  The walk \<open>while (it != end && it->hi >= pn)\<close>. It returns the ranges before the iterator and those
  from it on, or \<open>None\<close> where the loop finds \<open>pn\<close> already covered and the function returns.
\<close>

fun pn_walk :: "nat \<Rightarrow> pn_range list \<Rightarrow> pn_range list \<Rightarrow> (pn_range list \<times> pn_range list) option"
  where
  "pn_walk pn before [] = Some (before, [])"
| "pn_walk pn before (r # rs) =
     (if pr_hi r \<ge> pn then
        (if pr_lo r \<le> pn then None else pn_walk pn (before @ [r]) rs)
      else Some (before, r # rs))"

text \<open>The insertion at the position found by the walk.\<close>

definition pn_insert :: "nat \<Rightarrow> pn_range list \<Rightarrow> pn_range list \<Rightarrow> pn_range list" where
  "pn_insert pn before rest =
     (if before \<noteq> [] \<and> pr_lo (last before) = uadd pn 1 then
        (if rest \<noteq> [] \<and> uadd (pr_hi (hd rest)) 1 = pn then
           butlast before @ [(last before)\<lparr>pr_lo := pr_lo (hd rest)\<rparr>] @ tl rest
         else butlast before @ [(last before)\<lparr>pr_lo := pn\<rparr>] @ rest)
      else if rest \<noteq> [] \<and> uadd (pr_hi (hd rest)) 1 = pn then
        before @ [(hd rest)\<lparr>pr_hi := pn\<rparr>] @ tl rest
      else
        let ranges = before @ [\<lparr>pr_lo = pn, pr_hi = pn\<rparr>] @ rest
        in if length ranges > kMaxAckRanges then take kMaxAckRanges ranges else ranges)"

definition on_received :: "nat \<Rightarrow> bool \<Rightarrow> pn_space \<Rightarrow> pn_space" where
  "on_received pn ack_eliciting s =
     (let s = (if ack_eliciting then s\<lparr>ps_needs_ack := True\<rparr> else s);
          s = (case ps_largest_received s of
                 None \<Rightarrow> s\<lparr>ps_largest_received := Some pn\<rparr>
               | Some l \<Rightarrow> if pn > l then s\<lparr>ps_largest_received := Some pn\<rparr> else s)
      in case pn_walk pn [] (ps_ranges s) of
           None \<Rightarrow> s
         | Some (before, rest) \<Rightarrow> s\<lparr>ps_ranges := pn_insert pn before rest\<rparr>)"

text \<open>The loop of \<open>build_ack_frame\<close> over consecutive ranges.\<close>

fun ack_gaps :: "pn_range \<Rightarrow> pn_range list \<Rightarrow> ack_range list" where
  "ack_gaps prev [] = []"
| "ack_gaps prev (cur # rs) =
     \<lparr>ar_gap = usub (usub (pr_lo prev) (pr_hi cur)) 2,
      ar_length = usub (pr_hi cur) (pr_lo cur)\<rparr> # ack_gaps cur rs"

definition empty_ack_frame :: ack_frame where
  "empty_ack_frame = \<lparr>ack_largest_acked = 0, ack_delay = 0, ack_first_range = 0, ack_ranges = [],
     ack_ecn = False, ack_ect0 = 0, ack_ect1 = 0, ack_ce = 0\<rparr>"

definition build_ack_frame :: "nat \<Rightarrow> pn_space \<Rightarrow> ack_frame \<times> pn_space" where
  "build_ack_frame ack_delay_us s =
     (case ps_ranges s of
        [] \<Rightarrow> (empty_ack_frame, s)
      | front # rs \<Rightarrow>
          (empty_ack_frame
             \<lparr>ack_largest_acked := pr_hi front, ack_delay := ack_delay_us,
              ack_first_range := usub (pr_hi front) (pr_lo front),
              ack_ranges := ack_gaps front rs\<rparr>,
           s\<lparr>ps_needs_ack := False\<rparr>))"

text \<open>\<open>while (!ranges_.empty() && ranges_.back().hi < pn) ranges_.pop_back()\<close>\<close>

function pop_below :: "nat \<Rightarrow> pn_range list \<Rightarrow> pn_range list" where
  "pop_below pn rs =
     (if rs \<noteq> [] \<and> pr_hi (last rs) < pn then pop_below pn (butlast rs) else rs)"
  by pat_completeness auto
termination
  by (relation "measure (\<lambda>(pn, rs). length rs)") auto

declare pop_below.simps [simp del]

definition trim_below :: "nat \<Rightarrow> pn_space \<Rightarrow> pn_space" where
  "trim_below pn s =
     (let rs = pop_below pn (ps_ranges s)
      in s\<lparr>ps_ranges := (if rs \<noteq> [] \<and> pr_lo (last rs) < pn
                         then butlast rs @ [(last rs)\<lparr>pr_lo := pn\<rparr>] else rs)\<rparr>)"

definition pn_reset :: "pn_space \<Rightarrow> pn_space" where
  "pn_reset s = s\<lparr>ps_ranges := [], ps_largest_received := None, ps_needs_ack := False\<rparr>"

section \<open>Representation invariant and abstraction\<close>

definition range_set :: "pn_range \<Rightarrow> nat set" where
  "range_set r = {pr_lo r..pr_hi r}"

definition pn_set :: "pn_range list \<Rightarrow> nat set" where
  "pn_set rs = \<Union> (range_set ` set rs)"

text \<open>Descending, disjoint and not adjacent: between two ranges at least one number is missing.\<close>

fun ranges_desc :: "pn_range list \<Rightarrow> bool" where
  "ranges_desc [] = True"
| "ranges_desc [r] = (pr_lo r \<le> pr_hi r \<and> pr_hi r < 2 ^ 62)"
| "ranges_desc (r # q # rs) =
     (pr_lo r \<le> pr_hi r \<and> pr_hi r < 2 ^ 62 \<and> pr_hi q + 1 < pr_lo r \<and> ranges_desc (q # rs))"

definition pn_inv :: "pn_space \<Rightarrow> bool" where
  "pn_inv s \<longleftrightarrow> ranges_desc (ps_ranges s) \<and> length (ps_ranges s) \<le> kMaxAckRanges"

lemma pn_set_simps [simp]:
  "pn_set [] = {}" "pn_set (r # rs) = range_set r \<union> pn_set rs"
  "pn_set (xs @ ys) = pn_set xs \<union> pn_set ys"
  by (auto simp: pn_set_def)

text \<open>The invariant as a pairwise property, which is the form that splits at an append.\<close>

definition range_wf :: "pn_range \<Rightarrow> bool" where
  "range_wf r \<longleftrightarrow> pr_lo r \<le> pr_hi r \<and> pr_hi r < 2 ^ 62"

definition above :: "pn_range \<Rightarrow> pn_range \<Rightarrow> bool" where
  "above r q \<longleftrightarrow> pr_hi q + 1 < pr_lo r"

lemma ranges_desc_sorted:
  "ranges_desc rs \<longleftrightarrow> list_all range_wf rs \<and> sorted_wrt above rs"
proof (induction rs rule: ranges_desc.induct)
  case (3 r q rs)
  show ?case
  proof
    assume "ranges_desc (r # q # rs)"
    then have r: "range_wf r" "above r q" and rest: "ranges_desc (q # rs)"
      by (simp_all add: range_wf_def above_def)
    from rest 3 have q: "list_all range_wf (q # rs)" "sorted_wrt above (q # rs)" by simp_all
    have "above r x" if "x \<in> set rs" for x
      using that q r by (fastforce simp: above_def range_wf_def)
    with r q show "list_all range_wf (r # q # rs) \<and> sorted_wrt above (r # q # rs)" by simp
  next
    assume "list_all range_wf (r # q # rs) \<and> sorted_wrt above (r # q # rs)"
    with 3 show "ranges_desc (r # q # rs)"
      by (simp add: range_wf_def [of r] range_wf_def [of q] above_def [of r q])
  qed
qed (simp_all add: range_wf_def)

text \<open>The rules that decide the invariant at the place where a range changes.\<close>

lemmas ranges_simps = list_all_append sorted_wrt_append ball_Un

lemma pn_walk_None: "pn_walk pn b rs = None \<Longrightarrow> pn \<in> pn_set rs"
  by (induction pn b rs rule: pn_walk.induct) (auto simp: range_set_def split: if_splits)

lemma pn_walk_Some:
  "pn_walk pn b rs = Some (before, rest) \<Longrightarrow>
     \<exists>m. before = b @ m \<and> rs = m @ rest \<and> (\<forall>r \<in> set m. pn < pr_lo r)
       \<and> (rest = [] \<or> pr_hi (hd rest) < pn)"
proof (induction pn b rs rule: pn_walk.induct)
  case (2 pn before r rs)
  then show ?case by (fastforce split: if_splits)
qed simp

lemma pn_walk_start:
  assumes "pn_walk pn [] rs = Some (before, rest)"
  shows "rs = before @ rest" and "\<forall>r \<in> set before. pn < pr_lo r"
    and "rest = [] \<or> pr_hi (hd rest) < pn"
  using pn_walk_Some [OF assms] by auto

lemma range_set_simps [simp]:
  "range_set \<lparr>pr_lo = a, pr_hi = b\<rparr> = {a..b}"
  "range_set (r\<lparr>pr_lo := a\<rparr>) = {a..pr_hi r}"
  "range_set (r\<lparr>pr_hi := b\<rparr>) = {pr_lo r..b}"
  by (simp_all add: range_set_def)

lemma above_all_le:
  "sorted_wrt above (r # rs) \<Longrightarrow> list_all range_wf rs \<Longrightarrow> x \<in> pn_set rs \<Longrightarrow> x + 1 < pr_lo r"
  by (fastforce simp: pn_set_def range_set_def above_def)

text \<open>
  The four outcomes of an insertion, on the untruncated list. \<open>pn_insert_full\<close> is \<open>pn_insert\<close>
  without the cut at 32 ranges.
\<close>

definition pn_insert_full :: "nat \<Rightarrow> pn_range list \<Rightarrow> pn_range list \<Rightarrow> pn_range list" where
  "pn_insert_full pn before rest =
     (if before \<noteq> [] \<and> pr_lo (last before) = pn + 1 then
        (if rest \<noteq> [] \<and> pr_hi (hd rest) + 1 = pn then
           butlast before @ [(last before)\<lparr>pr_lo := pr_lo (hd rest)\<rparr>] @ tl rest
         else butlast before @ [(last before)\<lparr>pr_lo := pn\<rparr>] @ rest)
      else if rest \<noteq> [] \<and> pr_hi (hd rest) + 1 = pn then
        before @ [(hd rest)\<lparr>pr_hi := pn\<rparr>] @ tl rest
      else before @ [\<lparr>pr_lo = pn, pr_hi = pn\<rparr>] @ rest)"

lemma pn_insert_take:
  assumes "pn < 2 ^ 62" and "list_all range_wf rest" and "length (before @ rest) \<le> kMaxAckRanges"
  shows "pn_insert pn before rest = take kMaxAckRanges (pn_insert_full pn before rest)"
proof -
  have "uadd pn 1 = pn + 1" using assms(1) by simp
  moreover have "uadd (pr_hi (hd rest)) 1 = pr_hi (hd rest) + 1" if "rest \<noteq> []"
    using that assms(2) by (cases rest) (simp_all add: range_wf_def)
  ultimately show ?thesis
    using assms(3)
    by (cases before rule: rev_cases; cases rest)
      (auto simp: pn_insert_def pn_insert_full_def Let_def)
qed

definition gap_at :: "nat \<Rightarrow> pn_range list \<Rightarrow> pn_range list \<Rightarrow> bool" where
  "gap_at pn before rest \<longleftrightarrow> pn < 2 ^ 62 \<and> list_all range_wf (before @ rest)
     \<and> sorted_wrt above (before @ rest) \<and> (\<forall>r \<in> set before. pn < pr_lo r)
     \<and> (rest = [] \<or> pr_hi (hd rest) < pn)"

lemma gap_at_below:
  assumes "gap_at pn before rest"
  shows "\<forall>r \<in> set rest. pr_hi r < pn"
proof (cases rest)
  case (Cons a list)
  with assms have "pr_hi a < pn" "pr_lo a \<le> pr_hi a" "\<forall>x \<in> set list. pr_hi x + 1 < pr_lo a"
    by (simp_all add: gap_at_def range_wf_def above_def ranges_simps)
  with Cons show ?thesis by force
qed simp

lemma insert_full_set:
  assumes "gap_at pn before rest"
  shows "pn_set (pn_insert_full pn before rest) = insert pn (pn_set (before @ rest))"
  using assms
  by (cases before rule: rev_cases; cases rest)
    (auto simp: gap_at_def pn_insert_full_def range_set_def range_wf_def)

lemma gap_at_far_below:
  assumes "gap_at pn before rest" and "rest = [] \<or> pr_hi (hd rest) + 1 \<noteq> pn"
  shows "\<forall>q \<in> set rest. pr_hi q + 1 < pn"
proof (cases rest)
  case (Cons a list)
  with assms have "pr_hi a + 1 < pn" "pr_lo a \<le> pr_hi a" "\<forall>x \<in> set list. pr_hi x + 1 < pr_lo a"
    by (simp_all add: gap_at_def range_wf_def above_def ranges_simps)
  with Cons show ?thesis by force
qed simp

lemma gap_at_far_above:
  assumes "gap_at pn before rest" and "before = [] \<or> pr_lo (last before) \<noteq> pn + 1"
  shows "\<forall>q \<in> set before. pn + 1 < pr_lo q"
proof (cases before rule: rev_cases)
  case (snoc b h)
  with assms have "pn + 1 < pr_lo h" "pr_lo h \<le> pr_hi h" "\<forall>x \<in> set b. pr_hi h + 1 < pr_lo x"
    by (simp_all add: gap_at_def range_wf_def above_def ranges_simps)
  with snoc show ?thesis by force
qed simp

text \<open>A list stays in order when one range is placed between two parts that already are.\<close>

abbreviation desc_list :: "pn_range list \<Rightarrow> bool" where
  "desc_list rs \<equiv> list_all range_wf rs \<and> sorted_wrt above rs"

lemma desc_splice:
  assumes "desc_list (b @ r)" and "range_wf x"
    and "\<forall>q \<in> set b. above q x" and "\<forall>q \<in> set r. above x q"
  shows "desc_list (b @ [x] @ r)"
  using assms by (auto simp: ranges_simps)

lemma insert_both_desc:
  assumes "gap_at pn (b @ [h]) (l # r)" and "pr_lo h = pn + 1" and "pr_hi l + 1 = pn"
  shows "desc_list (b @ [h\<lparr>pr_lo := pr_lo l\<rparr>] @ r)"
  by (rule desc_splice)
    (use assms in \<open>auto simp: gap_at_def ranges_simps range_wf_def [of h] range_wf_def [of l]
      range_wf_def [of "h\<lparr>pr_lo := pr_lo l\<rparr>"] above_def [of l] above_def [of _ h]
      above_def [of "h\<lparr>pr_lo := pr_lo l\<rparr>"] above_def [of _ "h\<lparr>pr_lo := pr_lo l\<rparr>"]\<close>)

lemma insert_down_desc:
  assumes "gap_at pn (b @ [h]) rest" and "pr_lo h = pn + 1"
    and "rest = [] \<or> pr_hi (hd rest) + 1 \<noteq> pn"
  shows "desc_list (b @ [h\<lparr>pr_lo := pn\<rparr>] @ rest)"
  by (rule desc_splice)
    (use assms gap_at_far_below [OF assms(1,3)] in \<open>auto simp: gap_at_def ranges_simps
      range_wf_def [of h] range_wf_def [of "h\<lparr>pr_lo := pn\<rparr>"] above_def [of _ h]
      above_def [of "h\<lparr>pr_lo := pn\<rparr>"] above_def [of _ "h\<lparr>pr_lo := pn\<rparr>"]\<close>)

lemma insert_up_desc:
  assumes "gap_at pn before (l # r)" and "pr_hi l + 1 = pn"
    and "before = [] \<or> pr_lo (last before) \<noteq> pn + 1"
  shows "desc_list (before @ [l\<lparr>pr_hi := pn\<rparr>] @ r)"
  by (rule desc_splice)
    (use assms gap_at_far_above [OF assms(1,3)] in \<open>auto simp: gap_at_def ranges_simps
      range_wf_def [of l] range_wf_def [of "l\<lparr>pr_hi := pn\<rparr>"] above_def [of l]
      above_def [of "l\<lparr>pr_hi := pn\<rparr>"] above_def [of _ "l\<lparr>pr_hi := pn\<rparr>"]\<close>)

lemma insert_new_desc:
  assumes "gap_at pn before rest" and "before = [] \<or> pr_lo (last before) \<noteq> pn + 1"
    and "rest = [] \<or> pr_hi (hd rest) + 1 \<noteq> pn"
  shows "desc_list (before @ [\<lparr>pr_lo = pn, pr_hi = pn\<rparr>] @ rest)"
  by (rule desc_splice)
    (use assms(1) gap_at_far_above [OF assms(1,2)] gap_at_far_below [OF assms(1,3)] in
      \<open>auto simp: gap_at_def range_wf_def [of "\<lparr>pr_lo = pn, pr_hi = pn\<rparr>"]
        above_def [of "\<lparr>pr_lo = pn, pr_hi = pn\<rparr>"] above_def [of _ "\<lparr>pr_lo = pn, pr_hi = pn\<rparr>"]\<close>)

lemma insert_full_desc:
  assumes "gap_at pn before rest"
  shows "desc_list (pn_insert_full pn before rest)"
proof (cases "before \<noteq> [] \<and> pr_lo (last before) = pn + 1")
  case True
  then obtain b h where b: "before = b @ [h]" "pr_lo h = pn + 1"
    by (cases before rule: rev_cases) auto
  show ?thesis
    using assms b insert_both_desc [of pn b h "hd rest" "tl rest"] insert_down_desc [of pn b h rest]
    by (auto simp: pn_insert_full_def)
next
  case False
  show ?thesis
    using assms False insert_up_desc [of pn before "hd rest" "tl rest"]
      insert_new_desc [of pn before rest]
    by (auto simp: pn_insert_full_def)
qed

section \<open>What the operations do to the set of packet numbers\<close>

abbreviation received :: "pn_space \<Rightarrow> nat set" where
  "received s \<equiv> pn_set (ps_ranges s)"

lemma desc_take: "desc_list rs \<Longrightarrow> desc_list (take n rs)"
  by (metis append_take_drop_id list_all_append sorted_wrt_append)

lemma pn_set_below:
  "desc_list (rs @ qs) \<Longrightarrow> rs \<noteq> [] \<Longrightarrow> x \<in> pn_set qs \<Longrightarrow> x < pr_lo (last rs)"
  by (cases rs rule: rev_cases) (fastforce simp: pn_set_def range_set_def above_def ranges_simps)+

lemma pn_set_above:
  "desc_list rs \<Longrightarrow> x \<in> pn_set rs \<Longrightarrow> pr_lo (last rs) \<le> x"
proof (cases rs rule: rev_cases)
  case (snoc b h)
  moreover assume "desc_list rs" "x \<in> pn_set rs"
  ultimately show ?thesis
    by (fastforce simp: pn_set_def range_set_def above_def ranges_simps range_wf_def [of h])
qed simp

text \<open>Cutting the list at the tail forgets exactly the numbers below the last retained range.\<close>

lemma pn_set_take:
  assumes "desc_list rs" and "take n rs \<noteq> []"
  shows "pn_set (take n rs) = pn_set rs \<inter> {pr_lo (last (take n rs))..}"
proof -
  have split: "pn_set rs = pn_set (take n rs) \<union> pn_set (drop n rs)"
    by (metis append_take_drop_id pn_set_simps(3))
  have "x < pr_lo (last (take n rs))" if "x \<in> pn_set (drop n rs)" for x
    using pn_set_below [of "take n rs" "drop n rs" x] assms that by simp
  moreover have "pr_lo (last (take n rs)) \<le> x" if "x \<in> pn_set (take n rs)" for x
    using pn_set_above [OF desc_take [OF assms(1)] that] .
  ultimately show ?thesis unfolding split by fastforce
qed

lemma pn_inv_desc: "pn_inv s \<longleftrightarrow> desc_list (ps_ranges s) \<and> length (ps_ranges s) \<le> kMaxAckRanges"
  by (simp add: pn_inv_def ranges_desc_sorted)

lemma on_received_ranges:
  "ps_ranges (on_received pn e s) =
     (case pn_walk pn [] (ps_ranges s) of
        None \<Rightarrow> ps_ranges s | Some (before, rest) \<Rightarrow> pn_insert pn before rest)"
  by (auto simp: on_received_def Let_def split: option.splits)

lemma walk_gap_at:
  assumes "pn_inv s" and "pn < 2 ^ 62" and "pn_walk pn [] (ps_ranges s) = Some (before, rest)"
  shows "gap_at pn before rest" and "ps_ranges s = before @ rest"
  using assms pn_walk_start [OF assms(3)] by (auto simp: gap_at_def pn_inv_desc)

lemma pn_insert_full_not_Nil: "pn_insert_full pn before rest \<noteq> []"
  by (simp add: pn_insert_full_def)

text \<open>Every range holds at least one number of its own.\<close>

lemma finite_pn_set [simp]: "finite (pn_set rs)"
  by (simp add: pn_set_def range_set_def)

lemma card_pn_set:
  assumes "desc_list rs"
  shows "length rs \<le> card (pn_set rs)"
proof -
  have "inj_on pr_lo (set rs) \<and> distinct rs"
    using assms
  proof (induction rs)
    case (Cons r rs)
    have r: "pr_lo q < pr_lo r" if q: "q \<in> set rs" for q
    proof -
      from Cons.prems q have "above r q" "range_wf q" by (simp_all add: list_all_iff)
      then show ?thesis by (simp add: range_wf_def above_def)
    qed
    then have "pr_lo r \<notin> pr_lo ` set rs" "r \<notin> set rs" by fastforce+
    with Cons show ?case by simp
  qed simp
  then have "card (pr_lo ` set rs) = length rs" by (simp add: card_image distinct_card)
  moreover have "pr_lo ` set rs \<subseteq> pn_set rs"
    using assms by (auto simp: pn_set_def range_set_def list_all_iff range_wf_def)
  ultimately show ?thesis by (metis card_mono finite_pn_set)
qed

text \<open>
  The list cut at 32 ranges: nothing is lost, or all that is lost lies below 32 numbers that stay.
\<close>

lemma cut_cases:
  assumes "desc_list rs"
  shows "\<exists>b. pn_set (take kMaxAckRanges rs) = pn_set rs \<inter> {b..} \<and>
    (b = 0 \<or> kMaxAckRanges \<le> card (pn_set (take kMaxAckRanges rs)))"
proof (cases "length rs \<le> kMaxAckRanges")
  case True
  then have "pn_set (take kMaxAckRanges rs) = pn_set rs \<inter> {0..}" by simp
  then show ?thesis by blast
next
  case False
  then have "take kMaxAckRanges rs \<noteq> []" by (auto simp: kMaxAckRanges_def)
  note pn_set_take [OF assms this]
  moreover have "kMaxAckRanges \<le> card (pn_set (take kMaxAckRanges rs))"
    using card_pn_set [OF desc_take [OF assms, of kMaxAckRanges]] False by simp
  ultimately show ?thesis by blast
qed

lemma on_received_cases:
  assumes "pn_inv s" and "pn < 2 ^ 62"
  obtains (covered) "pn \<in> received s" and "ps_ranges (on_received pn e s) = ps_ranges s"
  | (inserted) full where "desc_list full" and "pn_set full = insert pn (received s)"
      and "length full \<le> Suc (length (ps_ranges s))"
      and "ps_ranges (on_received pn e s) = take kMaxAckRanges full"
proof (cases "pn_walk pn [] (ps_ranges s)")
  case None
  then show thesis using pn_walk_None covered by (simp add: on_received_ranges)
next
  case (Some p)
  obtain before rest where p: "p = (before, rest)" by (cases p)
  note gap = walk_gap_at [OF assms Some [unfolded p]]
  show thesis
  proof (rule inserted)
    show "desc_list (pn_insert_full pn before rest)" by (rule insert_full_desc [OF gap(1)])
    show "pn_set (pn_insert_full pn before rest) = insert pn (received s)"
      using insert_full_set [OF gap(1)] gap(2) by simp
    show "length (pn_insert_full pn before rest) \<le> Suc (length (ps_ranges s))"
      using gap(2) by (auto simp: pn_insert_full_def)
    show "ps_ranges (on_received pn e s) = take kMaxAckRanges (pn_insert_full pn before rest)"
      using assms gap Some p by (simp add: on_received_ranges pn_insert_take pn_inv_desc)
  qed
qed

lemma on_received_inv:
  assumes "pn_inv s" and "pn < 2 ^ 62"
  shows "pn_inv (on_received pn e s)"
  by (rule on_received_cases [OF assms, of e])
    (use assms(1) desc_take [of _ kMaxAckRanges] in \<open>simp_all add: pn_inv_desc\<close>)

lemma on_received_set:
  assumes "pn_inv s" and "pn < 2 ^ 62"
  shows "\<exists>b. received (on_received pn e s) = insert pn (received s) \<inter> {b..} \<and>
    (b = 0 \<or> kMaxAckRanges \<le> card (received (on_received pn e s)))"
proof (rule on_received_cases [OF assms, of e])
  assume "pn \<in> received s" "ps_ranges (on_received pn e s) = ps_ranges s"
  then have "received (on_received pn e s) = insert pn (received s) \<inter> {0..}"
    by (simp add: insert_absorb)
  then show ?thesis by blast
next
  fix full
  assume "desc_list full" and "pn_set full = insert pn (received s)"
    and "ps_ranges (on_received pn e s) = take kMaxAckRanges full"
  with cut_cases [of full] show ?thesis by simp
qed

lemma on_received_exact:
  assumes "pn_inv s" and "pn < 2 ^ 62" and "length (ps_ranges s) < kMaxAckRanges"
  shows "received (on_received pn e s) = insert pn (received s)"
  by (rule on_received_cases [OF assms(1,2), of e])
    (use assms(3) in \<open>simp_all add: insert_absorb\<close>)

text \<open>Trimming.\<close>

lemma pop_below_spec:
  "desc_list rs \<Longrightarrow> desc_list (pop_below pn rs) \<and> length (pop_below pn rs) \<le> length rs \<and>
     pn_set (pop_below pn rs) \<inter> {pn..} = pn_set rs \<inter> {pn..} \<and>
     (pop_below pn rs = [] \<or> pn \<le> pr_hi (last (pop_below pn rs)))"
proof (induction pn rs rule: pop_below.induct)
  case (1 pn rs)
  show ?case
  proof (cases "rs \<noteq> [] \<and> pr_hi (last rs) < pn")
    case True
    then obtain b h where rs: "rs = b @ [h]" "pr_hi h < pn" by (cases rs rule: rev_cases) auto
    then have h: "range_set h \<inter> {pn..} = {}" by (auto simp: range_set_def)
    have eq: "pop_below pn rs = pop_below pn b" using True rs by (subst pop_below.simps) simp
    from "1.prems" rs have "desc_list b" by (simp add: ranges_simps)
    with "1.IH" [OF True] rs have "desc_list (pop_below pn b) \<and>
        length (pop_below pn b) \<le> length b \<and>
        pn_set (pop_below pn b) \<inter> {pn..} = pn_set b \<inter> {pn..} \<and>
        (pop_below pn b = [] \<or> pn \<le> pr_hi (last (pop_below pn b)))" by simp
    moreover have "pn_set rs \<inter> {pn..} = pn_set b \<inter> {pn..}" using rs h by auto
    ultimately show ?thesis unfolding eq using rs by simp
  next
    case False
    then have "pop_below pn rs = rs" by (subst pop_below.simps) auto
    with False "1.prems" show ?thesis by auto
  qed
qed

lemma trim_last:
  assumes "desc_list (b @ [h])" and "pn \<le> pr_hi h"
  shows "desc_list (b @ [h\<lparr>pr_lo := max pn (pr_lo h)\<rparr>])"
    and "pn_set (b @ [h\<lparr>pr_lo := max pn (pr_lo h)\<rparr>]) = pn_set (b @ [h]) \<inter> {pn..}"
proof -
  have h: "pr_lo h \<le> pr_hi h" and b: "\<forall>q \<in> set b. pr_hi h + 1 < pr_lo q"
    using assms(1) by (simp_all add: ranges_simps above_def range_wf_def [of h])
  have "desc_list (b @ [h\<lparr>pr_lo := max pn (pr_lo h)\<rparr>] @ [])"
    by (rule desc_splice)
      (use assms h b in \<open>auto simp: ranges_simps range_wf_def [of h]
        range_wf_def [of "h\<lparr>pr_lo := max pn (pr_lo h)\<rparr>"]
        above_def [of _ "h\<lparr>pr_lo := max pn (pr_lo h)\<rparr>"]\<close>)
  then show "desc_list (b @ [h\<lparr>pr_lo := max pn (pr_lo h)\<rparr>])" by simp
  have "x \<ge> pn" if "x \<in> pn_set b" for x
    using that b assms(2) by (force simp: pn_set_def range_set_def)
  then show "pn_set (b @ [h\<lparr>pr_lo := max pn (pr_lo h)\<rparr>]) = pn_set (b @ [h]) \<inter> {pn..}"
    by (auto simp: range_set_def)
qed

lemma trim_below_ranges:
  "ps_ranges (trim_below pn s) =
     (case rev (pop_below pn (ps_ranges s)) of
        [] \<Rightarrow> [] | h # b \<Rightarrow> rev b @ [h\<lparr>pr_lo := max pn (pr_lo h)\<rparr>])"
  by (cases "pop_below pn (ps_ranges s)" rule: rev_cases)
    (auto simp: trim_below_def Let_def max_def)

lemma trim_below_step:
  assumes "pn_inv s"
  shows "pn_inv (trim_below pn s)" and "received (trim_below pn s) = received s \<inter> {pn..}"
proof -
  let ?rs = "pop_below pn (ps_ranges s)"
  have d: "desc_list ?rs" and len: "length ?rs \<le> kMaxAckRanges"
    and set: "pn_set ?rs \<inter> {pn..} = received s \<inter> {pn..}"
    and last: "?rs = [] \<or> pn \<le> pr_hi (last ?rs)"
    using pop_below_spec [of "ps_ranges s" pn] assms by (auto simp: pn_inv_desc)
  have "pn_inv (trim_below pn s) \<and> received (trim_below pn s) = received s \<inter> {pn..}"
  proof (cases ?rs rule: rev_cases)
    case Nil
    with d len set show ?thesis by (simp add: pn_inv_desc trim_below_ranges)
  next
    case (snoc b h)
    with last have "pn \<le> pr_hi h" by simp
    from trim_last [OF d [unfolded snoc] this] len set snoc show ?thesis
      by (simp add: pn_inv_desc trim_below_ranges)
  qed
  then show "pn_inv (trim_below pn s)" and "received (trim_below pn s) = received s \<inter> {pn..}"
    by blast+
qed

section \<open>The ACK frame\<close>

text \<open>
  The packet numbers an ACK frame acknowledges (RFC 9000 section 19.3.1): the first range reaches
  down from the largest number; each further range starts \<open>gap + 2\<close> below the smallest number of
  the one before.
\<close>

fun acked_below :: "nat \<Rightarrow> ack_range list \<Rightarrow> nat set" where
  "acked_below smallest [] = {}"
| "acked_below smallest (r # rs) =
     (let largest = smallest - ar_gap r - 2
      in {largest - ar_length r..largest} \<union> acked_below (largest - ar_length r) rs)"

definition ack_set :: "ack_frame \<Rightarrow> nat set" where
  "ack_set f = {ack_largest_acked f - ack_first_range f..ack_largest_acked f}
     \<union> acked_below (ack_largest_acked f - ack_first_range f) (ack_ranges f)"

lemma desc_list_Cons2:
  "desc_list (r # q # rs) \<longleftrightarrow> range_wf r \<and> above r q \<and> desc_list (q # rs)"
  using ranges_desc_sorted [of "r # q # rs"] ranges_desc_sorted [of "q # rs"]
  by (simp add: range_wf_def [of r] above_def [of r q])

lemma ack_gaps_set:
  "desc_list (r # rs) \<Longrightarrow> acked_below (pr_lo r) (ack_gaps r rs) = pn_set rs"
proof (induction rs arbitrary: r)
  case (Cons q rs)
  then have r: "pr_lo r \<le> pr_hi r" "pr_hi r < 2 ^ 62" "pr_hi q + 1 < pr_lo r"
    and q: "pr_lo q \<le> pr_hi q" and d: "desc_list (q # rs)"
    by (simp_all only: desc_list_Cons2 range_wf_def [of r] above_def [of r q])
      (simp_all add: range_wf_def [of q])
  from r q have g: "usub (usub (pr_lo r) (pr_hi q)) 2 = pr_lo r - pr_hi q - 2"
    and l: "usub (pr_hi q) (pr_lo q) = pr_hi q - pr_lo q" by simp_all
  have "pr_lo r - (pr_lo r - pr_hi q - 2) - 2 = pr_hi q" using r by linarith
  with q Cons.IH [OF d] show ?case by (simp add: g l range_set_def Let_def)
qed simp

lemma ack_gaps_ok:
  "desc_list (r # rs) \<Longrightarrow> list_all range_ok (ack_gaps r rs) \<and> length (ack_gaps r rs) = length rs"
proof (induction rs arbitrary: r)
  case (Cons q rs)
  then have r: "pr_lo r \<le> pr_hi r" "pr_hi r < 2 ^ 62" "pr_hi q + 1 < pr_lo r"
    and q: "pr_lo q \<le> pr_hi q" and d: "desc_list (q # rs)"
    by (simp_all only: desc_list_Cons2 range_wf_def [of r] above_def [of r q])
      (simp_all add: range_wf_def [of q])
  from r q have "range_ok \<lparr>ar_gap = usub (usub (pr_lo r) (pr_hi q)) 2,
      ar_length = usub (pr_hi q) (pr_lo q)\<rparr>" by (auto simp: range_ok_def kMax_eq)
  with Cons.IH [OF d] show ?case by simp
qed simp

lemma build_ack_frame_correct:
  assumes "pn_inv s" and "ps_ranges s \<noteq> []" and "build_ack_frame delay s = (f, s')"
  shows "ack_set f = received s" and "delay \<le> kMax \<Longrightarrow> frame_ok (AckFrame f)"
    and "s' = s\<lparr>ps_needs_ack := False\<rparr>"
proof -
  obtain r rs where rs: "ps_ranges s = r # rs" using assms(2) by (cases "ps_ranges s") auto
  then have d: "desc_list (r # rs)" and len: "length rs < kMaxAckRanges"
    using assms(1) by (auto simp: pn_inv_desc)
  then have wf: "pr_lo r \<le> pr_hi r" "pr_hi r < 2 ^ 62" by (simp_all add: range_wf_def)
  then have u: "usub (pr_hi r) (pr_lo r) = pr_hi r - pr_lo r" by simp
  have f: "f = empty_ack_frame\<lparr>ack_largest_acked := pr_hi r, ack_delay := delay,
      ack_first_range := pr_hi r - pr_lo r, ack_ranges := ack_gaps r rs\<rparr>"
    and s': "s' = s\<lparr>ps_needs_ack := False\<rparr>"
    using assms(3) rs u by (auto simp: build_ack_frame_def)
  show "s' = s\<lparr>ps_needs_ack := False\<rparr>" by (rule s')
  show "ack_set f = received s"
    using ack_gaps_set [OF d] wf rs by (simp add: ack_set_def f range_set_def)
  show "frame_ok (AckFrame f)" if "delay \<le> kMax"
    using that ack_gaps_ok [OF d] wf len
    by (simp add: f empty_ack_frame_def kMax_eq kMaxAckRanges_def)
qed

section \<open>The tracker as an interface\<close>

text \<open>
  What a connection relies on: a tracker that records packet numbers one at a time. It never reports
  a number that did not arrive, and it may forget numbers only while at least \<open>cap\<close> greater ones stay.
\<close>

locale pn_tracker =
  fixes init :: 's and recv :: "nat \<Rightarrow> bool \<Rightarrow> 's \<Rightarrow> 's"
    and abs :: "'s \<Rightarrow> nat set" and invar :: "'s \<Rightarrow> bool" and cap :: nat
  assumes invar_init: "invar init" and abs_init: "abs init = {}"
    and invar_recv: "invar s \<Longrightarrow> pn < 2 ^ 62 \<Longrightarrow> invar (recv pn e s)"
    and abs_recv: "invar s \<Longrightarrow> pn < 2 ^ 62 \<Longrightarrow>
      \<exists>b. abs (recv pn e s) = insert pn (abs s) \<inter> {b..} \<and> (b = 0 \<or> cap \<le> card (abs (recv pn e s)))"
begin

text \<open>\<open>tracks s R\<close>: the state \<open>s\<close> may stand for the arrivals \<open>R\<close>.\<close>

definition tracks :: "'s \<Rightarrow> nat set \<Rightarrow> bool" where
  "tracks s R \<longleftrightarrow> invar s \<and> finite R \<and> abs s \<subseteq> R \<and>
     (\<forall>p \<in> R - abs s. cap \<le> card {q \<in> abs s. p < q})"

lemma tracks_recv:
  assumes "tracks s R" and "pn < 2 ^ 62"
  shows "tracks (recv pn e s) (insert pn R)"
proof -
  let ?s' = "recv pn e s"
  from assms have inv: "invar s" and fin: "finite R" and sub: "abs s \<subseteq> R"
    and lost: "\<And>p. p \<in> R - abs s \<Longrightarrow> cap \<le> card {q \<in> abs s. p < q}"
    by (auto simp: tracks_def)
  obtain b where b: "abs ?s' = insert pn (abs s) \<inter> {b..}" and cut: "b = 0 \<or> cap \<le> card (abs ?s')"
    using abs_recv [OF inv assms(2)] by blast
  have fin': "finite (abs ?s')" unfolding b using finite_subset [OF sub fin] by simp
  have "cap \<le> card {q \<in> abs ?s'. p < q}" if p: "p \<in> insert pn R - abs ?s'" for p
  proof (cases "p < b")
    case True
    then have "{q \<in> abs ?s'. p < q} = abs ?s'" unfolding b by auto
    with True cut show ?thesis by auto
  next
    case False
    then have "p \<in> R - abs s" using p b by auto
    then have "cap \<le> card {q \<in> abs s. p < q}" by (rule lost)
    also have "\<dots> \<le> card {q \<in> abs ?s'. p < q}"
    proof (rule card_mono)
      show "finite {q \<in> abs ?s'. p < q}" by (rule finite_subset [OF _ fin']) blast
      show "{q \<in> abs s. p < q} \<subseteq> {q \<in> abs ?s'. p < q}"
        using False unfolding b by (simp add: subset_iff)
    qed
    finally show ?thesis .
  qed
  then show ?thesis using invar_recv [OF inv assms(2)] fin sub b by (auto simp: tracks_def)
qed

definition recv_all :: "(nat \<times> bool) list \<Rightarrow> 's \<Rightarrow> 's" where
  "recv_all ps = fold (\<lambda>(pn, e). recv pn e) ps"

lemma tracks_recv_all:
  "tracks s R \<Longrightarrow> \<forall>p \<in> set ps. fst p < 2 ^ 62 \<Longrightarrow> tracks (recv_all ps s) (R \<union> fst ` set ps)"
proof (induction ps arbitrary: s R)
  case (Cons p ps)
  from Cons.prems tracks_recv have "tracks (recv (fst p) (snd p) s) (insert (fst p) R)" by simp
  from Cons.IH [OF this] Cons.prems(2) show ?case
    by (simp add: recv_all_def case_prod_beta)
qed (simp add: recv_all_def)

lemma tracks_init: "tracks init {}"
  by (simp add: tracks_def invar_init abs_init)

lemma recv_all_sound:
  assumes "\<forall>p \<in> set ps. fst p < 2 ^ 62"
  shows "abs (recv_all ps init) \<subseteq> fst ` set ps"
  using tracks_recv_all [OF tracks_init assms] by (simp add: tracks_def)

lemma recv_all_keeps:
  assumes "\<forall>p \<in> set ps. fst p < 2 ^ 62" and "pn \<in> fst ` set ps"
    and "card {q \<in> fst ` set ps. pn < q} < cap"
  shows "pn \<in> abs (recv_all ps init)"
proof (rule ccontr)
  assume "pn \<notin> abs (recv_all ps init)"
  with assms(2) tracks_recv_all [OF tracks_init assms(1)]
  have "cap \<le> card {q \<in> abs (recv_all ps init). pn < q}" by (simp add: tracks_def)
  also have "\<dots> \<le> card {q \<in> fst ` set ps. pn < q}"
    using recv_all_sound [OF assms(1)] by (intro card_mono) auto
  finally show False using assms(3) by simp
qed

end

interpretation tracker: pn_tracker pn_space_init on_received "\<lambda>s. pn_set (ps_ranges s)" pn_inv
  kMaxAckRanges
proof
  show "pn_inv pn_space_init" by (simp add: pn_inv_def pn_space_init_def)
  show "pn_set (ps_ranges pn_space_init) = {}" by (simp add: pn_space_init_def)
qed (use on_received_inv on_received_set in blast)+

section \<open>Properties\<close>

lemma frame_ok_on_wire:
  assumes "frame_ok f"
  shows "\<exists>w. encode_frame [] f = Some w \<and> parse_frame w 0 = Some (f, length w)"
  using encode_frame_wire [OF assms, of "[]"] parse_frame_wire_at [OF assms frame_follow_Nil, of 0]
  by simp

text \<open>C26. Receiving a packet keeps the range list sorted, disjoint, non-adjacent and at most 32 long.
  The set it stands for gains the packet number; while there are fewer than 32 ranges nothing is
  lost, and otherwise only numbers below at least 32 others are.\<close>

theorem on_received_refines:
  assumes "pn_inv s" and "pn < 2 ^ 62"
  shows "pn_inv (on_received pn e s)
    \<and> (length (ps_ranges s) < kMaxAckRanges \<longrightarrow>
         pn_set (ps_ranges (on_received pn e s)) = insert pn (pn_set (ps_ranges s)))
    \<and> (\<exists>b. pn_set (ps_ranges (on_received pn e s)) = insert pn (pn_set (ps_ranges s)) \<inter> {b..} \<and>
         (b = 0 \<or> kMaxAckRanges \<le> card (pn_set (ps_ranges (on_received pn e s)))))"
  using on_received_inv [OF assms] on_received_exact [OF assms] on_received_set [OF assms] by blast

theorem on_received_refines_witness:
  "pn_set (ps_ranges (on_received 6 True \<lparr>ps_ranges = [\<lparr>pr_lo = 7, pr_hi = 9\<rparr>, \<lparr>pr_lo = 2, pr_hi = 5\<rparr>],
      ps_largest_received = Some 9, ps_needs_ack = False\<rparr>)) = {2..9}"
proof -
  let ?s = "\<lparr>ps_ranges = [\<lparr>pr_lo = 7, pr_hi = 9\<rparr>, \<lparr>pr_lo = 2, pr_hi = 5\<rparr>],
      ps_largest_received = Some 9, ps_needs_ack = False\<rparr>"
  have six: "(6 :: nat) < 2 ^ 62" by simp
  have "pn_inv ?s" by (simp add: pn_inv_def kMaxAckRanges_def)
  moreover have "length (ps_ranges ?s) < kMaxAckRanges" by (simp add: kMaxAckRanges_def)
  ultimately have "pn_set (ps_ranges (on_received 6 True ?s)) = insert 6 (pn_set (ps_ranges ?s))"
    using on_received_refines [of ?s 6 True, OF _ six] by blast
  also have "\<dots> = {2..9}" by (simp add: set_eq_iff) presburger
  finally show ?thesis .
qed

text \<open>C13. From reception to the peer's parser: whatever packet numbers arrive, in whatever order and
  with whatever repetitions, the ACK frame built afterwards can be encoded, parses back unchanged,
  acknowledges no packet that did not arrive, and acknowledges every arrived packet that has fewer
  than 32 greater ones among the arrivals. The request for an acknowledgement is then cleared.\<close>

theorem ack_of_arrivals:
  assumes "\<forall>p \<in> set ps. fst p < 2 ^ 62" and "ps \<noteq> []" and "delay \<le> kMax"
    and "build_ack_frame delay (fold (\<lambda>(pn, e). on_received pn e) ps pn_space_init) = (f, s')"
  shows "(\<exists>w. encode_frame [] (AckFrame f) = Some w \<and> parse_frame w 0 = Some (AckFrame f, length w))
    \<and> ack_set f \<subseteq> fst ` set ps
    \<and> (\<forall>pn \<in> fst ` set ps. card {q \<in> fst ` set ps. pn < q} < kMaxAckRanges \<longrightarrow> pn \<in> ack_set f)
    \<and> \<not> ps_needs_ack s'"
proof -
  let ?s = "tracker.recv_all ps pn_space_init"
  have inv: "pn_inv ?s"
    using tracker.tracks_recv_all [OF tracker.tracks_init assms(1)] by (simp add: tracker.tracks_def)
  have built: "build_ack_frame delay ?s = (f, s')" using assms(4) by (simp add: tracker.recv_all_def)
  let ?m = "Max (fst ` set ps)"
  have m: "?m \<in> fst ` set ps" using assms(2) by (intro Max_in) auto
  have none: "{q \<in> fst ` set ps. ?m < q} = {}" by (auto simp: not_less)
  have "?m \<in> received ?s"
    by (rule tracker.recv_all_keeps [OF assms(1) m])
      (simp only: none card.empty kMaxAckRanges_def zero_less_numeral)
  then have "ps_ranges ?s \<noteq> []" by auto
  note f = build_ack_frame_correct [OF inv this built]
  show ?thesis
    using frame_ok_on_wire [OF f(2) [OF assms(3)]] tracker.recv_all_sound [OF assms(1)]
      tracker.recv_all_keeps [OF assms(1)] f(1,3) by simp
qed

theorem ack_of_arrivals_witness:
  "ack_set (fst (build_ack_frame 25 (fold (\<lambda>(pn, e). on_received pn e)
     [(3, True), (0, True), (1, False), (5, True), (3, True)] pn_space_init))) = {0, 1, 3, 5}"
proof -
  let ?ps = "[(3, True), (0, True), (1, False), (5, True), (3, True)] :: (nat \<times> bool) list"
  let ?r = "build_ack_frame 25 (fold (\<lambda>(pn, e). on_received pn e) ?ps pn_space_init)"
  have "\<forall>p \<in> set ?ps. fst p < 2 ^ 62" and "?ps \<noteq> []" and "25 \<le> kMax"
    and "?r = (fst ?r, snd ?r)" by (simp_all add: kMax_eq)
  note A = ack_of_arrivals [OF this]
  have "card {q \<in> fst ` set ?ps. pn < q} < kMaxAckRanges" for pn
  proof -
    have "card {q \<in> fst ` set ?ps. pn < q} \<le> card (fst ` set ?ps)" by (rule card_mono) auto
    also have "\<dots> < kMaxAckRanges" by (simp add: card_insert_if kMaxAckRanges_def)
    finally show ?thesis .
  qed
  with A have "fst ` set ?ps \<subseteq> ack_set (fst ?r)" by blast
  with A have "ack_set (fst ?r) = fst ` set ?ps" by blast
  also have "\<dots> = {0, 1, 3, 5}" by (simp add: insert_commute)
  finally show ?thesis .
qed

text \<open>Trimming forgets exactly the packet numbers below the bound and keeps the invariant.\<close>

theorem trim_below_refines:
  assumes "pn_inv s"
  shows "pn_inv (trim_below pn s) \<and>
    pn_set (ps_ranges (trim_below pn s)) = pn_set (ps_ranges s) \<inter> {pn..} \<and>
    ps_largest_received (trim_below pn s) = ps_largest_received s"
  using trim_below_step [OF assms, of pn] by (simp add: trim_below_def Let_def)

theorem trim_below_refines_witness:
  "pn_set (ps_ranges (trim_below 8 \<lparr>ps_ranges = [\<lparr>pr_lo = 7, pr_hi = 9\<rparr>, \<lparr>pr_lo = 2, pr_hi = 5\<rparr>],
      ps_largest_received = Some 9, ps_needs_ack = False\<rparr>)) = {8, 9}"
proof -
  let ?s = "\<lparr>ps_ranges = [\<lparr>pr_lo = 7, pr_hi = 9\<rparr>, \<lparr>pr_lo = 2, pr_hi = 5\<rparr>],
      ps_largest_received = Some 9, ps_needs_ack = False\<rparr>"
  have "pn_inv ?s" by (simp add: pn_inv_def kMaxAckRanges_def)
  then have "pn_set (ps_ranges (trim_below 8 ?s)) = pn_set (ps_ranges ?s) \<inter> {8..}"
    using trim_below_refines [of ?s 8] by blast
  also have "\<dots> = {8, 9}" by (simp add: set_eq_iff) presburger
  finally show ?thesis .
qed

end
