(* ===== verification/Recovery.thy ===== *)
theory Recovery
  imports Prelude "HOL-Library.Signed_Division"
begin

text \<open>
  Round-trip estimation and timers: \<open>example/quic-http3/src/quic/recovery.cpp\<close>. A \<open>Duration\<close> is a
  signed 64-bit count of nanoseconds, modelled as an integer. Signed arithmetic that leaves the
  64-bit range is undefined behaviour in C++; the operations return \<open>None\<close> there, so that a result
  \<open>Some\<close> says that every intermediate value fits. Division truncates towards zero (\<open>sdiv\<close>).
\<close>

section \<open>The code\<close>

type_synonym duration = int

definition chk64 :: "int \<Rightarrow> int option" where
  "chk64 x = (if - (2 ^ 63) \<le> x \<and> x < 2 ^ 63 then Some x else None)"

definition duration_max :: duration where
  "duration_max = 2 ^ 63 - 1"

definition kInitialRtt :: duration where "kInitialRtt = 333000000"

definition kGranularity :: duration where "kGranularity = 1000000"

definition kPacketThreshold :: nat where "kPacketThreshold = 3"

record recovery =
  rv_latest_rtt :: duration
  rv_smoothed_rtt :: duration
  rv_rttvar :: duration
  rv_min_rtt :: duration
  rv_have_sample :: bool
  rv_pto_count :: nat

definition recovery_init :: recovery where
  "recovery_init = \<lparr>rv_latest_rtt = 0, rv_smoothed_rtt = kInitialRtt,
     rv_rttvar = kInitialRtt sdiv 2, rv_min_rtt = duration_max, rv_have_sample = False,
     rv_pto_count = 0\<rparr>"

definition on_rtt_sample :: "duration \<Rightarrow> duration \<Rightarrow> recovery \<Rightarrow> recovery option" where
  "on_rtt_sample latest ack_delay s =
     (let s = s\<lparr>rv_latest_rtt := latest\<rparr>
      in if \<not> rv_have_sample s then
           Some (s\<lparr>rv_min_rtt := latest, rv_smoothed_rtt := latest, rv_rttvar := latest sdiv 2,
                   rv_have_sample := True\<rparr>)
         else do {
           let s = s\<lparr>rv_min_rtt := min (rv_min_rtt s) latest\<rparr>;
           bound \<leftarrow> chk64 (rv_min_rtt s + ack_delay);
           adjusted \<leftarrow> (if latest \<ge> bound then chk64 (latest - ack_delay) else Some latest);
           sm7 \<leftarrow> chk64 (7 * rv_smoothed_rtt s);
           sm8 \<leftarrow> chk64 (sm7 + adjusted);
           let sm_ns = sm8 sdiv 8;
           let s = s\<lparr>rv_smoothed_rtt := sm_ns\<rparr>;
           diff \<leftarrow> chk64 (if sm_ns > adjusted then sm_ns - adjusted else adjusted - sm_ns);
           rv3 \<leftarrow> chk64 (3 * rv_rttvar s);
           rv4 \<leftarrow> chk64 (rv3 + diff);
           Some (s\<lparr>rv_rttvar := rv4 sdiv 4\<rparr>)
         })"

text \<open>A left shift of a signed 64-bit value keeps the low 64 bits (C++20).\<close>

definition shl64 :: "int \<Rightarrow> nat \<Rightarrow> int" where
  "shl64 x n = (x * 2 ^ n + 2 ^ 63) mod 2 ^ 64 - 2 ^ 63"

definition pto_base :: "duration \<Rightarrow> recovery \<Rightarrow> duration option" where
  "pto_base max_ack_delay s = do {
     rv4 \<leftarrow> chk64 (rv_rttvar s * 4);
     sum1 \<leftarrow> chk64 (rv_smoothed_rtt s + max rv4 kGranularity);
     chk64 (sum1 + max_ack_delay)
   }"

definition pto_timeout :: "duration \<Rightarrow> recovery \<Rightarrow> duration option" where
  "pto_timeout max_ack_delay s = do {
     base \<leftarrow> pto_base max_ack_delay s;
     Some (if rv_pto_count s = 0 then base else shl64 base (min (rv_pto_count s) 30))
   }"

definition loss_time_threshold :: "recovery \<Rightarrow> duration option" where
  "loss_time_threshold s = do {
     let base = max (rv_smoothed_rtt s) (rv_latest_rtt s);
     ns9 \<leftarrow> chk64 (base * 9);
     Some (ns9 sdiv 8)
   }"

definition on_pto_fired :: "recovery \<Rightarrow> recovery" where
  "on_pto_fired s = s\<lparr>rv_pto_count := (rv_pto_count s + 1) mod 2 ^ 32\<rparr>"

definition reset_pto :: "recovery \<Rightarrow> recovery" where
  "reset_pto s = s\<lparr>rv_pto_count := 0\<rparr>"

lemmas recovery_consts = duration_max_def kInitialRtt_def kGranularity_def kPacketThreshold_def

section \<open>The estimator stays within the samples\<close>

lemma chk64_Some [simp]: "- (2 ^ 63) \<le> x \<Longrightarrow> x < 2 ^ 63 \<Longrightarrow> chk64 x = Some x"
  by (simp add: chk64_def)

lemma chk64_fits: "0 \<le> x \<Longrightarrow> x \<le> 8 * 2 ^ 59 \<Longrightarrow> chk64 x = Some x"
  by (simp add: chk64_def)

lemma sdiv_nonneg [simp]: "0 \<le> x \<Longrightarrow> 0 < y \<Longrightarrow> x sdiv y = (x :: int) div y"
  by (simp add: signed_divide_int_def sgn_if)

text \<open>
  \<open>rtt_within lo hi s\<close>: all samples so far lie between \<open>lo\<close>, which is the least of them, and \<open>hi\<close>.
\<close>

definition rtt_within :: "int \<Rightarrow> int \<Rightarrow> recovery \<Rightarrow> bool" where
  "rtt_within lo hi s \<longleftrightarrow> rv_have_sample s \<and> rv_min_rtt s = lo
     \<and> lo \<le> rv_smoothed_rtt s \<and> rv_smoothed_rtt s \<le> hi
     \<and> lo \<le> rv_latest_rtt s \<and> rv_latest_rtt s \<le> hi \<and> 0 \<le> rv_rttvar s \<and> rv_rttvar s \<le> hi"

lemma average_bounds:
  fixes s a lo hi :: int
  assumes "lo \<le> s" "s \<le> hi" "lo \<le> a" "a \<le> hi"
  shows "lo \<le> (7 * s + a) div 8" and "(7 * s + a) div 8 \<le> hi"
  using assms by linarith+

lemma rttvar_bounds:
  fixes r d hi :: int
  assumes "0 \<le> r" "r \<le> hi" "0 \<le> d" "d \<le> hi"
  shows "0 \<le> (3 * r + d) div 4" and "(3 * r + d) div 4 \<le> hi"
  using assms by linarith+

lemma rtt_first_sample:
  assumes "0 \<le> latest" and "\<not> rv_have_sample s"
  shows "\<exists>s'. on_rtt_sample latest d s = Some s' \<and> rtt_within latest latest s'"
  using assms by (simp add: on_rtt_sample_def rtt_within_def)

lemma rtt_next_sample:
  assumes "rtt_within lo hi s" and "0 \<le> lo" and "hi \<le> 2 ^ 59" and "0 \<le> latest" and "latest \<le> 2 ^ 59"
    and "0 \<le> d" and "d \<le> 2 ^ 59"
  shows "\<exists>s'. on_rtt_sample latest d s = Some s' \<and> rtt_within (min lo latest) (max hi latest) s'"
proof -
  define adj where "adj = (if latest \<ge> min lo latest + d then latest - d else latest)"
  define sm where "sm = (7 * rv_smoothed_rtt s + adj) div 8"
  define diff where "diff = (if sm > adj then sm - adj else adj - sm)"
  let ?lo = "min lo latest" and ?hi = "max hi latest"
  have s: "rv_have_sample s" "rv_min_rtt s = lo" "?lo \<le> rv_smoothed_rtt s" "rv_smoothed_rtt s \<le> ?hi"
    "0 \<le> rv_rttvar s" "rv_rttvar s \<le> ?hi"
    using assms(1) by (auto simp: rtt_within_def)
  have lohi: "0 \<le> ?lo" "?lo \<le> 2 ^ 59" "?hi \<le> 2 ^ 59" using assms by auto
  have adj: "?lo \<le> adj" "adj \<le> ?hi" using assms by (auto simp: adj_def)
  have sm: "?lo \<le> sm" "sm \<le> ?hi" unfolding sm_def using average_bounds s adj by blast+
  have diff: "0 \<le> diff" "diff \<le> ?hi" using sm adj lohi by (auto simp: diff_def)
  have rv: "0 \<le> (3 * rv_rttvar s + diff) div 4" "(3 * rv_rttvar s + diff) div 4 \<le> ?hi"
    using rttvar_bounds s diff by blast+
  have "on_rtt_sample latest d s = Some (s\<lparr>rv_latest_rtt := latest, rv_min_rtt := ?lo,
      rv_smoothed_rtt := sm, rv_rttvar := (3 * rv_rttvar s + diff) div 4\<rparr>)"
  proof -
    have "chk64 (?lo + d) = Some (?lo + d)" using assms lohi by (intro chk64_fits) linarith+
    moreover have "(if latest \<ge> ?lo + d then chk64 (latest - d) else Some latest) = Some adj"
      using assms by (simp add: adj_def)
    moreover have "chk64 (7 * rv_smoothed_rtt s) = Some (7 * rv_smoothed_rtt s)"
      using s lohi by (intro chk64_fits) linarith+
    moreover have "chk64 (7 * rv_smoothed_rtt s + adj) = Some (7 * rv_smoothed_rtt s + adj)"
      using s adj lohi by (intro chk64_fits) linarith+
    moreover have "(7 * rv_smoothed_rtt s + adj) sdiv 8 = sm"
      unfolding sm_def using s adj lohi by (intro sdiv_nonneg) linarith+
    moreover have "chk64 (if sm > adj then sm - adj else adj - sm) = Some diff"
      using diff lohi unfolding diff_def [symmetric] by (intro chk64_fits) linarith+
    moreover have "chk64 (3 * rv_rttvar s) = Some (3 * rv_rttvar s)"
      using s lohi by (intro chk64_fits) linarith+
    moreover have "chk64 (3 * rv_rttvar s + diff) = Some (3 * rv_rttvar s + diff)"
      using s diff lohi by (intro chk64_fits) linarith+
    moreover have "(3 * rv_rttvar s + diff) sdiv 4 = (3 * rv_rttvar s + diff) div 4"
      using s diff by (intro sdiv_nonneg) linarith+
    ultimately show ?thesis using s(1,2) by (simp add: on_rtt_sample_def)
  qed
  moreover have "?lo \<le> latest" "latest \<le> ?hi" by simp_all
  ultimately show ?thesis using s(1) sm rv by (simp add: rtt_within_def)
qed

text \<open>A sequence of samples, each with the acknowledgement delay the peer reported.\<close>

fun rtt_samples :: "(duration \<times> duration) list \<Rightarrow> recovery \<Rightarrow> recovery option" where
  "rtt_samples [] s = Some s"
| "rtt_samples ((latest, ack_delay) # xs) s =
     Option.bind (on_rtt_sample latest ack_delay s) (rtt_samples xs)"

definition sample_ok :: "duration \<times> duration \<Rightarrow> bool" where
  "sample_ok x \<longleftrightarrow> 0 \<le> fst x \<and> fst x \<le> 2 ^ 59 \<and> 0 \<le> snd x \<and> snd x \<le> 2 ^ 59"

lemma on_rtt_sample_latest:
  "on_rtt_sample l d s = Some s' \<Longrightarrow> rv_latest_rtt s' = l"
  by (auto simp: on_rtt_sample_def Let_def split: if_splits bind_splits)

lemma rtt_samples_within:
  assumes "rtt_within lo hi s" and "0 \<le> lo" and "hi \<le> 2 ^ 59" and "list_all sample_ok xs"
  shows "\<exists>s'. rtt_samples xs s = Some s' \<and>
    rtt_within (fold min (map fst xs) lo) (fold max (map fst xs) hi) s' \<and>
    rv_latest_rtt s' = last (rv_latest_rtt s # map fst xs)"
  using assms
proof (induction xs arbitrary: s lo hi)
  case (Cons x xs)
  obtain l d where x: "x = (l, d)" by (cases x)
  with Cons.prems have ld: "0 \<le> l" "l \<le> 2 ^ 59" "0 \<le> d" "d \<le> 2 ^ 59" by (simp_all add: sample_ok_def)
  obtain s1 where s1: "on_rtt_sample l d s = Some s1" "rtt_within (min lo l) (max hi l) s1"
    using rtt_next_sample [OF Cons.prems(1-3) ld] by blast
  have "0 \<le> min lo l" "max hi l \<le> 2 ^ 59" using Cons.prems ld by auto
  from Cons.IH [OF s1(2) this] Cons.prems(4) show ?case
    using s1(1) on_rtt_sample_latest [OF s1(1)] by (simp add: x min.commute max.commute)
qed simp

lemma fold_min_Min: "fold min (xs :: int list) a = Min (set (a # xs))"
  by (metis Min.set_eq_fold list.simps(15))

lemma fold_max_Max: "fold max (xs :: int list) a = Max (set (a # xs))"
  by (metis Max.set_eq_fold list.simps(15))

lemma shl64_exact:
  assumes "0 \<le> x" and "x < 2 ^ 33" and "n \<le> 30"
  shows "shl64 x n = x * 2 ^ n"
proof -
  have "(2 :: int) ^ n \<le> 2 ^ 30" using assms(3) by (intro power_increasing) simp_all
  then have "x * 2 ^ n < 2 ^ 33 * 2 ^ 30"
    by (intro mult_less_le_imp_less) (use assms in simp_all)
  then have "x * 2 ^ n < 2 ^ 63" by simp
  moreover have "0 \<le> x * 2 ^ n" using assms(1) by simp
  ultimately show ?thesis by (simp add: shl64_def)
qed

section \<open>Properties\<close>

text \<open>C29. For any non-empty sequence of samples whose RTT and acknowledgement delay are each between 0
  and 2^59 ns (eighteen years), no signed arithmetic overflows, \<open>min_rtt\<close> is the least sample, \<open>latest_rtt\<close> the last one, the smoothed estimate lies between
  the least and the greatest sample, and the variation between zero and the greatest sample:
  subtracting the acknowledgement delay never drives the estimate below \<open>min_rtt\<close>.\<close>

theorem rtt_estimate_within_samples:
  assumes "list_all sample_ok xs" and "xs \<noteq> []"
  shows "\<exists>s. rtt_samples xs recovery_init = Some s
    \<and> rv_min_rtt s = Min (fst ` set xs) \<and> rv_latest_rtt s = fst (last xs)
    \<and> Min (fst ` set xs) \<le> rv_smoothed_rtt s \<and> rv_smoothed_rtt s \<le> Max (fst ` set xs)
    \<and> 0 \<le> rv_rttvar s \<and> rv_rttvar s \<le> Max (fst ` set xs)"
proof -
  obtain l d ys where xs: "xs = (l, d) # ys" using assms(2) by (metis neq_Nil_conv prod.exhaust)
  with assms(1) have l: "0 \<le> l" "l \<le> 2 ^ 59" and ys: "list_all sample_ok ys"
    by (simp_all add: sample_ok_def [of "(l, d)"])
  obtain s1 where s1: "on_rtt_sample l d recovery_init = Some s1" "rtt_within l l s1"
    using rtt_first_sample [OF l(1), of recovery_init d] by (auto simp: recovery_init_def)
  obtain s where "rtt_samples ys s1 = Some s"
    "rtt_within (fold min (map fst ys) l) (fold max (map fst ys) l) s"
    "rv_latest_rtt s = last (l # map fst ys)"
    using rtt_samples_within [OF s1(2) l ys] on_rtt_sample_latest [OF s1(1)] by auto
  moreover have "fst (last xs) = last (l # map fst ys)"
    by (simp add: xs last_map)
  ultimately show ?thesis
    using s1(1) by (auto simp: xs rtt_within_def fold_min_Min fold_max_Max)
qed

theorem rtt_estimate_within_samples_witness:
  "\<exists>s. rtt_samples [(80, 0), (120, 10), (60, 30)] recovery_init = Some s
    \<and> rv_min_rtt s = 60 \<and> rv_latest_rtt s = 60 \<and> 60 \<le> rv_smoothed_rtt s \<and> rv_smoothed_rtt s \<le> 120"
proof -
  have "list_all sample_ok [(80, 0), (120, 10), (60, 30)]" by (simp add: sample_ok_def)
  from rtt_estimate_within_samples [OF this] obtain s where
    "rtt_samples [(80, 0), (120, 10), (60, 30)] recovery_init = Some s"
    "rv_min_rtt s = 60" "rv_latest_rtt s = 60" "60 \<le> rv_smoothed_rtt s" "rv_smoothed_rtt s \<le> 120"
    by auto
  then show ?thesis by blast
qed

text \<open>C38. The probe timeout backs off exponentially: as long as the base interval is below 2^33 ns
  (8.59 s) it is exactly doubled by each of the first thirty probes and stays there afterwards;
  \<open>reset_pto\<close> brings it back to the base.\<close>

theorem pto_backoff:
  assumes "pto_base d s = Some b" and "0 \<le> b" and "b < 2 ^ 33"
  shows "pto_timeout d s = Some (b * 2 ^ min (rv_pto_count s) 30)
    \<and> (rv_pto_count s < 30 \<longrightarrow> pto_timeout d (on_pto_fired s) = Some (2 * (b * 2 ^ rv_pto_count s)))
    \<and> pto_timeout d (reset_pto s) = Some b"
proof -
  have exact: "pto_timeout d t = Some (b * 2 ^ min (rv_pto_count t) 30)"
    if "pto_base d t = Some b" for t
    using that shl64_exact [OF assms(2,3), of "min (rv_pto_count t) 30"]
    by (simp add: pto_timeout_def)
  have base: "pto_base d (on_pto_fired s) = Some b" "pto_base d (reset_pto s) = Some b"
    using assms(1) by (simp_all add: pto_base_def on_pto_fired_def reset_pto_def)
  have "pto_timeout d (on_pto_fired s) = Some (2 * (b * 2 ^ rv_pto_count s))"
    if "rv_pto_count s < 30"
    using exact [OF base(1)] that by (simp add: on_pto_fired_def min_def)
  then show ?thesis
    using exact [OF assms(1)] exact [OF base(2)] by (simp add: reset_pto_def)
qed

theorem pto_backoff_witness:
  "pto_timeout 25000000 (on_pto_fired (on_pto_fired recovery_init)) = Some (4 * 1024000000)"
proof -
  let ?s = "on_pto_fired recovery_init"
  have b: "pto_base 25000000 ?s = Some 1024000000"
    by (simp add: pto_base_def on_pto_fired_def recovery_init_def recovery_consts chk64_def)
  have c: "rv_pto_count ?s = 1" by (simp add: on_pto_fired_def recovery_init_def)
  show ?thesis using pto_backoff [OF b] by (simp add: c)
qed

text \<open>C36. The cap on the shift does not prevent the overflow it is meant to prevent: with a
  base interval of at least 2^33 and less than 2^34 ns (8.6 to 17.2 seconds), thirty or more consecutive
  probes make the timeout negative.\<close>

theorem pto_cap_overflows:
  assumes "pto_base d s = Some b" and "2 ^ 33 \<le> b" and "b < 2 ^ 34" and "30 \<le> rv_pto_count s"
  shows "\<exists>t < 0. pto_timeout d s = Some t"
proof -
  have m: "min (rv_pto_count s) 30 = 30" "rv_pto_count s \<noteq> 0" using assms(4) by simp_all
  let ?x = "b * 2 ^ 30 :: int"
  have x: "2 ^ 63 \<le> ?x" "?x < 2 ^ 64" using assms(2,3) by simp_all
  have "(?x + 2 ^ 63) mod 2 ^ 64 = (?x + 2 ^ 63 - 2 ^ 64) mod 2 ^ 64"
    by (rule minus_mod_self2 [symmetric])
  also have "\<dots> = ?x + 2 ^ 63 - 2 ^ 64" using x by (intro mod_pos_pos_trivial) simp_all
  finally have "shl64 b 30 = ?x - 2 ^ 64" by (simp add: shl64_def)
  then have "shl64 b 30 < 0" using x(2) by simp
  then show ?thesis using assms(1) m by (simp add: pto_timeout_def)
qed

theorem pto_cap_overflows_witness:
  "\<exists>t < 0. pto_timeout 25000000 (recovery_init\<lparr>rv_smoothed_rtt := 6000000000,
     rv_rttvar := 1000000000, rv_pto_count := 30\<rparr>) = Some t"
proof -
  let ?s = "recovery_init\<lparr>rv_smoothed_rtt := 6000000000, rv_rttvar := 1000000000, rv_pto_count := 30\<rparr>"
  have "pto_base 25000000 ?s = Some 10025000000"
    by (simp add: pto_base_def recovery_init_def recovery_consts chk64_def)
  then show ?thesis by (rule pto_cap_overflows) simp_all
qed

end
