(* ===== verification/Congestion.thy ===== *)
theory Congestion
  imports Recovery
begin

text \<open>
  NewReno congestion control: \<open>example/quic-http3/src/quic/congestion.cpp\<close>. Sizes are \<open>size_t\<close>
  (naturals with the wrap-around written out), time points are nanosecond counts. The window is
  halved in double precision, so the conversion from \<open>size_t\<close> to \<open>double\<close> is modelled with its
  rounding. The theory shows the bounds of the window, when it shrinks, and that it never grows
  again after the first loss.
\<close>

section \<open>The code\<close>

type_synonym time_point = int

definition kMaxDatagramSize :: nat where "kMaxDatagramSize = 1200"

definition kInitialWindowPackets :: nat where "kInitialWindowPackets = 10"

definition kMinWindowPackets :: nat where "kMinWindowPackets = 2"

lemmas congestion_consts = kMaxDatagramSize_def kInitialWindowPackets_def kMinWindowPackets_def

record congestion =
  cg_max_datagram_size :: nat
  cg_cwnd :: nat
  cg_bytes_in_flight :: nat
  cg_ssthresh :: nat
  cg_recovery_start_time :: "time_point option"

definition congestion_init :: "nat \<Rightarrow> congestion" where
  "congestion_init max_datagram_size =
     \<lparr>cg_max_datagram_size = max_datagram_size,
      cg_cwnd = umul max_datagram_size kInitialWindowPackets, cg_bytes_in_flight = 0,
      cg_ssthresh = 2 ^ 64 - 1, cg_recovery_start_time = None\<rparr>"

text \<open>
  Conversion of an unsigned integer to \<open>double\<close>: 53 significant bits, to nearest, ties to even.
\<close>

fun bit_width :: "nat \<Rightarrow> nat" where
  "bit_width n = (if n = 0 then 0 else Suc (bit_width (n div 2)))"

definition double_of_size :: "nat \<Rightarrow> nat" where
  "double_of_size n =
     (let e = bit_width n - 53; q = n div 2 ^ e; r = n mod 2 ^ e
      in if 2 * r > 2 ^ e \<or> 2 * r = 2 ^ e \<and> odd q then (q + 1) * 2 ^ e else q * 2 ^ e)"

text \<open>\<open>static_cast<std::size_t>(cwnd_ * 0.5)\<close>: halving a double is exact, the cast truncates.\<close>

definition loss_reduction :: "nat \<Rightarrow> nat" where
  "loss_reduction cwnd = double_of_size cwnd div 2"

definition on_packet_sent :: "nat \<Rightarrow> congestion \<Rightarrow> congestion" where
  "on_packet_sent bytes s = s\<lparr>cg_bytes_in_flight := uadd (cg_bytes_in_flight s) bytes\<rparr>"

definition in_recovery :: "time_point \<Rightarrow> congestion \<Rightarrow> bool" where
  "in_recovery now s = (case cg_recovery_start_time s of None \<Rightarrow> False | Some t \<Rightarrow> now > t)"

definition can_send :: "nat \<Rightarrow> congestion \<Rightarrow> bool" where
  "can_send bytes s \<longleftrightarrow> uadd (cg_bytes_in_flight s) bytes \<le> cg_cwnd s"

definition leave_flight :: "nat \<Rightarrow> congestion \<Rightarrow> congestion" where
  "leave_flight bytes s =
     (if bytes > cg_bytes_in_flight s then s\<lparr>cg_bytes_in_flight := 0\<rparr>
      else s\<lparr>cg_bytes_in_flight := cg_bytes_in_flight s - bytes\<rparr>)"

definition on_packets_acked :: "time_point \<Rightarrow> nat \<Rightarrow> congestion \<Rightarrow> congestion" where
  "on_packets_acked now bytes_acked s =
     (let s = leave_flight bytes_acked s
      in if in_recovery now s then s
         else if cg_cwnd s < cg_ssthresh s then s\<lparr>cg_cwnd := uadd (cg_cwnd s) bytes_acked\<rparr>
         else s\<lparr>cg_cwnd :=
                  uadd (cg_cwnd s) (umul (cg_max_datagram_size s) bytes_acked div cg_cwnd s)\<rparr>)"

definition enter_recovery :: "time_point \<Rightarrow> congestion \<Rightarrow> congestion" where
  "enter_recovery now s =
     (let s = s\<lparr>cg_ssthresh := loss_reduction (cg_cwnd s)\<rparr>;
          min_window = umul (cg_max_datagram_size s) kMinWindowPackets
      in s\<lparr>cg_cwnd := max (cg_ssthresh s) min_window, cg_recovery_start_time := Some now\<rparr>)"

definition on_packets_lost :: "time_point \<Rightarrow> nat \<Rightarrow> time_point \<Rightarrow> congestion \<Rightarrow> congestion" where
  "on_packets_lost now bytes_lost largest_lost_time s =
     (let s = leave_flight bytes_lost s
      in case cg_recovery_start_time s of
           Some t \<Rightarrow> if largest_lost_time \<le> t then s else enter_recovery now s
         | None \<Rightarrow> enter_recovery now s)"

section \<open>Halving\<close>

declare bit_width.simps [simp del]

lemma bit_width_le: "n < 2 ^ k \<Longrightarrow> bit_width n \<le> k"
proof (induction k arbitrary: n)
  case (Suc k)
  then show ?case by (subst bit_width.simps) auto
qed (simp add: bit_width.simps)

lemma double_of_size_exact: "n < 2 ^ 53 \<Longrightarrow> double_of_size n = n"
  using bit_width_le [of n 53] by (simp add: double_of_size_def)

lemma loss_reduction_half [simp]: "n < 2 ^ 53 \<Longrightarrow> loss_reduction n = n div 2"
  by (simp add: loss_reduction_def double_of_size_exact)

section \<open>Bytes in flight\<close>

text \<open>
  What a connection relies on to account for its outstanding packets. A ledger is the list of packets
  in flight with their sizes.
\<close>

locale flight_account =
  fixes sent :: "nat \<Rightarrow> 's \<Rightarrow> 's" and acked :: "time_point \<Rightarrow> nat \<Rightarrow> 's \<Rightarrow> 's"
    and lost :: "time_point \<Rightarrow> nat \<Rightarrow> time_point \<Rightarrow> 's \<Rightarrow> 's" and flight :: "'s \<Rightarrow> nat"
  assumes flight_sent: "flight s + n < 2 ^ 64 \<Longrightarrow> flight (sent n s) = flight s + n"
    and flight_acked: "flight (acked now n s) = flight s - n"
    and flight_lost: "flight (lost now n t s) = flight s - n"
begin

definition accounts :: "(nat \<times> nat) list \<Rightarrow> 's \<Rightarrow> bool" where
  "accounts ledger s \<longleftrightarrow> flight s = sum_list (map snd ledger)"

lemma accounts_sent:
  "accounts ledger s \<Longrightarrow> sum_list (map snd ledger) + n < 2 ^ 64 \<Longrightarrow>
     accounts ((pn, n) # ledger) (sent n s)"
  by (simp add: accounts_def flight_sent)

lemma sum_remove:
  "(pn, n) \<in> set (ledger :: (nat \<times> nat) list) \<Longrightarrow>
     sum_list (map snd (remove1 (pn, n) ledger)) = sum_list (map snd ledger) - n"
  using sum_list_map_remove1 [of "(pn, n)" ledger snd] by simp

lemma accounts_acked:
  "accounts ledger s \<Longrightarrow> (pn, n) \<in> set ledger \<Longrightarrow> accounts (remove1 (pn, n) ledger) (acked now n s)"
  by (simp add: accounts_def flight_acked sum_remove)

lemma accounts_lost:
  "accounts ledger s \<Longrightarrow> (pn, n) \<in> set ledger \<Longrightarrow> accounts (remove1 (pn, n) ledger) (lost now n t s)"
  by (simp add: accounts_def flight_lost sum_remove)

end

lemma leave_flight_simps [simp]:
  "cg_bytes_in_flight (leave_flight n s) = cg_bytes_in_flight s - n"
  "cg_cwnd (leave_flight n s) = cg_cwnd s" "cg_ssthresh (leave_flight n s) = cg_ssthresh s"
  "cg_max_datagram_size (leave_flight n s) = cg_max_datagram_size s"
  "cg_recovery_start_time (leave_flight n s) = cg_recovery_start_time s"
  "in_recovery now (leave_flight n s) = in_recovery now s"
  by (simp_all add: leave_flight_def in_recovery_def)

lemma enter_recovery_simps [simp]:
  "cg_bytes_in_flight (enter_recovery now s) = cg_bytes_in_flight s"
  "cg_max_datagram_size (enter_recovery now s) = cg_max_datagram_size s"
  "cg_recovery_start_time (enter_recovery now s) = Some now"
  "cg_cwnd (enter_recovery now s) =
     max (loss_reduction (cg_cwnd s)) (umul (cg_max_datagram_size s) kMinWindowPackets)"
  by (simp_all add: enter_recovery_def Let_def)

interpretation flight: flight_account on_packet_sent on_packets_acked on_packets_lost
  cg_bytes_in_flight
  by unfold_locales
    (simp_all add: on_packet_sent_def on_packets_acked_def on_packets_lost_def Let_def
      split: option.split)

section \<open>The window under sequences of events\<close>

datatype cc_event = Sent nat | Acked time_point nat | Lost time_point nat time_point

fun cc_step :: "cc_event \<Rightarrow> congestion \<Rightarrow> congestion" where
  "cc_step (Sent n) s = on_packet_sent n s"
| "cc_step (Acked now n) s = on_packets_acked now n s"
| "cc_step (Lost now n t) s = on_packets_lost now n t s"

fun acked_bytes :: "cc_event \<Rightarrow> nat" where
  "acked_bytes (Acked now n) = n"
| "acked_bytes _ = 0"

definition cwnd_within :: "nat \<Rightarrow> nat \<Rightarrow> congestion \<Rightarrow> bool" where
  "cwnd_within mds hi s \<longleftrightarrow> cg_max_datagram_size s = mds \<and> mds * 2 \<le> cg_cwnd s \<and> cg_cwnd s \<le> hi"

lemma min_window [simp]: "mds \<le> 2 ^ 16 \<Longrightarrow> umul mds kMinWindowPackets = mds * 2"
  by (simp add: congestion_consts)

lemma cwnd_lost:
  assumes "cwnd_within mds hi s" and "mds \<le> 2 ^ 16" and "hi < 2 ^ 53"
  shows "cwnd_within mds hi (on_packets_lost now n t s)"
    and "cg_cwnd (on_packets_lost now n t s) \<le> cg_cwnd s"
  using assms
  by (auto simp: cwnd_within_def on_packets_lost_def Let_def split: option.split)

lemma avoidance_increment:
  assumes "mds \<le> cwnd" and "mds \<le> 2 ^ 16" and "n < 2 ^ 47"
  shows "umul mds n div cwnd \<le> n"
proof -
  have "mds * n \<le> 2 ^ 16 * 2 ^ 47" using assms by (intro mult_mono) simp_all
  then have "umul mds n div cwnd = mds * n div cwnd" by simp
  also have "mds * n div cwnd \<le> cwnd * n div cwnd"
    using assms(1) by (intro div_le_mono mult_le_mono1)
  also have "\<dots> \<le> n" by simp
  finally show ?thesis .
qed

lemma cwnd_acked:
  assumes "cwnd_within mds hi s" and "mds \<le> 2 ^ 16" and "hi + n < 2 ^ 53" and "n < 2 ^ 47"
  shows "cwnd_within mds (hi + n) (on_packets_acked now n s)"
proof -
  have s: "cg_max_datagram_size s = mds" "mds \<le> cg_cwnd s" "mds * 2 \<le> cg_cwnd s" "cg_cwnd s \<le> hi"
    using assms(1) by (auto simp: cwnd_within_def)
  have inc: "umul mds n div cg_cwnd s \<le> n" using avoidance_increment s(2) assms(2,4) by blast
  have "uadd (cg_cwnd s) n = cg_cwnd s + n"
    "uadd (cg_cwnd s) (umul mds n div cg_cwnd s) = cg_cwnd s + umul mds n div cg_cwnd s"
    using s(4) inc assms(3) by (simp_all del: umul_exact)
  then show ?thesis using s inc
    by (auto simp: cwnd_within_def on_packets_acked_def Let_def)
qed

lemma cwnd_run:
  assumes "cwnd_within mds hi s" and "mds \<le> 2 ^ 16"
    and "hi + sum_list (map acked_bytes es) < 2 ^ 47"
  shows "cwnd_within mds (hi + sum_list (map acked_bytes es)) (fold cc_step es s)"
  using assms
proof (induction es arbitrary: s hi)
  case (Cons e es)
  have "cwnd_within mds (hi + acked_bytes e) (cc_step e s)"
  proof (cases e)
    case (Sent n)
    with Cons.prems show ?thesis by (simp add: cwnd_within_def on_packet_sent_def)
  next
    case (Acked now n)
    with Cons.prems show ?thesis by (simp add: cwnd_acked)
  next
    case (Lost now n t)
    with Cons.prems show ?thesis by (simp add: cwnd_lost)
  qed
  from Cons.IH [OF this Cons.prems(2)] Cons.prems(3) show ?case by (simp add: add.assoc)
qed simp

text \<open>The clock of a connection advances from one acknowledgement or loss to the next.\<close>

fun clock_after :: "time_point \<Rightarrow> cc_event list \<Rightarrow> bool" where
  "clock_after t [] = True"
| "clock_after t (Sent n # es) = clock_after t es"
| "clock_after t (Acked now n # es) = (t < now \<and> clock_after now es)"
| "clock_after t (Lost now n t' # es) = (t < now \<and> clock_after now es)"

lemma frozen_run:
  assumes "\<exists>t0 \<le> t. cg_recovery_start_time s = Some t0" and "clock_after t es"
    and "cwnd_within mds hi s" and "mds \<le> 2 ^ 16" and "hi < 2 ^ 53"
  shows "cg_cwnd (fold cc_step es s) \<le> cg_cwnd s"
  using assms
proof (induction t es arbitrary: s rule: clock_after.induct)
  case (2 t n es)
  from 2(1) [of "cc_step (Sent n) s"] 2(2-) show ?case
    by (simp add: on_packet_sent_def cwnd_within_def)
next
  case (3 t now n es)
  then have s: "cc_step (Acked now n) s = leave_flight n s"
    by (auto simp: on_packets_acked_def Let_def in_recovery_def)
  have "\<exists>t0 \<le> now. cg_recovery_start_time (leave_flight n s) = Some t0" using 3(2,3) by fastforce
  from 3(1) [OF this] 3(3-) s show ?case by (simp add: cwnd_within_def)
next
  case (4 t now n t' es)
  let ?s = "on_packets_lost now n t' s"
  have "\<exists>t0 \<le> now. cg_recovery_start_time ?s = Some t0"
    using 4(2,3) by (fastforce simp: on_packets_lost_def Let_def split: option.split)
  from 4(1) [OF this] 4(3) cwnd_lost(1) [OF 4(4-6)]
  have "cg_cwnd (fold cc_step es ?s) \<le> cg_cwnd ?s" using 4(5,6) by simp
  also have "\<dots> \<le> cg_cwnd s" by (rule cwnd_lost(2) [OF 4(4-6)])
  finally show ?case by simp
qed simp

section \<open>Properties\<close>

text \<open>C30. Whatever the sequence of sent, acknowledged and lost packets, the congestion window stays
  between the minimum of two datagrams and the initial ten datagrams plus the bytes acknowledged so
  far. In particular the divisor of the congestion avoidance step is never zero.\<close>

theorem cwnd_bounds:
  assumes "0 < mds" and "mds \<le> 2 ^ 16" and "sum_list (map acked_bytes es) < 2 ^ 46"
  shows "0 < cg_cwnd (fold cc_step es (congestion_init mds))
    \<and> mds * kMinWindowPackets \<le> cg_cwnd (fold cc_step es (congestion_init mds))
    \<and> cg_cwnd (fold cc_step es (congestion_init mds))
        \<le> mds * kInitialWindowPackets + sum_list (map acked_bytes es)"
proof -
  have "cwnd_within mds (mds * 10) (congestion_init mds)"
    using assms by (simp add: cwnd_within_def congestion_init_def congestion_consts)
  then have "cwnd_within mds (mds * 10 + sum_list (map acked_bytes es))
      (fold cc_step es (congestion_init mds))"
    using assms by (intro cwnd_run) simp_all
  then show ?thesis using assms(1) by (simp add: cwnd_within_def congestion_consts)
qed

theorem cwnd_bounds_witness:
  "cg_cwnd (fold cc_step [Sent 5000, Acked 7 5000, Sent 1200, Lost 9 1200 8]
     (congestion_init 1200)) \<le> 17000"
  using cwnd_bounds [of 1200 "[Sent 5000, Acked 7 5000, Sent 1200, Lost 9 1200 8]"]
  by (simp add: kInitialWindowPackets_def del: fold_simps)

text \<open>C39. A loss halves the window, but not below two datagrams; further losses of packets sent before
  that moment leave it alone, so there is one reduction per round trip.\<close>

theorem one_reduction_per_epoch:
  assumes "cg_max_datagram_size s \<le> 2 ^ 16" and "cg_cwnd s < 2 ^ 53"
    and "\<forall>t \<in> set_option (cg_recovery_start_time s). t < sent_at"
    and "\<forall>e \<in> set es. \<exists>now' n' t'. e = Lost now' n' t' \<and> t' \<le> now"
  shows "cg_cwnd (fold cc_step (Lost now n sent_at # es) s)
    = max (cg_cwnd s div 2) (cg_max_datagram_size s * kMinWindowPackets)"
proof -
  let ?w = "max (cg_cwnd s div 2) (cg_max_datagram_size s * 2)"
  let ?in = "\<lambda>c. cg_recovery_start_time c = Some now \<and> cg_cwnd c = ?w"
  have first: "?in (cc_step (Lost now n sent_at) s)"
    using assms(1-3) by (auto simp: on_packets_lost_def Let_def split: option.split)
  have "?in (fold cc_step es c)" if "?in c" for c
    using that assms(4)
  proof (induction es arbitrary: c)
    case (Cons e es)
    then obtain now' n' t' where e: "e = Lost now' n' t'" "t' \<le> now" by auto
    have "?in (cc_step e c)"
      using Cons.prems(1) e by (simp add: on_packets_lost_def Let_def)
    from Cons.IH [OF this] Cons.prems(2) show ?case by simp
  qed simp
  from this [OF first] show ?thesis by (simp add: kMinWindowPackets_def)
qed

theorem one_reduction_per_epoch_witness:
  "cg_cwnd (fold cc_step [Lost 50 1200 40, Lost 51 1200 41, Lost 52 1200 50] (congestion_init 1200))
     = 6000"
proof -
  let ?s = "congestion_init 1200" and ?es = "[Lost 51 1200 41, Lost 52 1200 50]"
  have s: "cg_max_datagram_size ?s = 1200" "cg_cwnd ?s = 12000" "cg_recovery_start_time ?s = None"
    by (simp_all add: congestion_init_def kInitialWindowPackets_def)
  have "cg_cwnd (fold cc_step (Lost 50 1200 40 # ?es) ?s)
    = max (cg_cwnd ?s div 2) (cg_max_datagram_size ?s * kMinWindowPackets)"
    by (rule one_reduction_per_epoch) (simp_all add: s)
  then show ?thesis by (simp add: s kMinWindowPackets_def del: fold_simps)
qed

text \<open>C31. After the first loss the window never grows again: \<open>in_recovery\<close> holds at every later time,
  because nothing ends the recovery period, so every acknowledgement returns before the increase.
  (RFC 9002 section 7.3.2 ends recovery when a packet sent during it is acknowledged.)\<close>

theorem window_frozen_after_loss:
  assumes "cg_recovery_start_time s = Some t" and "clock_after t es"
    and "cg_max_datagram_size s * 2 \<le> cg_cwnd s" and "cg_max_datagram_size s \<le> 2 ^ 16"
    and "cg_cwnd s < 2 ^ 53"
  shows "cg_cwnd (fold cc_step es s) \<le> cg_cwnd s"
  using frozen_run [OF _ assms(2), of s "cg_max_datagram_size s" "cg_cwnd s"] assms
  by (simp add: cwnd_within_def)

theorem window_frozen_after_loss_witness:
  "cg_cwnd (fold cc_step [Sent 1200, Acked 60 100000, Acked 70 100000, Acked 80 100000]
     (on_packets_lost 50 1200 40 (congestion_init 1200))) \<le> 6000"
proof -
  let ?s = "on_packets_lost 50 1200 40 (congestion_init 1200)"
  have s: "cg_recovery_start_time ?s = Some 50" "cg_max_datagram_size ?s = 1200" "cg_cwnd ?s = 6000"
    by (simp_all add: congestion_init_def on_packets_lost_def Let_def congestion_consts)
  show ?thesis
    using window_frozen_after_loss [OF s(1),
        of "[Sent 1200, Acked 60 100000, Acked 70 100000, Acked 80 100000]"]
    by (simp add: s del: fold_simps)
qed

end
