(* ===== verification/Connection.thy ===== *)
theory Connection
  imports Packet Tls OrdMap PnSpace Congestion Stream
begin

text \<open>
  A QUIC connection, server side: the state of \<open>example/quic-http3/include/libspaznet/quic/connection.hpp\<close>
  and the parts of \<open>src/quic/connection.cpp\<close> that other parts call: closing, timeouts, keys and key
  update, the hand-over of CRYPTO bytes, streams and their limits, and flow-control windows. Packet
  reception is in \<open>ConnRecv\<close>, packet emission in \<open>ConnSend\<close>.

  An operation returns the new state, or \<open>None\<close> where the source throws or its behaviour is undefined.
  The surroundings of a connection are the record \<open>env\<close>: the cryptographic library, the clock and the
  TLS engine. Successive readings of the clock and successive calls of the engine are numbered, so a
  statement about all environments covers a clock that moves during an operation. Datagrams passed to
  \<open>send_fn_\<close> are appended to \<open>cn_out\<close>.
\<close>

section \<open>State\<close>

datatype conn_state = CHandshaking | CEstablished | CClosing | CDraining | CClosed

type_synonym crypto_frame = "nat \<times> bytes"

record sent_record =
  sr_level :: enc_level
  sr_ack_eliciting :: bool
  sr_bytes :: nat
  sr_sent_at :: time_point
  sr_crypto :: "crypto_frame list"
  sr_streams :: "stream_frame list"

record conn_space =
  sp_aead :: aead
  sp_send_keys :: packet_keys
  sp_recv_keys :: packet_keys
  sp_send_ctx :: cipher_ctx
  sp_recv_ctx :: cipher_ctx
  sp_send_keys_ready :: bool
  sp_recv_keys_ready :: bool
  sp_largest_recv_pn :: nat
  sp_any_recv :: bool
  sp_next_send_pn :: nat
  sp_acks :: pn_space
  sp_crypto_recv :: "bytes omap"
  sp_crypto_read_offset :: nat
  sp_crypto_send_offset :: nat
  sp_last_ack_eliciting_send_time :: time_point
  sp_any_ack_eliciting_sent :: bool
  sp_largest_acked_pn :: nat
  sp_any_acked :: bool
  sp_send_secret :: bytes
  sp_recv_secret :: bytes
  sp_next_send_keys :: packet_keys
  sp_next_recv_keys :: packet_keys
  sp_next_send_ctx :: cipher_ctx
  sp_next_recv_ctx :: cipher_ctx
  sp_send_key_phase :: nat
  sp_recv_key_phase :: nat
  sp_next_keys_ready :: bool

definition no_keys :: packet_keys where
  "no_keys = \<lparr>pk_key = [], pk_iv = [], pk_hp = []\<rparr>"

definition space_init :: conn_space where
  "space_init = \<lparr>sp_aead = Aes128Gcm, sp_send_keys = no_keys, sp_recv_keys = no_keys,
     sp_send_ctx = cipher_ctx_empty, sp_recv_ctx = cipher_ctx_empty, sp_send_keys_ready = False,
     sp_recv_keys_ready = False, sp_largest_recv_pn = 0, sp_any_recv = False, sp_next_send_pn = 0,
     sp_acks = pn_space_init, sp_crypto_recv = [], sp_crypto_read_offset = 0,
     sp_crypto_send_offset = 0, sp_last_ack_eliciting_send_time = 0,
     sp_any_ack_eliciting_sent = False, sp_largest_acked_pn = 0, sp_any_acked = False,
     sp_send_secret = [], sp_recv_secret = [], sp_next_send_keys = no_keys,
     sp_next_recv_keys = no_keys, sp_next_send_ctx = cipher_ctx_empty,
     sp_next_recv_ctx = cipher_ctx_empty, sp_send_key_phase = 0, sp_recv_key_phase = 0,
     sp_next_keys_ready = False\<rparr>"

record connection =
  cn_state :: conn_state
  cn_dcid :: bytes
  cn_scid :: bytes
  cn_original_dcid :: bytes
  cn_last_activity :: time_point
  cn_tls :: tls_connection
  cn_local_tp :: transport_params
  cn_spaces :: "enc_level \<Rightarrow> conn_space"
  cn_recovery :: recovery
  cn_congestion :: congestion
  cn_streams :: "stream omap"
  cn_sent :: "enc_level \<Rightarrow> sent_record omap"
  cn_crypto_pending :: "enc_level \<Rightarrow> crypto_frame list"
  cn_sent_handshake_done :: bool
  cn_pending_close :: "connection_close_frame option"
  cn_pending_path_responses :: "bytes list"
  cn_peer_address_validated :: bool
  cn_recv_bytes_total :: nat
  cn_sent_bytes_unvalidated :: nat
  cn_recv_max_data :: nat
  cn_recv_total :: nat
  cn_recv_consumed :: nat
  cn_retired_recv_consumed :: nat
  cn_max_data_pending :: bool
  cn_send_max_data :: nat
  cn_send_total :: nat
  cn_local_max_streams_bidi :: nat
  cn_local_max_streams_uni :: nat
  cn_peer_max_streams_bidi :: nat
  cn_peer_max_streams_uni :: nat
  cn_streams_bidi_closed :: nat
  cn_streams_uni_closed :: nat
  cn_max_streams_bidi_pending :: bool
  cn_max_streams_uni_pending :: bool
  cn_clock_reads :: nat
  cn_handshakes :: nat
  cn_out :: "bytes list"

record env =
  ev_lib :: crypto_lib
  ev_clock :: "nat \<Rightarrow> time_point"
  ev_tls :: "nat \<Rightarrow> handshake_run"

abbreviation conn_space_of :: "enc_level \<Rightarrow> connection \<Rightarrow> conn_space" where
  "conn_space_of l s \<equiv> cn_spaces s l"

definition set_space :: "enc_level \<Rightarrow> conn_space \<Rightarrow> connection \<Rightarrow> connection" where
  "set_space l sp s = s\<lparr>cn_spaces := (cn_spaces s)(l := sp)\<rparr>"

definition read_clock :: "env \<Rightarrow> connection \<Rightarrow> time_point \<times> connection" where
  "read_clock E s = (ev_clock E (cn_clock_reads s), s\<lparr>cn_clock_reads := cn_clock_reads s + 1\<rparr>)"

definition tls_step :: "env \<Rightarrow> connection \<Rightarrow> connection" where
  "tls_step E s = s\<lparr>cn_tls := tls_advance (ev_tls E (cn_handshakes s)) (cn_tls s),
     cn_handshakes := cn_handshakes s + 1\<rparr>"

definition peer_transport_params :: "connection \<Rightarrow> transport_params" where
  "peer_transport_params s = tls_peer_tp (cn_tls s)"

section \<open>Closing and timeouts\<close>

text \<open>The frame type named in errors about STREAM frames.\<close>

definition FT_Stream :: nat where "FT_Stream = 0x08"

definition initiate_close :: "nat \<Rightarrow> bool \<Rightarrow> string \<Rightarrow> nat \<Rightarrow> connection \<Rightarrow> connection" where
  "initiate_close error_code application reason frame_type s =
     (if cn_state s \<in> {CClosing, CDraining, CClosed} then s
      else s\<lparr>cn_pending_close := Some \<lparr>cc_application = application, cc_error_code = error_code,
               cc_frame_type = frame_type, cc_reason = bytes_of_string reason\<rparr>,
             cn_state := CClosing\<rparr>)"

text \<open>
  Conversion of an unsigned 64-bit count to a signed one, and of milliseconds and microseconds to
  nanoseconds; the product is undefined where it leaves the signed range.
\<close>

definition to_signed :: "nat \<Rightarrow> int" where
  "to_signed n = (if n < 2 ^ 63 then int n else int n - 2 ^ 64)"

definition ms_to_ns :: "nat \<Rightarrow> duration option" where
  "ms_to_ns n = chk64 (to_signed n * 1000000)"

definition us_to_ns :: "nat \<Rightarrow> duration option" where
  "us_to_ns n = chk64 (to_signed n * 1000)"

text \<open>The lesser of the two timeouts, where zero means none.\<close>

definition effective_idle_ms :: "nat \<Rightarrow> nat \<Rightarrow> nat option" where
  "effective_idle_ms local_ms peer_ms =
     (if local_ms > 0 \<and> peer_ms > 0 then Some (min local_ms peer_ms)
      else if local_ms > 0 then Some local_ms
      else if peer_ms > 0 then Some peer_ms
      else None)"

definition check_idle_timeout :: "env \<Rightarrow> connection \<Rightarrow> connection option" where
  "check_idle_timeout E s =
     (if cn_state s \<noteq> CHandshaking \<and> cn_state s \<noteq> CEstablished then Some s
      else
        case effective_idle_ms (tp_max_idle_timeout_ms (cn_local_tp s))
               (tp_max_idle_timeout_ms (peer_transport_params s)) of
          None \<Rightarrow> Some s
        | Some effective_ms \<Rightarrow> do {
            let (now, s) = read_clock E s;
            idle \<leftarrow> chk64 (now - cn_last_activity s);
            limit \<leftarrow> ms_to_ns effective_ms;
            Some (if idle \<ge> limit then s\<lparr>cn_state := CDraining\<rparr> else s)
          })"

section \<open>Keys\<close>

definition init_ctx :: "crypto_lib \<Rightarrow> aead \<Rightarrow> packet_keys \<Rightarrow> cipher_direction \<Rightarrow> cipher_ctx \<Rightarrow> cipher_ctx"
  where
  "init_ctx lib a keys dir c = snd (cipher_init lib a (pk_key keys) dir c)"

definition install_recv_keys ::
    "env \<Rightarrow> enc_level \<Rightarrow> aead \<Rightarrow> bytes \<Rightarrow> conn_space \<Rightarrow> conn_space option" where
  "install_recv_keys E lvl a rs sp =
     (if \<not> sp_recv_keys_ready sp \<and> rs \<noteq> [] then do {
        keys \<leftarrow> derive_packet_keys (ev_lib E) a rs;
        let sp = sp\<lparr>sp_aead := a, sp_recv_keys := keys,
                    sp_recv_ctx := init_ctx (ev_lib E) a keys Decrypt (sp_recv_ctx sp),
                    sp_recv_keys_ready := True\<rparr>;
        Some (if lvl = Application then sp\<lparr>sp_recv_secret := rs\<rparr> else sp)
      }
      else Some sp)"

definition install_send_keys ::
    "env \<Rightarrow> enc_level \<Rightarrow> aead \<Rightarrow> bytes \<Rightarrow> conn_space \<Rightarrow> conn_space option" where
  "install_send_keys E lvl a ws sp =
     (if \<not> sp_send_keys_ready sp \<and> ws \<noteq> [] then do {
        keys \<leftarrow> derive_packet_keys (ev_lib E) a ws;
        let sp = sp\<lparr>sp_aead := a, sp_send_keys := keys,
                    sp_send_ctx := init_ctx (ev_lib E) a keys Encrypt (sp_send_ctx sp),
                    sp_send_keys_ready := True\<rparr>;
        Some (if lvl = Application then sp\<lparr>sp_send_secret := ws\<rparr> else sp)
      }
      else Some sp)"

definition install_next_keys :: "env \<Rightarrow> enc_level \<Rightarrow> conn_space \<Rightarrow> conn_space option" where
  "install_next_keys E lvl sp =
     (if lvl = Application \<and> sp_send_keys_ready sp \<and> sp_recv_keys_ready sp \<and> \<not> sp_next_keys_ready sp
      then do {
        let h = aead_hash (sp_aead sp);
        next_send_secret \<leftarrow> derive_next_application_secret (ev_lib E) h (sp_send_secret sp);
        next_recv_secret \<leftarrow> derive_next_application_secret (ev_lib E) h (sp_recv_secret sp);
        send_keys \<leftarrow> derive_packet_keys (ev_lib E) (sp_aead sp) next_send_secret;
        recv_keys \<leftarrow> derive_packet_keys (ev_lib E) (sp_aead sp) next_recv_secret;
        let send_keys = send_keys\<lparr>pk_hp := pk_hp (sp_send_keys sp)\<rparr>;
        let recv_keys = recv_keys\<lparr>pk_hp := pk_hp (sp_recv_keys sp)\<rparr>;
        Some (sp\<lparr>sp_next_send_keys := send_keys, sp_next_recv_keys := recv_keys,
                 sp_next_send_ctx :=
                   init_ctx (ev_lib E) (sp_aead sp) send_keys Encrypt (sp_next_send_ctx sp),
                 sp_next_recv_ctx :=
                   init_ctx (ev_lib E) (sp_aead sp) recv_keys Decrypt (sp_next_recv_ctx sp),
                 sp_next_keys_ready := True\<rparr>)
      }
      else Some sp)"

definition install_level_keys :: "env \<Rightarrow> enc_level \<Rightarrow> connection \<Rightarrow> connection option" where
  "install_level_keys E lvl s = do {
     let a = tls_negotiated_aead (cn_tls s);
     sp \<leftarrow> install_recv_keys E lvl a (tls_read_secret (cn_tls s) lvl) (conn_space_of lvl s);
     sp \<leftarrow> install_send_keys E lvl a (tls_write_secret (cn_tls s) lvl) sp;
     sp \<leftarrow> install_next_keys E lvl sp;
     Some (set_space lvl sp s)
   }"

definition install_new_keys :: "env \<Rightarrow> connection \<Rightarrow> connection option" where
  "install_new_keys E s = do {
     s \<leftarrow> install_level_keys E Handshake s;
     install_level_keys E Application s
   }"

text \<open>
  One direction of a key update: the prepared keys become current and the keys after them are
  derived. The header-protection key stays.
\<close>

definition ratchet_send :: "env \<Rightarrow> conn_space \<Rightarrow> conn_space option" where
  "ratchet_send E sp = do {
     let h = aead_hash (sp_aead sp);
     secret \<leftarrow> derive_next_application_secret (ev_lib E) h (sp_send_secret sp);
     let keys = sp_next_send_keys sp;
     let ctx = sp_next_send_ctx sp;
     after \<leftarrow> derive_next_application_secret (ev_lib E) h secret;
     next_keys \<leftarrow> derive_packet_keys (ev_lib E) (sp_aead sp) after;
     let next_keys = next_keys\<lparr>pk_hp := pk_hp keys\<rparr>;
     Some (sp\<lparr>sp_send_secret := secret, sp_send_keys := keys, sp_send_ctx := ctx,
              sp_next_send_keys := next_keys,
              sp_next_send_ctx :=
                init_ctx (ev_lib E) (sp_aead sp) next_keys Encrypt cipher_ctx_empty,
              sp_send_key_phase := (sp_send_key_phase sp) XOR 1\<rparr>)
   }"

definition ratchet_recv :: "env \<Rightarrow> conn_space \<Rightarrow> conn_space option" where
  "ratchet_recv E sp = do {
     let h = aead_hash (sp_aead sp);
     secret \<leftarrow> derive_next_application_secret (ev_lib E) h (sp_recv_secret sp);
     let keys = sp_next_recv_keys sp;
     let ctx = sp_next_recv_ctx sp;
     after \<leftarrow> derive_next_application_secret (ev_lib E) h secret;
     next_keys \<leftarrow> derive_packet_keys (ev_lib E) (sp_aead sp) after;
     let next_keys = next_keys\<lparr>pk_hp := pk_hp keys\<rparr>;
     Some (sp\<lparr>sp_recv_secret := secret, sp_recv_keys := keys, sp_recv_ctx := ctx,
              sp_next_recv_keys := next_keys,
              sp_next_recv_ctx :=
                init_ctx (ev_lib E) (sp_aead sp) next_keys Decrypt cipher_ctx_empty,
              sp_recv_key_phase := (sp_recv_key_phase sp) XOR 1\<rparr>)
   }"

text \<open>What \<open>process_short_packet\<close> does once a packet of the next phase has been opened.\<close>

definition commit_key_update :: "env \<Rightarrow> conn_space \<Rightarrow> conn_space option" where
  "commit_key_update E sp = do {
     sp \<leftarrow> ratchet_recv E sp;
     if sp_send_key_phase sp \<noteq> sp_recv_key_phase sp then ratchet_send E sp else Some sp
   }"

definition initiate_key_update :: "env \<Rightarrow> connection \<Rightarrow> (bool \<times> connection) option" where
  "initiate_key_update E s =
     (let sp = conn_space_of Application s
      in if \<not> sp_next_keys_ready sp then Some (False, s)
         else if sp_send_key_phase sp \<noteq> sp_recv_key_phase sp then Some (False, s)
         else do {
           sp \<leftarrow> ratchet_send E sp;
           Some (True, set_space Application sp s)
         })"

section \<open>CRYPTO bytes from TLS\<close>

definition pull_crypto_level :: "enc_level \<Rightarrow> connection \<Rightarrow> connection" where
  "pull_crypto_level lvl s =
     (let buf = tls_out (cn_tls s) lvl; sp = conn_space_of lvl s
      in if buf = [] then s
         else if \<not> sp_send_keys_ready sp then s
         else
           let cf = (sp_crypto_send_offset sp, buf);
               s = set_space lvl (sp\<lparr>sp_crypto_send_offset :=
                     uadd (sp_crypto_send_offset sp) (length buf)\<rparr>) s
           in s\<lparr>cn_crypto_pending :=
                  (cn_crypto_pending s)(lvl := cn_crypto_pending s lvl @ [cf]),
                cn_tls := (cn_tls s)\<lparr>tls_out := (tls_out (cn_tls s))(lvl := [])\<rparr>\<rparr>)"

definition pull_crypto_from_tls :: "connection \<Rightarrow> connection" where
  "pull_crypto_from_tls s = fold pull_crypto_level [Initial, Handshake, Application] s"

section \<open>Streams\<close>

definition find_stream :: "nat \<Rightarrow> connection \<Rightarrow> stream option" where
  "find_stream stream_id s = map_of (cn_streams s) stream_id"

definition put_stream :: "nat \<Rightarrow> stream \<Rightarrow> connection \<Rightarrow> connection" where
  "put_stream stream_id st s = s\<lparr>cn_streams := om_set stream_id st (cn_streams s)\<rparr>"

text \<open>The limits of a new stream: what the peer may send, and what the peer lets us send.\<close>

definition stream_limits :: "nat \<Rightarrow> connection \<Rightarrow> nat \<times> nat" where
  "stream_limits stream_id s =
     (let own = cn_local_tp s; peer = peer_transport_params s
      in if is_bidi stream_id then
           (if is_client_initiated stream_id
            then (tp_initial_max_stream_data_bidi_remote own, tp_initial_max_stream_data_bidi_local peer)
            else (tp_initial_max_stream_data_bidi_local own, tp_initial_max_stream_data_bidi_remote peer))
         else
           (if is_client_initiated stream_id then (tp_initial_max_stream_data_uni own, 0)
            else (0, tp_initial_max_stream_data_uni peer)))"

text \<open>\<open>ensure_stream\<close> returns the stream and the connection that holds it.\<close>

definition ensure_stream :: "nat \<Rightarrow> connection \<Rightarrow> stream \<times> connection" where
  "ensure_stream stream_id s =
     (case find_stream stream_id s of
        Some st \<Rightarrow> (st, s)
      | None \<Rightarrow>
          let (recv_limit, send_limit) = stream_limits stream_id s;
              st = stream_init stream_id recv_limit send_limit
          in (st, put_stream stream_id st s))"

definition enforce_stream_limit :: "nat \<Rightarrow> connection \<Rightarrow> bool \<times> connection" where
  "enforce_stream_limit stream_id s =
     (if \<not> is_client_initiated stream_id then (True, s)
      else if find_stream stream_id s \<noteq> None then (True, s)
      else
        let index = drop_bit 2 stream_id;
            limit = (if is_bidi stream_id then cn_local_max_streams_bidi s
                     else cn_local_max_streams_uni s)
        in if index \<ge> limit
           then (False, initiate_close 0x04 False ''stream limit exceeded'' FT_Stream s)
           else (True, s))"

definition write_stream :: "nat \<Rightarrow> bytes \<Rightarrow> bool \<Rightarrow> connection \<Rightarrow> connection" where
  "write_stream stream_id data fin s =
     (let (st, s) = ensure_stream stream_id s in put_stream stream_id (stream_write data fin st) s)"

definition read_stream :: "nat \<Rightarrow> connection \<Rightarrow> bytes \<times> bool \<times> connection" where
  "read_stream stream_id s =
     (case find_stream stream_id s of
        None \<Rightarrow> ([], False, s)
      | Some st \<Rightarrow>
          let (out, fin, st) = read_contiguous st in (out, fin, put_stream stream_id st s))"

section \<open>Connection-level windows\<close>

definition extend_conn_recv_window :: "connection \<Rightarrow> connection" where
  "extend_conn_recv_window s =
     (let window = tp_initial_max_data (cn_local_tp s)
      in if window = 0 then s
         else if usub (cn_recv_max_data s) (cn_recv_consumed s) < window div 2 then
           s\<lparr>cn_recv_max_data := uadd (cn_recv_consumed s) window, cn_max_data_pending := True\<rparr>
         else s)"

definition refresh_conn_recv_window :: "connection \<Rightarrow> connection" where
  "refresh_conn_recv_window s =
     (let consumed = fold (\<lambda>e c. uadd c (st_recv_read_offset (snd e))) (cn_streams s)
                       (cn_retired_recv_consumed s)
      in extend_conn_recv_window (s\<lparr>cn_recv_consumed := consumed\<rparr>))"

definition stream_terminal :: "nat \<Rightarrow> stream \<Rightarrow> bool" where
  "stream_terminal stream_id st =
     (let recv_done = st_recv_state st \<in> {DataRead, ResetRead, ResetRecvd};
          send_done = st_send_state st \<in> {SDataRecvd, SResetRecvd}
      in if is_bidi stream_id then recv_done \<and> send_done
         else if is_client_initiated stream_id then recv_done
         else send_done)"

text \<open>The loop over the streams; the iterator visits each entry once.\<close>

fun retire_loop :: "stream omap \<Rightarrow> connection \<Rightarrow> connection" where
  "retire_loop [] s = s"
| "retire_loop ((stream_id, st) # rest) s =
     (if \<not> stream_terminal stream_id st then retire_loop rest s
      else
        let s = (if is_client_initiated stream_id then
                   (if is_bidi stream_id
                    then s\<lparr>cn_streams_bidi_closed := cn_streams_bidi_closed s + 1\<rparr>
                    else s\<lparr>cn_streams_uni_closed := cn_streams_uni_closed s + 1\<rparr>)
                 else s);
            s = s\<lparr>cn_retired_recv_consumed :=
                    uadd (cn_retired_recv_consumed s) (st_recv_high_water st),
                  cn_streams := om_erase stream_id (cn_streams s)\<rparr>
        in retire_loop rest s)"

definition credit_streams_bidi :: "connection \<Rightarrow> connection" where
  "credit_streams_bidi s =
     (let window = tp_initial_max_streams_bidi (cn_local_tp s)
      in if window > 0 \<and> uadd (cn_streams_bidi_closed s) window > cn_local_max_streams_bidi s then
           s\<lparr>cn_local_max_streams_bidi := uadd (cn_streams_bidi_closed s) window,
             cn_max_streams_bidi_pending := True\<rparr>
         else s)"

definition credit_streams_uni :: "connection \<Rightarrow> connection" where
  "credit_streams_uni s =
     (let window = tp_initial_max_streams_uni (cn_local_tp s)
      in if window > 0 \<and> uadd (cn_streams_uni_closed s) window > cn_local_max_streams_uni s then
           s\<lparr>cn_local_max_streams_uni := uadd (cn_streams_uni_closed s) window,
             cn_max_streams_uni_pending := True\<rparr>
         else s)"

definition retire_closed_streams :: "connection \<Rightarrow> connection" where
  "retire_closed_streams s = credit_streams_uni (credit_streams_bidi (retire_loop (cn_streams s) s))"

section \<open>Construction\<close>

definition finalize_tp :: "transport_params \<Rightarrow> bytes \<Rightarrow> bytes \<Rightarrow> transport_params" where
  "finalize_tp tp od_cid scid =
     (let tp = (if tp_original_dcid tp = None then tp\<lparr>tp_original_dcid := Some od_cid\<rparr> else tp)
      in if tp_initial_scid tp = None then tp\<lparr>tp_initial_scid := Some scid\<rparr> else tp)"

text \<open>The members with their initial values.\<close>

definition conn_blank :: "bytes \<Rightarrow> bytes \<Rightarrow> bytes \<Rightarrow> tls_connection \<Rightarrow> transport_params \<Rightarrow> connection" where
  "conn_blank client_dcid client_scid server_scid tls tp =
     \<lparr>cn_state = CHandshaking, cn_dcid = client_scid, cn_scid = server_scid,
      cn_original_dcid = client_dcid, cn_last_activity = 0, cn_tls = tls, cn_local_tp = tp,
      cn_spaces = (\<lambda>_. space_init), cn_recovery = recovery_init,
      cn_congestion = congestion_init kMaxDatagramSize, cn_streams = [], cn_sent = (\<lambda>_. []),
      cn_crypto_pending = (\<lambda>_. []), cn_sent_handshake_done = False, cn_pending_close = None,
      cn_pending_path_responses = [], cn_peer_address_validated = False, cn_recv_bytes_total = 0,
      cn_sent_bytes_unvalidated = 0, cn_recv_max_data = 0, cn_recv_total = 0, cn_recv_consumed = 0,
      cn_retired_recv_consumed = 0, cn_max_data_pending = False, cn_send_max_data = 0,
      cn_send_total = 0, cn_local_max_streams_bidi = 0, cn_local_max_streams_uni = 0,
      cn_peer_max_streams_bidi = 0, cn_peer_max_streams_uni = 0, cn_streams_bidi_closed = 0,
      cn_streams_uni_closed = 0, cn_max_streams_bidi_pending = False,
      cn_max_streams_uni_pending = False, cn_clock_reads = 0, cn_handshakes = 0, cn_out = []\<rparr>"

definition initial_space :: "crypto_lib \<Rightarrow> bytes \<Rightarrow> conn_space option" where
  "initial_space lib client_dcid = do {
     client_init_secret \<leftarrow> derive_initial_secret lib client_dcid Client;
     server_init_secret \<leftarrow> derive_initial_secret lib client_dcid Server;
     recv_keys \<leftarrow> derive_packet_keys lib Aes128Gcm client_init_secret;
     send_keys \<leftarrow> derive_packet_keys lib Aes128Gcm server_init_secret;
     Some (space_init\<lparr>sp_aead := Aes128Gcm, sp_recv_keys := recv_keys, sp_send_keys := send_keys,
             sp_send_ctx := init_ctx lib Aes128Gcm send_keys Encrypt cipher_ctx_empty,
             sp_recv_ctx := init_ctx lib Aes128Gcm recv_keys Decrypt cipher_ctx_empty,
             sp_recv_keys_ready := True, sp_send_keys_ready := True\<rparr>)
   }"

definition connection_new ::
    "env \<Rightarrow> tls_setup \<Rightarrow> bytes \<Rightarrow> bytes \<Rightarrow> bytes \<Rightarrow> transport_params \<Rightarrow> connection option" where
  "connection_new E su client_dcid client_scid server_scid tp = do {
     let local_tp = finalize_tp tp client_dcid server_scid;
     tls \<leftarrow> tls_new su local_tp;
     let s = conn_blank client_dcid client_scid server_scid tls local_tp;
     let (now, s) = read_clock E s;
     sp \<leftarrow> initial_space (ev_lib E) client_dcid;
     Some (set_space Initial sp (s\<lparr>cn_last_activity := now,
             cn_recv_max_data := tp_initial_max_data local_tp,
             cn_local_max_streams_bidi := tp_initial_max_streams_bidi local_tp,
             cn_local_max_streams_uni := tp_initial_max_streams_uni local_tp\<rparr>))
   }"

end
