(* ===== verification/ConnRecv.thy ===== *)
theory ConnRecv
  imports Connection
begin

text \<open>
  The receiving half of \<open>example/quic-http3/src/quic/connection.cpp\<close>: frame handlers, acknowledgement
  and loss processing, and packet processing up to \<open>process_long_packet\<close>, \<open>process_short_packet\<close> and
  the loop of \<open>on_datagram\<close> over the packets of a datagram.
\<close>

section \<open>CRYPTO frames\<close>

definition kMaxCryptoWindow :: nat where
  "kMaxCryptoWindow = 64 * 1024"

text \<open>
  The loop of \<open>feed_tls_crypto\<close>: it always looks at the first buffered chunk. It returns the chunks
  that stay, the pieces handed to TLS and the new read offset.
\<close>

fun feed_loop :: "bytes omap \<Rightarrow> nat \<Rightarrow> bytes omap \<times> bytes list \<times> nat" where
  "feed_loop [] r = ([], [], r)"
| "feed_loop ((k, v) # rest) r =
     (if k > r then ((k, v) # rest, [], r)
      else if uadd k (length v) \<le> r then feed_loop rest r
      else
        let chunk = drop (r - k) v;
            (left, pieces, r') = feed_loop rest (r + length chunk)
        in (left, chunk # pieces, r'))"

definition feed_tls_crypto :: "enc_level \<Rightarrow> connection \<Rightarrow> connection" where
  "feed_tls_crypto level s =
     (let sp = conn_space_of level s;
          (left, pieces, r) = feed_loop (sp_crypto_recv sp) (sp_crypto_read_offset sp);
          s = s\<lparr>cn_tls := fold (deliver_crypto level) pieces (cn_tls s)\<rparr>
      in set_space level (sp\<lparr>sp_crypto_recv := left, sp_crypto_read_offset := r\<rparr>) s)"

definition on_crypto_frame :: "enc_level \<Rightarrow> nat \<Rightarrow> bytes \<Rightarrow> connection \<Rightarrow> connection" where
  "on_crypto_frame level offset data s =
     (let sp = conn_space_of level s;
          end' = uadd offset (length data)
      in if end' > uadd (sp_crypto_read_offset sp) kMaxCryptoWindow
         then initiate_close 0x0d False ''crypto buffer exceeded'' FT_Crypto s
         else feed_tls_crypto level (set_space level
                (sp\<lparr>sp_crypto_recv := om_set offset data (sp_crypto_recv sp)\<rparr>) s))"

section \<open>STREAM and RESET_STREAM frames\<close>

definition kMaxStreamOffset :: nat where
  "kMaxStreamOffset = push_bit 62 1 - 1"

text \<open>Bytes by which a stream's high-water mark moved are charged to the connection.\<close>

definition charge_recv :: "nat \<Rightarrow> nat \<Rightarrow> connection \<Rightarrow> connection" where
  "charge_recv prev_hw new_hw s =
     (if new_hw > prev_hw then s\<lparr>cn_recv_total := uadd (cn_recv_total s) (new_hw - prev_hw)\<rparr> else s)"

definition exceeds_conn_window :: "nat \<Rightarrow> nat \<Rightarrow> connection \<Rightarrow> bool" where
  "exceeds_conn_window end' prev_hw s \<longleftrightarrow>
     end' > prev_hw \<and> end' - prev_hw > usub (cn_recv_max_data s) (cn_recv_total s)"

definition on_stream_frame :: "stream_frame \<Rightarrow> connection \<Rightarrow> connection" where
  "on_stream_frame f s =
     (let (ok, s) = enforce_stream_limit (sf_stream_id f) s
      in if \<not> ok then s
         else if length (sf_data f) > kMaxStreamOffset
                 \<or> sf_offset f > kMaxStreamOffset - length (sf_data f)
         then initiate_close 0x03 False ''stream offset overflow'' FT_Stream s
         else
           let (st, s) = ensure_stream (sf_stream_id f) s;
               prev_hw = st_recv_high_water st;
               end' = sf_offset f + length (sf_data f)
           in if exceeds_conn_window end' prev_hw s
              then initiate_close 0x03 False ''connection flow control'' FT_Stream s
              else
                let (ok, st) = deliver (sf_offset f) (sf_data f) (sf_fin f) st
                in if \<not> ok
                   then initiate_close 0x03 False ''stream limit violation'' FT_Stream s
                   else charge_recv prev_hw (st_recv_high_water st)
                          (put_stream (sf_stream_id f) st s))"

definition on_reset_stream_frame :: "nat \<Rightarrow> nat \<Rightarrow> nat \<Rightarrow> connection \<Rightarrow> connection" where
  "on_reset_stream_frame stream_id app_error final_size s =
     (let (ok, s) = enforce_stream_limit stream_id s
      in if \<not> ok then s
         else if final_size > kMaxStreamOffset
         then initiate_close 0x03 False ''reset final size overflow'' FT_ResetStream s
         else
           let (st, s) = ensure_stream stream_id s;
               prev_hw = st_recv_high_water st
           in if exceeds_conn_window final_size prev_hw s
              then initiate_close 0x03 False ''connection flow control'' FT_ResetStream s
              else
                let (ok, st) = reset_recvd final_size app_error st
                in if \<not> ok
                   then initiate_close 0x06 False ''final size error'' FT_ResetStream s
                   else charge_recv prev_hw (st_recv_high_water st) (put_stream stream_id st s))"

section \<open>Loss\<close>

text \<open>Streams that were retired in the meantime are skipped.\<close>

definition stream_lost :: "stream_frame \<Rightarrow> connection \<Rightarrow> connection" where
  "stream_lost sf s =
     (case find_stream (sf_stream_id sf) s of
        None \<Rightarrow> s
      | Some st \<Rightarrow> put_stream (sf_stream_id sf) (on_lost (sf_offset sf) (length (sf_data sf)) st) s)"

definition declare_lost :: "env \<Rightarrow> enc_level \<Rightarrow> sent_record \<Rightarrow> connection \<Rightarrow> connection" where
  "declare_lost E level rec s =
     (let s = fold stream_lost (sr_streams rec) s;
          s = s\<lparr>cn_crypto_pending :=
                  (cn_crypto_pending s)(level := cn_crypto_pending s level @ sr_crypto rec)\<rparr>
      in if sr_ack_eliciting rec then
           let (now, s) = read_clock E s
           in s\<lparr>cn_congestion :=
                  on_packets_lost now (sr_bytes rec) (sr_sent_at rec) (cn_congestion s)\<rparr>
         else s)"

definition erase_sent :: "enc_level \<Rightarrow> nat \<Rightarrow> connection \<Rightarrow> connection" where
  "erase_sent level pn s = s\<lparr>cn_sent := (cn_sent s)(level := om_erase pn (cn_sent s level))\<rparr>"

definition lose_entry :: "env \<Rightarrow> enc_level \<Rightarrow> nat \<times> sent_record \<Rightarrow> connection \<Rightarrow> connection" where
  "lose_entry E level e s = erase_sent level (fst e) (declare_lost E level (snd e) s)"

text \<open>The loop of \<open>detect_and_handle_loss\<close>: it stops at the largest acknowledged number.\<close>

definition loss_candidate :: "nat \<Rightarrow> time_point \<Rightarrow> nat \<times> sent_record \<Rightarrow> bool" where
  "loss_candidate largest_acked time_cutoff e \<longleftrightarrow>
     largest_acked - fst e \<ge> kPacketThreshold \<or> sr_sent_at (snd e) \<le> time_cutoff"

definition detect_and_handle_loss :: "env \<Rightarrow> enc_level \<Rightarrow> connection \<Rightarrow> connection option" where
  "detect_and_handle_loss E level s =
     (let sp = conn_space_of level s; by_pn = cn_sent s level
      in if \<not> sp_any_acked sp then Some s
         else if by_pn = [] then Some s
         else do {
           let (now, s) = read_clock E s;
           time_threshold \<leftarrow> loss_time_threshold (cn_recovery s);
           time_cutoff \<leftarrow> chk64 (now - time_threshold);
           let largest = sp_largest_acked_pn sp;
           let lost = filter (loss_candidate largest time_cutoff)
                        (takeWhile (\<lambda>e. fst e < largest) by_pn);
           Some (fold (lose_entry E level) lost s)
         })"

section \<open>Acknowledgements\<close>

definition stream_acked :: "stream_frame \<Rightarrow> connection \<Rightarrow> connection option" where
  "stream_acked sf s =
     (case find_stream (sf_stream_id sf) s of
        None \<Rightarrow> Some s
      | Some st \<Rightarrow> do {
          st \<leftarrow> on_acked (sf_offset sf) (length (sf_data sf)) st;
          Some (put_stream (sf_stream_id sf) st s)
        })"

fun streams_acked :: "stream_frame list \<Rightarrow> connection \<Rightarrow> connection option" where
  "streams_acked [] s = Some s"
| "streams_acked (sf # sfs) s = do { s \<leftarrow> stream_acked sf s; streams_acked sfs s }"

definition ack_entry :: "env \<Rightarrow> enc_level \<Rightarrow> nat \<times> sent_record \<Rightarrow> connection \<Rightarrow> connection option" where
  "ack_entry E level e s = do {
     s \<leftarrow> streams_acked (sr_streams (snd e)) s;
     let (now, s) = read_clock E s;
     let s = s\<lparr>cn_congestion := on_packets_acked now (sr_bytes (snd e)) (cn_congestion s)\<rparr>;
     Some (erase_sent level (fst e) s)
   }"

fun ack_entries :: "env \<Rightarrow> enc_level \<Rightarrow> sent_record omap \<Rightarrow> connection \<Rightarrow> connection option" where
  "ack_entries E level [] s = Some s"
| "ack_entries E level (e # es) s = do { s \<leftarrow> ack_entry E level e s; ack_entries E level es s }"

text \<open>The entries from \<open>lower_bound(lo)\<close> up to \<open>hi\<close>.\<close>

definition ack_range_entries :: "env \<Rightarrow> enc_level \<Rightarrow> nat \<Rightarrow> nat \<Rightarrow> connection \<Rightarrow> connection option" where
  "ack_range_entries E level lo hi s =
     (if lo > hi then Some s
      else ack_entries E level (filter (\<lambda>e. lo \<le> fst e \<and> fst e \<le> hi) (cn_sent s level)) s)"

fun ack_more_ranges ::
    "env \<Rightarrow> enc_level \<Rightarrow> nat \<Rightarrow> ack_range list \<Rightarrow> connection \<Rightarrow> connection option" where
  "ack_more_ranges E level lo [] s = Some s"
| "ack_more_ranges E level lo (r # rs) s =
     (if lo < uadd (ar_gap r) 2 then Some s
      else
        let hi = lo - ar_gap r - 2
        in if ar_length r > hi then Some s
           else
             let lo = hi - ar_length r
             in do {
               s \<leftarrow> ack_range_entries E level lo hi s;
               ack_more_ranges E level lo rs s
             })"

text \<open>
  The acknowledgement delay: the wire value shifted by the peer's exponent, which is undefined for
  64 and more, then capped by the peer's maximum where that is not zero.
\<close>

definition scaled_ack_delay :: "nat \<Rightarrow> transport_params \<Rightarrow> duration option" where
  "scaled_ack_delay delay peer_tp =
     (if tp_ack_delay_exponent peer_tp \<ge> 64 then None
      else
        let scaled = push_bit (tp_ack_delay_exponent peer_tp) delay mod 2 ^ 64;
            cap_us = umul (tp_max_ack_delay_ms peer_tp) 1000
        in us_to_ns (if cap_us > 0 \<and> scaled > cap_us then cap_us else scaled))"

definition sample_rtt :: "env \<Rightarrow> time_point \<Rightarrow> nat \<Rightarrow> connection \<Rightarrow> connection option" where
  "sample_rtt E largest_sent_at delay s = do {
     let (now, s) = read_clock E s;
     latest \<leftarrow> chk64 (now - largest_sent_at);
     ack_delay \<leftarrow> scaled_ack_delay delay (peer_transport_params s);
     rv \<leftarrow> on_rtt_sample latest ack_delay (cn_recovery s);
     Some (s\<lparr>cn_recovery := rv\<rparr>)
   }"

definition note_largest_acked :: "nat \<Rightarrow> conn_space \<Rightarrow> conn_space" where
  "note_largest_acked largest sp =
     (if \<not> sp_any_acked sp \<or> largest > sp_largest_acked_pn sp
      then sp\<lparr>sp_largest_acked_pn := largest, sp_any_acked := True\<rparr> else sp)"

definition on_ack_frame :: "env \<Rightarrow> enc_level \<Rightarrow> ack_frame \<Rightarrow> connection \<Rightarrow> connection option" where
  "on_ack_frame E level f s =
     (let largest_rec = map_of (cn_sent s level) (ack_largest_acked f);
          s = set_space level (note_largest_acked (ack_largest_acked f) (conn_space_of level s)) s
      in if ack_first_range f > ack_largest_acked f then Some s
         else do {
           let hi = ack_largest_acked f;
           let lo = hi - ack_first_range f;
           s \<leftarrow> ack_range_entries E level lo hi s;
           s \<leftarrow> ack_more_ranges E level lo (ack_ranges f) s;
           let s = s\<lparr>cn_recovery := reset_pto (cn_recovery s)\<rparr>;
           s \<leftarrow> (case largest_rec of
                  Some rec \<Rightarrow> if sr_ack_eliciting rec then sample_rtt E (sr_sent_at rec) (ack_delay f) s
                              else Some s
                | None \<Rightarrow> Some s);
           detect_and_handle_loss E level s
         })"

section \<open>Frames of a packet\<close>

fun deliver_frame :: "env \<Rightarrow> enc_level \<Rightarrow> frame \<Rightarrow> connection \<Rightarrow> connection option" where
  "deliver_frame E level (CryptoFrame offset data) s = Some (on_crypto_frame level offset data s)"
| "deliver_frame E level (StreamFrame f) s = Some (on_stream_frame f s)"
| "deliver_frame E level (AckFrame f) s = on_ack_frame E level f s"
| "deliver_frame E level (ConnectionCloseFrame f) s = Some (s\<lparr>cn_state := CDraining\<rparr>)"
| "deliver_frame E level (PathChallengeFrame data) s =
     Some (if level = Application
           then s\<lparr>cn_pending_path_responses := cn_pending_path_responses s @ [data]\<rparr> else s)"
| "deliver_frame E level (ResetStreamFrame stream_id app_error final_size) s =
     Some (on_reset_stream_frame stream_id app_error final_size s)"
| "deliver_frame E level (MaxDataFrame maximum) s =
     Some (if maximum > cn_send_max_data s then s\<lparr>cn_send_max_data := maximum\<rparr> else s)"
| "deliver_frame E level (MaxStreamDataFrame stream_id maximum) s =
     Some (case find_stream stream_id s of
             None \<Rightarrow> s
           | Some st \<Rightarrow> put_stream stream_id (set_send_limit maximum st) s)"
| "deliver_frame E level (MaxStreamsFrame bidi maximum) s =
     Some (if bidi then
             (if maximum > cn_peer_max_streams_bidi s then s\<lparr>cn_peer_max_streams_bidi := maximum\<rparr>
              else s)
           else if maximum > cn_peer_max_streams_uni s then s\<lparr>cn_peer_max_streams_uni := maximum\<rparr>
           else s)"
| "deliver_frame E level (DataBlockedFrame limit) s = Some (s\<lparr>cn_max_data_pending := True\<rparr>)"
| "deliver_frame E level (StreamsBlockedFrame bidi limit) s =
     Some (if bidi then s\<lparr>cn_max_streams_bidi_pending := True\<rparr>
           else s\<lparr>cn_max_streams_uni_pending := True\<rparr>)"
| "deliver_frame E level _ s = Some s"

fun deliver_each :: "env \<Rightarrow> enc_level \<Rightarrow> frame list \<Rightarrow> connection \<Rightarrow> connection option" where
  "deliver_each E level [] s = Some s"
| "deliver_each E level (f # fs) s = do { s \<leftarrow> deliver_frame E level f s; deliver_each E level fs s }"

definition deliver_frames :: "env \<Rightarrow> enc_level \<Rightarrow> bytes \<Rightarrow> connection \<Rightarrow> connection option" where
  "deliver_frames E level payload s =
     (case parse_frames payload of
        None \<Rightarrow> Some (initiate_close 0x07 False ''frame parse failed'' 0 s)
      | Some frames \<Rightarrow> deliver_each E level frames s)"

section \<open>Packets\<close>

text \<open>The bookkeeping of both packet forms around \<open>deliver_frames\<close>.\<close>

definition note_received :: "nat \<Rightarrow> conn_space \<Rightarrow> conn_space" where
  "note_received pn sp =
     (if \<not> sp_any_recv sp \<or> pn > sp_largest_recv_pn sp then sp\<lparr>sp_largest_recv_pn := pn\<rparr> else sp)
       \<lparr>sp_any_recv := True\<rparr>"

definition accept_packet :: "env \<Rightarrow> enc_level \<Rightarrow> nat \<Rightarrow> bytes \<Rightarrow> connection \<Rightarrow> connection option" where
  "accept_packet E level pn plaintext s = do {
     s \<leftarrow> deliver_frames E level plaintext s;
     let sp = conn_space_of level s;
     Some (set_space level (sp\<lparr>sp_acks := on_received pn True (sp_acks sp)\<rparr>) s)
   }"

fun level_of_type :: "long_type \<Rightarrow> enc_level option" where
  "level_of_type LInitial = Some Initial"
| "level_of_type LHandshake = Some Handshake"
| "level_of_type LZeroRtt = Some EarlyData"
| "level_of_type LRetry = None"

text \<open>
  Removing the protection of a carved packet \<open>pkt\<close> whose packet number is at \<open>pn_offset\<close>, up to the
  point where the AEAD is called. The sums of the source's guards wrap; an access that a wrapped sum
  lets through outside the packet is \<open>None\<close>. Otherwise the result is \<open>None\<close> inside for a packet that
  is too short, or the packet number, the header length and the unmasked packet.
\<close>

definition unprotect_long ::
    "crypto_lib \<Rightarrow> conn_space \<Rightarrow> nat \<Rightarrow> bytes \<Rightarrow> (nat \<times> nat \<times> bytes) option option" where
  "unprotect_long lib sp pn_offset pkt =
     (if uadd (uadd pn_offset 4) kSampleLen > length pkt then Some None
      else if pn_offset + 4 + kSampleLen > length pkt then None
      else do {
        msk \<leftarrow> header_protection_mask lib (sp_aead sp) (pk_hp (sp_recv_keys sp))
                 (take kSampleLen (drop (pn_offset + 4) pkt));
        let pkt = xor_at 0 (msk ! 0 AND 0x0F) pkt;
        let pn_len = unat (pkt ! 0 AND 0x03) + 1;
        let pkt = mask_pn pn_offset pn_len msk pkt;
        let trunc = read_pn pn_offset pn_len pkt;
        let pn = decode_packet_number (if sp_any_recv sp then sp_largest_recv_pn sp else 0) trunc
                   (pn_len * 8);
        Some (Some (pn, pn_offset + pn_len, pkt))
      })"

text \<open>The result is the state, the new offset and the number of bytes consumed.\<close>

definition process_long_packet ::
    "env \<Rightarrow> bytes \<Rightarrow> nat \<Rightarrow> connection \<Rightarrow> (connection \<times> nat \<times> nat) option" where
  "process_long_packet E datagram off s =
     (case parse_long_header datagram off long_header_init of
        None \<Rightarrow> Some (s, off, 0)
      | Some (hdr, cursor) \<Rightarrow>
          case level_of_type (lh_type hdr) of
            None \<Rightarrow> Some (s, off, 0)
          | Some level \<Rightarrow>
              let sp = conn_space_of level s
              in if \<not> sp_recv_keys_ready sp then Some (s, cursor, cursor - cursor)
                 else do {
                   let pkt = take (cursor - off) (drop off datagram);
                   u \<leftarrow> unprotect_long (ev_lib E) sp (usub (lh_pn_offset hdr) off) pkt;
                   case u of
                     None \<Rightarrow> Some (s, cursor, cursor - off)
                   | Some (pn, header_len, pkt) \<Rightarrow>
                       let ct_len = usub (lh_length hdr) (header_len - usub (lh_pn_offset hdr) off);
                           tag_len = aead_tag_length (sp_aead sp)
                       in if uadd header_len ct_len > length pkt \<or> ct_len < tag_len
                          then Some (s, cursor, cursor - off)
                          else if header_len + ct_len > length pkt then None
                          else do {
                            let pt_len = ct_len - tag_len;
                            nonce \<leftarrow> make_aead_nonce (pk_iv (sp_recv_keys sp)) pn;
                            let (r, ctx) = cipher_open_inplace (ev_lib E) nonce (take header_len pkt)
                                             (take pt_len (drop header_len pkt))
                                             (take tag_len (drop (header_len + pt_len) pkt))
                                             (sp_recv_ctx sp);
                            let sp = sp\<lparr>sp_recv_ctx := ctx\<rparr>;
                            case r of
                              None \<Rightarrow> Some (set_space level sp s, cursor, cursor - off)
                            | Some plaintext \<Rightarrow> do {
                                let s = set_space level (note_received pn sp) s;
                                let s = (if level = Handshake
                                         then s\<lparr>cn_peer_address_validated := True\<rparr> else s);
                                s \<leftarrow> accept_packet E level pn plaintext s;
                                Some (s, cursor, cursor - off)
                              }
                          }
                 })"

text \<open>
  Opening a short-header packet with the keys of its phase. The result is the plaintext, if any, with
  the key space afterwards: a packet of the next phase that opens commits the key update.
\<close>

definition open_short ::
    "env \<Rightarrow> nat \<Rightarrow> nat \<Rightarrow> nat \<Rightarrow> bytes \<Rightarrow> conn_space \<Rightarrow> (bytes option \<times> conn_space) option" where
  "open_short E peer_kp pn header_len dg sp = do {
     let tag_len = aead_tag_length (sp_aead sp);
     let pt_len = length dg - header_len - tag_len;
     let aad = take header_len dg;
     let body = take pt_len (drop header_len dg);
     let tag = take tag_len (drop (header_len + pt_len) dg);
     nonce \<leftarrow> make_aead_nonce (pk_iv (sp_recv_keys sp)) pn;
     if peer_kp = sp_recv_key_phase sp then
       (let (r, ctx) = cipher_open_inplace (ev_lib E) nonce aad body tag (sp_recv_ctx sp)
        in Some (r, sp\<lparr>sp_recv_ctx := ctx\<rparr>))
     else if \<not> sp_next_keys_ready sp then Some (None, sp)
     else do {
       next_nonce \<leftarrow> make_aead_nonce (pk_iv (sp_next_recv_keys sp)) pn;
       let (r, ctx) = cipher_open_inplace (ev_lib E) next_nonce aad body tag (sp_next_recv_ctx sp);
       let sp = sp\<lparr>sp_next_recv_ctx := ctx\<rparr>;
       case r of
         None \<Rightarrow> Some (None, sp)
       | Some plaintext \<Rightarrow> do {
           sp \<leftarrow> commit_key_update E sp;
           Some (Some plaintext, sp)
         }
     }
   }"

definition process_short_packet :: "env \<Rightarrow> bytes \<Rightarrow> connection \<Rightarrow> (bool \<times> connection) option" where
  "process_short_packet E dg s =
     (let sp = conn_space_of Application s
      in if \<not> sp_recv_keys_ready sp then Some (False, s)
         else if length dg < 1 + length (cn_scid s) + 4 + 16 then Some (False, s)
         else
           let pn_offset = 1 + length (cn_scid s)
           in if pn_offset + 4 + kSampleLen > length dg then Some (False, s)
              else do {
                msk \<leftarrow> header_protection_mask (ev_lib E) (sp_aead sp) (pk_hp (sp_recv_keys sp))
                         (take kSampleLen (drop (pn_offset + 4) dg));
                let dg = xor_at 0 (msk ! 0 AND 0x1F) dg;
                let pn_len = unat (dg ! 0 AND 0x03) + 1;
                let dg = mask_pn pn_offset pn_len msk dg;
                let peer_kp = unat (drop_bit 2 (dg ! 0) AND 0x01);
                let truncated = read_pn pn_offset pn_len dg;
                let pn = decode_packet_number (if sp_any_recv sp then sp_largest_recv_pn sp else 0)
                           truncated (pn_len * 8);
                let header_len = pn_offset + pn_len;
                if length dg - header_len < aead_tag_length (sp_aead sp) then Some (False, s)
                else do {
                  (r, sp) \<leftarrow> open_short E peer_kp pn header_len dg sp;
                  case r of
                    None \<Rightarrow> Some (False, set_space Application sp s)
                  | Some plaintext \<Rightarrow> do {
                      let s = set_space Application (note_received pn sp) s;
                      s \<leftarrow> accept_packet E Application pn plaintext s;
                      Some (True, s)
                    }
                }
              })"

section \<open>The packets of a datagram\<close>

lemma process_long_packet_progress:
  assumes "process_long_packet E datagram off s = Some (s', off', consumed)" and "consumed \<noteq> 0"
  shows "consumed = off' - off" and "off < off'"
proof -
  have "consumed \<noteq> 0 \<longrightarrow> consumed = off' - off"
    using assms(1)
    by (auto simp: process_long_packet_def Let_def split: option.splits if_splits prod.splits bind_splits)
  then show "consumed = off' - off" and "off < off'" using assms(2) by auto
qed

text \<open>
  The loop of \<open>on_datagram\<close>. The flag says whether the loop ran to its end; otherwise the function has
  returned from inside it.
\<close>

function packet_loop :: "env \<Rightarrow> bytes \<Rightarrow> nat \<Rightarrow> connection \<Rightarrow> (bool \<times> connection) option" where
  "packet_loop E datagram off s =
     (if off < length datagram then
        (if datagram ! off AND 0x80 \<noteq> 0 then
           (case process_long_packet E datagram off s of
              None \<Rightarrow> None
            | Some (s', off', consumed) \<Rightarrow>
                if consumed = 0 then Some (False, s') else packet_loop E datagram off' s')
         else
           map_option (\<lambda>r. (False, snd r)) (process_short_packet E (drop off datagram) s))
      else Some (True, s))"
  by pat_completeness auto
termination
proof (relation "measure (\<lambda>(E, datagram, off, s). length datagram - off)")
  fix E datagram off s x y s' z off' consumed
  assume "off < length datagram" and "process_long_packet E datagram off s = Some x"
    and "(s', y) = x" and "(off', consumed) = y" and "consumed \<noteq> 0"
  then show "((E, datagram, off', s'), (E, datagram, off, s)) \<in>
      measure (\<lambda>(E, datagram, off, s). length datagram - off)"
    using process_long_packet_progress [of E datagram off s s' off' consumed] by auto
qed simp

declare packet_loop.simps [simp del]

end
