(* ===== verification/ConnSend.thy ===== *)
theory ConnSend
  imports ConnRecv
begin

text \<open>
  The sending half of \<open>example/quic-http3/src/quic/connection.cpp\<close>: \<open>build_payload\<close>, \<open>build_and_send\<close>
  in its stages, and the two entry points \<open>on_datagram\<close> and \<open>on_timer\<close>.
\<close>

section \<open>Payload\<close>

text \<open>A frame list encoded behind the bytes already written; \<open>None\<close> where the encoder throws.\<close>

definition build_payload ::
    "crypto_frame list \<Rightarrow> stream_frame list \<Rightarrow> bool \<Rightarrow> ack_frame \<Rightarrow> bool \<Rightarrow> bytes list \<Rightarrow> bool \<Rightarrow>
     bytes option" where
  "build_payload crypto_frames stream_frames include_ack ack include_hs_done path_responses pad_to = do {
     out \<leftarrow> (if include_ack then encode_frame [] (AckFrame ack) else Some []);
     out \<leftarrow> encode_frames out (map (\<lambda>cf. CryptoFrame (fst cf) (snd cf)) crypto_frames);
     out \<leftarrow> encode_frames out (map StreamFrame stream_frames);
     out \<leftarrow> encode_frames out (map PathResponseFrame path_responses);
     out \<leftarrow> (if include_hs_done then encode_frame out HandshakeDoneFrame else Some out);
     if pad_to \<and> length out < 1 then encode_frame out PingFrame else Some out
   }"

section \<open>Protection\<close>

text \<open>
  The header of a Handshake or 1-RTT packet without the packet number, and the bits of the first byte
  that header protection covers.
\<close>

definition packet_header :: "enc_level \<Rightarrow> nat \<Rightarrow> connection \<Rightarrow> (bytes \<times> byte) option" where
  "packet_header level payload_len s =
     (let sp = conn_space_of level s; pn_len = 4; tag_len = aead_tag_length (sp_aead sp)
      in if level = Handshake then do {
           let first = 0x80 OR 0x40 OR push_bit 4 (of_nat (long_type_code LHandshake))
                       OR of_nat (pn_len - 1);
           let buf = [first] @ version_bytes kQuicV1
                     @ [of_nat (length (cn_dcid s))] @ cn_dcid s
                     @ [of_nat (length (cn_scid s))] @ cn_scid s;
           buf \<leftarrow> varint_append buf (pn_len + payload_len + tag_len);
           Some (buf, 0x0F)
         }
         else
           let first = 0x40 OR push_bit 2 (of_nat (sp_send_key_phase sp)) OR of_nat (pn_len - 1)
           in Some ([first] @ cn_dcid s, 0x1F))"

text \<open>
  The in-place builder: header, packet number, payload, tag, header protection. The result is the
  packet, if the AEAD succeeds, with the cipher context afterwards.
\<close>

definition seal_packet ::
    "env \<Rightarrow> enc_level \<Rightarrow> bytes \<Rightarrow> nat \<Rightarrow> connection \<Rightarrow> (bytes option \<times> connection) option" where
  "seal_packet E level payload pn s = do {
     let sp = conn_space_of level s;
     let tag_len = aead_tag_length (sp_aead sp);
     (hdr, hp_first_mask) \<leftarrow> packet_header level (length payload) s;
     let pn_offset = length hdr;
     let buf = hdr @ pn_bytes 4 pn;
     nonce \<leftarrow> make_aead_nonce (pk_iv (sp_send_keys sp)) pn;
     let (r, ctx) = cipher_seal_inplace (ev_lib E) nonce buf payload tag_len (sp_send_ctx sp);
     let s = set_space level (sp\<lparr>sp_send_ctx := ctx\<rparr>) s;
     case r of
       None \<Rightarrow> Some (None, s)
     | Some (body, tag) \<Rightarrow>
         let buf = buf @ body @ tag
         in if pn_offset + 4 + kSampleLen > length buf then None
            else do {
              msk \<leftarrow> header_protection_mask (ev_lib E) (sp_aead sp) (pk_hp (sp_send_keys sp))
                       (take kSampleLen (drop (pn_offset + 4) buf));
              let buf = xor_at 0 (msk ! 0 AND hp_first_mask) buf;
              Some (Some (mask_pn pn_offset 4 msk buf), s)
            }
   }"

definition emit :: "bytes \<Rightarrow> connection \<Rightarrow> connection" where
  "emit datagram s =
     (if cn_peer_address_validated s then s
      else s\<lparr>cn_sent_bytes_unvalidated := uadd (cn_sent_bytes_unvalidated s) (length datagram)\<rparr>)
       \<lparr>cn_out := cn_out s @ [datagram]\<rparr>"

text \<open>\<open>sp.next_send_pn++\<close>\<close>

definition take_pn :: "enc_level \<Rightarrow> connection \<Rightarrow> nat \<times> connection" where
  "take_pn level s =
     (let sp = conn_space_of level s
      in (sp_next_send_pn sp,
          set_space level (sp\<lparr>sp_next_send_pn := uadd (sp_next_send_pn sp) 1\<rparr>) s))"

definition initial_datagram :: "env \<Rightarrow> bytes \<Rightarrow> nat \<Rightarrow> connection \<Rightarrow> bytes option" where
  "initial_datagram E payload pn s =
     (let sp = conn_space_of Initial s
      in build_initial_packet (ev_lib E) (sp_aead sp) (sp_send_keys sp) (cn_dcid s) (cn_scid s) []
           payload pn)"

section \<open>A pending close\<close>

definition best_level :: "connection \<Rightarrow> enc_level" where
  "best_level s =
     (if sp_send_keys_ready (conn_space_of Application s) then Application
      else if sp_send_keys_ready (conn_space_of Handshake s) then Handshake
      else Initial)"

definition send_close :: "env \<Rightarrow> enc_level \<Rightarrow> connection_close_frame \<Rightarrow> connection \<Rightarrow> connection option" where
  "send_close E level f s =
     (if level \<noteq> best_level s then Some s
      else do {
        payload \<leftarrow> encode_frame [] (ConnectionCloseFrame f);
        let (pn, s) = take_pn level s;
        if level = Initial then do {
          datagram \<leftarrow> initial_datagram E payload pn s;
          Some ((emit datagram s)\<lparr>cn_pending_close := None\<rparr>)
        }
        else do {
          (r, s) \<leftarrow> seal_packet E level payload pn s;
          Some ((case r of None \<Rightarrow> s | Some buf \<Rightarrow> emit buf s)\<lparr>cn_pending_close := None\<rparr>)
        }
      })"

section \<open>Collecting frames\<close>

lemma pull_lost_take: "pull_lost n r rs st = Some (p, st') \<Longrightarrow> pr_take p \<le> n"
  unfolding pull_lost_def Let_def by (cases "buf_slice st (fst r) (min n (snd r))") auto

lemma fin_only_take: "pr_take (fst (fin_only off st)) = 0"
  by (simp add: fin_only_def)

lemma pull_fresh_take:
  assumes "pull_fresh off n m st = Some (p, st')"
  shows "pr_take p \<le> n"
proof -
  define k where "k = min (min (min n (st_send_limit st - st_send_next_offset st))
      (usub (st_send_high_water st) (st_send_next_offset st))) m"
  have k: "k \<le> n" unfolding k_def by linarith
  have "pr_take p = 0 \<or> pr_take p = k"
    using assms fin_only_take [of off st] unfolding pull_fresh_def Let_def k_def [symmetric]
    by (cases "buf_slice st (st_send_next_offset st) k") (auto split: if_splits)
  with k show ?thesis by auto
qed

lemma pull_send_take_bound: "pull_send off n m st = Some (r, st') \<Longrightarrow> pr_take r \<le> n"
  by (auto simp: pull_send_def split: if_splits list.splits dest: pull_lost_take pull_fresh_take)

text \<open>
  The inner loop over one stream. It returns the frames, the stream, and the connection's remaining
  budget and running total.
\<close>

function pull_stream ::
    "nat \<Rightarrow> nat \<Rightarrow> stream \<Rightarrow> nat \<Rightarrow> nat \<Rightarrow> (stream_frame list \<times> stream \<times> nat \<times> nat) option" where
  "pull_stream stream_id budget st conn_budget tot =
     (if budget > 0 then
        (case pull_send 0 budget conn_budget st of
           None \<Rightarrow> None
         | Some (r, st') \<Rightarrow>
             if pr_take r = 0 \<and> \<not> pr_fin r then Some ([], st', conn_budget, tot)
             else
               let fresh = usub (st_send_next_offset st') (st_send_next_offset st);
                   tot = uadd tot fresh;
                   conn_budget = usub conn_budget fresh;
                   sf = \<lparr>sf_stream_id = stream_id, sf_offset = pr_offset r, sf_has_length = True,
                         sf_fin = pr_fin r, sf_data = pull_result.pr_data r\<rparr>
               in if pr_take r = 0 then Some ([sf], st', conn_budget, tot)
                  else map_option (\<lambda>(sfs, rest). (sf # sfs, rest))
                         (pull_stream stream_id (budget - pr_take r) st' conn_budget tot))
      else Some ([], st, conn_budget, tot))"
  by pat_completeness auto
termination
  by (relation "measure (\<lambda>(stream_id, budget, st, conn_budget, tot). budget)")
    (auto dest: pull_send_take_bound)

declare pull_stream.simps [simp del]

definition kStreamBudget :: nat where
  "kStreamBudget = 1100"

fun pull_streams ::
    "stream omap \<Rightarrow> nat \<Rightarrow> nat \<Rightarrow> (stream_frame list \<times> stream omap \<times> nat) option" where
  "pull_streams [] conn_budget tot = Some ([], [], tot)"
| "pull_streams ((stream_id, st) # rest) conn_budget tot = do {
     (sfs, st, conn_budget, tot) \<leftarrow> pull_stream stream_id kStreamBudget st conn_budget tot;
     (others, rest, tot) \<leftarrow> pull_streams rest conn_budget tot;
     Some (sfs @ others, (stream_id, st) # rest, tot)
   }"

definition collect_streams :: "enc_level \<Rightarrow> connection \<Rightarrow> (stream_frame list \<times> connection) option" where
  "collect_streams level s =
     (if level \<noteq> Application then Some ([], s)
      else do {
        let peer_md = tp_initial_max_data (peer_transport_params s);
        let s = (if peer_md > cn_send_max_data s then s\<lparr>cn_send_max_data := peer_md\<rparr> else s);
        let conn_budget = (if cn_send_max_data s > cn_send_total s
                           then cn_send_max_data s - cn_send_total s else 0);
        (sfs, streams, tot) \<leftarrow> pull_streams (cn_streams s) conn_budget (cn_send_total s);
        Some (sfs, s\<lparr>cn_streams := streams, cn_send_total := tot\<rparr>)
      })"

text \<open>The frame \<open>MAX_DATA\<close> and the two \<open>MAX_STREAMS\<close> frames that are due.\<close>

definition collect_control :: "enc_level \<Rightarrow> connection \<Rightarrow> frame list \<times> connection" where
  "collect_control level s =
     (if level \<noteq> Application then ([], s)
      else
        ((if cn_max_data_pending s then [MaxDataFrame (cn_recv_max_data s)] else [])
         @ (if cn_max_streams_bidi_pending s
            then [MaxStreamsFrame True (cn_local_max_streams_bidi s)] else [])
         @ (if cn_max_streams_uni_pending s
            then [MaxStreamsFrame False (cn_local_max_streams_uni s)] else []),
         s\<lparr>cn_max_data_pending := False, cn_max_streams_bidi_pending := False,
           cn_max_streams_uni_pending := False\<rparr>))"

text \<open>Everything one packet carries.\<close>

record packet_content =
  pc_crypto :: "crypto_frame list"
  pc_streams :: "stream_frame list"
  pc_include_ack :: bool
  pc_ack :: ack_frame
  pc_include_hs_done :: bool
  pc_path_responses :: "bytes list"
  pc_control :: "frame list"

definition collect_content :: "enc_level \<Rightarrow> connection \<Rightarrow> (packet_content \<times> connection) option" where
  "collect_content level s = do {
     let crypto_pending = cn_crypto_pending s level;
     let s = s\<lparr>cn_crypto_pending := (cn_crypto_pending s)(level := [])\<rparr>;
     (stream_pending, s) \<leftarrow> collect_streams level s;
     let sp = conn_space_of level s;
     let include_ack = ps_needs_ack (sp_acks sp);
     let (ack, acks) = (if include_ack then build_ack_frame 0 (sp_acks sp)
                        else (empty_ack_frame, sp_acks sp));
     let s = set_space level (sp\<lparr>sp_acks := acks\<rparr>) s;
     let include_hs_done = (level = Application \<and> tls_status (cn_tls s) = TEstablished
                            \<and> \<not> cn_sent_handshake_done s);
     let path_responses = (if level = Application then cn_pending_path_responses s else []);
     let s = (if level = Application then s\<lparr>cn_pending_path_responses := []\<rparr> else s);
     let (control, s) = collect_control level s;
     Some (\<lparr>pc_crypto = crypto_pending, pc_streams = stream_pending, pc_include_ack = include_ack,
            pc_ack = ack, pc_include_hs_done = include_hs_done,
            pc_path_responses = path_responses, pc_control = control\<rparr>, s)
   }"

definition content_empty :: "packet_content \<Rightarrow> bool" where
  "content_empty c \<longleftrightarrow> pc_crypto c = [] \<and> pc_streams c = [] \<and> \<not> pc_include_ack c
     \<and> \<not> pc_include_hs_done c \<and> pc_path_responses c = [] \<and> pc_control c = []"

definition content_payload :: "packet_content \<Rightarrow> bytes option" where
  "content_payload c = do {
     payload \<leftarrow> build_payload (pc_crypto c) (pc_streams c) (pc_include_ack c) (pc_ack c)
                  (pc_include_hs_done c) (pc_path_responses c) False;
     encode_frames payload (pc_control c)
   }"

section \<open>Tracking and emission\<close>

definition track_sent ::
    "env \<Rightarrow> enc_level \<Rightarrow> nat \<Rightarrow> bool \<Rightarrow> nat \<Rightarrow> packet_content \<Rightarrow> connection \<Rightarrow> connection" where
  "track_sent E level pn ack_eliciting n c s =
     (let (now, s) = read_clock E s;
          rec = \<lparr>sr_level = level, sr_ack_eliciting = ack_eliciting, sr_bytes = n, sr_sent_at = now,
                 sr_crypto = pc_crypto c, sr_streams = pc_streams c\<rparr>;
          s = s\<lparr>cn_sent := (cn_sent s)(level := om_emplace pn rec (cn_sent s level))\<rparr>
      in if ack_eliciting then
           let sp = conn_space_of level s
           in set_space level (sp\<lparr>sp_last_ack_eliciting_send_time := now,
                                  sp_any_ack_eliciting_sent := True\<rparr>)
                (s\<lparr>cn_congestion := on_packet_sent n (cn_congestion s)\<rparr>)
         else s)"

definition send_initial ::
    "env \<Rightarrow> packet_content \<Rightarrow> bytes \<Rightarrow> nat \<Rightarrow> connection \<Rightarrow> (bool \<times> connection) option" where
  "send_initial E c payload pn s = do {
     datagram \<leftarrow> initial_datagram E payload pn s;
     let ack_eliciting = (pc_crypto c \<noteq> [] \<or> pc_streams c \<noteq> [] \<or> pc_include_hs_done c);
     let s = track_sent E Initial pn ack_eliciting (length datagram) c s;
     Some (True, emit datagram s)
   }"

definition send_protected ::
    "env \<Rightarrow> enc_level \<Rightarrow> packet_content \<Rightarrow> bytes \<Rightarrow> nat \<Rightarrow> connection \<Rightarrow> (bool \<times> connection) option" where
  "send_protected E level c payload pn s = do {
     (r, s) \<leftarrow> seal_packet E level payload pn s;
     case r of
       None \<Rightarrow> Some (False, s)
     | Some buf \<Rightarrow>
         let ack_eliciting = (pc_crypto c \<noteq> [] \<or> pc_streams c \<noteq> [] \<or> pc_include_hs_done c
                              \<or> pc_path_responses c \<noteq> [] \<or> pc_control c \<noteq> []);
             s = track_sent E level pn ack_eliciting (length buf) c s;
             s = (if pc_include_hs_done c then s\<lparr>cn_sent_handshake_done := True\<rparr> else s)
         in Some (True, emit buf s)
   }"

definition kMaxDatagramEstimate :: nat where
  "kMaxDatagramEstimate = 1500"

definition amplification_blocked :: "connection \<Rightarrow> bool" where
  "amplification_blocked s \<longleftrightarrow> \<not> cn_peer_address_validated s
     \<and> uadd (cn_sent_bytes_unvalidated s) kMaxDatagramEstimate > umul 3 (cn_recv_bytes_total s)"

definition build_and_send :: "env \<Rightarrow> enc_level \<Rightarrow> connection \<Rightarrow> (bool \<times> connection) option" where
  "build_and_send E level s =
     (if \<not> sp_send_keys_ready (conn_space_of level s) then Some (False, s)
      else if cn_state s = CDraining \<or> cn_state s = CClosed then Some (False, s)
      else
        case cn_pending_close s of
          Some f \<Rightarrow> map_option (Pair False) (send_close E level f s)
        | None \<Rightarrow>
            if amplification_blocked s then Some (False, s)
            else do {
              (c, s) \<leftarrow> collect_content level s;
              if content_empty c then Some (False, s)
              else do {
                payload \<leftarrow> content_payload c;
                let (pn, s) = take_pn level s;
                if level = Initial then send_initial E c payload pn s
                else send_protected E level c payload pn s
              }
            })"

section \<open>Timers\<close>

definition pto_level :: "env \<Rightarrow> time_point \<Rightarrow> duration \<Rightarrow> enc_level \<Rightarrow> bool \<times> connection \<Rightarrow>
    (bool \<times> connection) option" where
  "pto_level E now pto lvl fs =
     (let (fired, s) = fs; sp = conn_space_of lvl s
      in if \<not> sp_any_ack_eliciting_sent sp then Some (fired, s)
         else if cn_sent s lvl = [] then Some (fired, s)
         else do {
           elapsed \<leftarrow> chk64 (now - sp_last_ack_eliciting_send_time sp);
           if elapsed < pto then Some (fired, s)
           else
             let lost = filter (\<lambda>e. sr_ack_eliciting (snd e)) (cn_sent s lvl);
                 s = fold (lose_entry E lvl) lost s
             in Some (True, set_space lvl
                  ((conn_space_of lvl s)\<lparr>sp_any_ack_eliciting_sent := False\<rparr>) s)
         })"

definition check_pto :: "env \<Rightarrow> connection \<Rightarrow> connection option" where
  "check_pto E s = do {
     max_ack_delay \<leftarrow> ms_to_ns (tp_max_ack_delay_ms (peer_transport_params s));
     pto \<leftarrow> pto_timeout max_ack_delay (cn_recovery s);
     let (now, s) = read_clock E s;
     fs \<leftarrow> pto_level E now pto Initial (False, s);
     fs \<leftarrow> pto_level E now pto Handshake fs;
     (fired, s) \<leftarrow> pto_level E now pto Application fs;
     Some (if fired then s\<lparr>cn_recovery := on_pto_fired (cn_recovery s)\<rparr> else s)
   }"

section \<open>Entry points\<close>

text \<open>\<open>for (safety = 0; safety < 64 && build_and_send(lvl); ++safety)\<close>\<close>

fun send_up_to :: "nat \<Rightarrow> env \<Rightarrow> enc_level \<Rightarrow> connection \<Rightarrow> connection option" where
  "send_up_to 0 E level s = Some s"
| "send_up_to (Suc n) E level s =
     (case build_and_send E level s of
        None \<Rightarrow> None
      | Some (again, s') \<Rightarrow> if again then send_up_to n E level s' else Some s')"

definition establish :: "connection \<Rightarrow> connection" where
  "establish s =
     (if tls_status (cn_tls s) = TEstablished \<and> cn_state s = CHandshaking
      then s\<lparr>cn_state := CEstablished\<rparr> else s)"

definition on_datagram :: "env \<Rightarrow> bytes \<Rightarrow> connection \<Rightarrow> connection option" where
  "on_datagram E datagram s =
     (if cn_state s = CClosed \<or> cn_state s = CDraining then Some s
      else do {
        let (now, s) = read_clock E s;
        let s = s\<lparr>cn_last_activity := now,
                  cn_recv_bytes_total := uadd (cn_recv_bytes_total s) (length datagram)\<rparr>;
        (finished, s) \<leftarrow> packet_loop E datagram 0 s;
        if \<not> finished then Some s
        else do {
          s \<leftarrow> install_new_keys E s;
          let s = tls_step E s;
          s \<leftarrow> install_new_keys E s;
          let s = pull_crypto_from_tls s;
          s \<leftarrow> send_up_to 64 E Initial s;
          s \<leftarrow> send_up_to 64 E Handshake s;
          s \<leftarrow> send_up_to 64 E Application s;
          Some (establish s)
        }
      })"

text \<open>
  The loop \<open>while (build_and_send(lvl)) {}\<close> has no bound in the source; \<open>fuel\<close> bounds the number of
  calls here, and a loop that has not ended by then is \<open>None\<close> inside.
\<close>

fun send_all :: "nat \<Rightarrow> env \<Rightarrow> enc_level \<Rightarrow> connection \<Rightarrow> connection option option" where
  "send_all 0 E level s = Some None"
| "send_all (Suc fuel) E level s =
     (case build_and_send E level s of
        None \<Rightarrow> None
      | Some (again, s') \<Rightarrow> if again then send_all fuel E level s' else Some (Some s'))"

fun send_levels :: "nat \<Rightarrow> env \<Rightarrow> enc_level list \<Rightarrow> connection \<Rightarrow> connection option option" where
  "send_levels fuel E [] s = Some (Some s)"
| "send_levels fuel E (l # ls) s =
     (case send_all fuel E l s of
        None \<Rightarrow> None
      | Some None \<Rightarrow> Some None
      | Some (Some s') \<Rightarrow> send_levels fuel E ls s')"

text \<open>The part of \<open>on_timer\<close> before the sending loops.\<close>

definition timer_work :: "env \<Rightarrow> connection \<Rightarrow> connection option" where
  "timer_work E s = do {
     s \<leftarrow> install_new_keys E s;
     let s = tls_step E s;
     s \<leftarrow> install_new_keys E s;
     s \<leftarrow> check_pto E s;
     let s = pull_crypto_from_tls s;
     let s = retire_closed_streams s;
     Some (refresh_conn_recv_window s)
   }"

definition on_timer :: "nat \<Rightarrow> env \<Rightarrow> connection \<Rightarrow> connection option option" where
  "on_timer fuel E s =
     (case check_idle_timeout E s of
        None \<Rightarrow> None
      | Some s \<Rightarrow>
          if cn_state s = CDraining \<or> cn_state s = CClosed then Some (Some s)
          else
            case timer_work E s of
              None \<Rightarrow> None
            | Some s \<Rightarrow>
                map_option (map_option establish)
                  (send_levels fuel E [Initial, Handshake, Application] s))"

definition mark_peer_address_validated :: "connection \<Rightarrow> connection" where
  "mark_peer_address_validated s = s\<lparr>cn_peer_address_validated := True\<rparr>"

definition close_with_error :: "nat \<Rightarrow> bool \<Rightarrow> string \<Rightarrow> nat \<Rightarrow> connection \<Rightarrow> connection" where
  "close_with_error error_code application reason frame_type s =
     initiate_close error_code application reason frame_type s"

section \<open>Runs\<close>

text \<open>What the owner of a connection can do with it.\<close>

inductive conn_step :: "env \<Rightarrow> connection \<Rightarrow> connection \<Rightarrow> bool" for E where
  datagram: "on_datagram E d s = Some s' \<Longrightarrow> conn_step E s s'"
| timer: "on_timer fuel E s = Some (Some s') \<Longrightarrow> conn_step E s s'"
| stream_write: "conn_step E s (write_stream i d fin s)"
| stream_read: "read_stream i s = (out, fin, s') \<Longrightarrow> conn_step E s s'"
| validated: "conn_step E s (mark_peer_address_validated s)"
| close: "conn_step E s (close_with_error code app reason ft s)"
| key_update: "initiate_key_update E s = Some (b, s') \<Longrightarrow> conn_step E s s'"

inductive conn_reach :: "env \<Rightarrow> tls_setup \<Rightarrow> transport_params \<Rightarrow> connection \<Rightarrow> bool" for E su tp where
  start: "connection_new E su dcid client_scid server_scid tp = Some s \<Longrightarrow> conn_reach E su tp s"
| step: "conn_reach E su tp s \<Longrightarrow> conn_step E s s' \<Longrightarrow> conn_reach E su tp s'"

end
