(* ===== verification/ConnInv.thy ===== *)
theory ConnInv
  imports ConnSend
begin

text \<open>
  How an invariant of a connection is proved. The locales state what an invariant has to survive:
  \<open>recv_invariant\<close> the primitive changes of the receiving half, \<open>packing_invariant\<close> and
  \<open>send_invariant\<close> those of the sending half, \<open>conn_base\<close>, \<open>conn_invariant\<close> and
  \<open>run_invariant\<close> the operations around them. Inside them it follows once that the invariant survives
  whole packets, datagrams, timer ticks and runs; the theories after this one interpret the locales
  for flow control, for the closing of connections and for the limit on unvalidated addresses.
\<close>

section \<open>The receiving half\<close>

text \<open>
  The stream operations of the acknowledgement path leave alone what flow control looks at: the receive
  side and the offset of the next fresh byte.
\<close>

definition window_same :: "stream \<Rightarrow> stream \<Rightarrow> bool" where
  "window_same st st' \<longleftrightarrow> st_recv_chunks st' = st_recv_chunks st
     \<and> st_recv_read_offset st' = st_recv_read_offset st
     \<and> st_recv_high_water st' = st_recv_high_water st \<and> st_recv_limit st' = st_recv_limit st
     \<and> st_recv_final_size st' = st_recv_final_size st \<and> st_recv_state st' = st_recv_state st
     \<and> st_id st' = st_id st \<and> st_send_next_offset st' = st_send_next_offset st"

lemma window_same_refl [simp]: "window_same st st"
  by (simp add: window_same_def)

lemma window_same_trans: "window_same a b \<Longrightarrow> window_same b c \<Longrightarrow> window_same a c"
  by (simp add: window_same_def)

lemma window_same_on_lost [simp]: "window_same st (on_lost off n st)"
  by (simp add: window_same_def on_lost_def Let_def)

lemma window_same_set_send_limit [simp]: "window_same st (set_send_limit n st)"
  by (simp add: window_same_def set_send_limit_def)

lemma window_same_write [simp]: "window_same st (stream_write d fin st)"
  by (simp add: window_same_def stream_write_def Let_def)

lemma window_same_trim_acked: "window_same st (trim_acked rs st)"
proof (induction rs arbitrary: st)
  case (Cons r rs)
  obtain off n where r: "r = (off, n)" by (cases r)
  let ?st = "st\<lparr>st_send_buf_head := st_send_buf_head st + n,
      st_send_buf_base_offset := st_send_buf_base_offset st + n\<rparr>"
  show ?case using Cons.IH [of ?st] by (simp add: r window_same_def)
qed (simp add: window_same_def)

lemma window_same_try_advance: "window_same st (try_advance_send_state_after_ack st)"
  by (simp add: window_same_def try_advance_send_state_after_ack_def)

lemma window_same_on_acked:
  assumes "on_acked off n st = Some st'"
  shows "window_same st st'"
proof (cases "n = 0")
  case True
  then show ?thesis
    using assms window_same_try_advance [of "st\<lparr>st_send_fin_acked := True\<rparr>"]
    by (auto simp: on_acked_def window_same_def split: if_splits)
next
  case False
  let ?t = "trim_acked (sort (st_acked_ranges st @ [(off, n)])) st"
  obtain u where u: "compact ?t = Some u"
    using assms False by (auto simp: on_acked_def Let_def split: bind_splits)
  then have "window_same ?t u" by (auto simp: compact_def window_same_def split: if_splits)
  with window_same_trim_acked have "window_same st u" by (rule window_same_trans)
  moreover have "st' = try_advance_send_state_after_ack
      (if st_send_fin_sent u \<and> off + n \<ge> st_send_high_water u then u\<lparr>st_send_fin_acked := True\<rparr> else u)"
    using assms False u by (simp add: on_acked_def Let_def)
  ultimately show ?thesis
    using window_same_try_advance [of u] window_same_try_advance [of "u\<lparr>st_send_fin_acked := True\<rparr>"]
    by (auto simp: window_same_def)
qed

text \<open>
  What the operations do to a packet-number space: keys, cursors and marks change freely, the next
  packet number stays, and the received ranges change by a received number or by an ACK frame that was
  due. Only \<open>take_pn\<close> advances the packet number.
\<close>

definition space_step :: "conn_space \<Rightarrow> conn_space \<Rightarrow> bool" where
  "space_step sp sp' \<longleftrightarrow> sp_next_send_pn sp' = sp_next_send_pn sp
     \<and> (sp_acks sp' = sp_acks sp \<or> (\<exists>pn. sp_acks sp' = on_received pn True (sp_acks sp))
        \<or> ps_needs_ack (sp_acks sp) \<and> sp_acks sp' = snd (build_ack_frame 0 (sp_acks sp)))"

lemma space_step_refl [simp]: "space_step sp sp"
  by (simp add: space_step_def)

lemma space_step_same:
  "sp_next_send_pn sp' = sp_next_send_pn sp \<Longrightarrow> sp_acks sp' = sp_acks sp \<Longrightarrow> space_step sp sp'"
  by (simp add: space_step_def)

lemma set_space_same [simp]: "cn_spaces (set_space l sp s) l = sp"
  by (simp add: set_space_def)

lemma note_largest_acked_step [simp]: "space_step sp (note_largest_acked n sp)"
  by (simp add: note_largest_acked_def space_step_def)

lemma note_received_step: "space_step sp' sp \<Longrightarrow> space_step sp' (note_received n sp)"
  by (simp add: note_received_def space_step_def)

lemma ratchet_same:
  "ratchet_send E sp = Some sp' \<Longrightarrow> sp_next_send_pn sp' = sp_next_send_pn sp \<and> sp_acks sp' = sp_acks sp"
  "ratchet_recv E sp = Some sp' \<Longrightarrow> sp_next_send_pn sp' = sp_next_send_pn sp \<and> sp_acks sp' = sp_acks sp"
  by (auto simp: ratchet_send_def ratchet_recv_def Let_def split: bind_splits)

lemma commit_key_update_same:
  "commit_key_update E sp = Some sp' \<Longrightarrow> sp_next_send_pn sp' = sp_next_send_pn sp \<and> sp_acks sp' = sp_acks sp"
  by (auto simp: commit_key_update_def split: bind_splits if_splits dest!: ratchet_same)

lemma open_short_step:
  assumes "open_short E kp pn n d sp = Some (r, sp')"
  shows "space_step sp sp'"
  using assms
  by (auto simp: open_short_def Let_def split: bind_splits if_splits prod.splits option.splits
      dest!: commit_key_update_same intro: space_step_same)

lemma install_keys_same:
  "install_recv_keys E l a rs sp = Some sp' \<Longrightarrow> sp_next_send_pn sp' = sp_next_send_pn sp \<and> sp_acks sp' = sp_acks sp"
  "install_send_keys E l a rs sp = Some sp' \<Longrightarrow> sp_next_send_pn sp' = sp_next_send_pn sp \<and> sp_acks sp' = sp_acks sp"
  "install_next_keys E l sp = Some sp' \<Longrightarrow> sp_next_send_pn sp' = sp_next_send_pn sp \<and> sp_acks sp' = sp_acks sp"
  by (auto simp: install_recv_keys_def install_send_keys_def install_next_keys_def Let_def
      split: bind_splits if_splits)

locale base_invariant =
  fixes E :: env and P :: "connection \<Rightarrow> bool"
  assumes clock: "P s \<Longrightarrow> P (s\<lparr>cn_clock_reads := Suc (cn_clock_reads s)\<rparr>)"
    and space: "P s \<Longrightarrow> space_step (conn_space_of l s) sp \<Longrightarrow> P (set_space l sp s)"
    and congestion: "P s \<Longrightarrow> P (s\<lparr>cn_congestion := cg\<rparr>)"
    and sent: "P s \<Longrightarrow> P (s\<lparr>cn_sent := m\<rparr>)"
    and pending: "P s \<Longrightarrow> P (s\<lparr>cn_crypto_pending := c\<rparr>)"
    and path: "P s \<Longrightarrow> P (s\<lparr>cn_pending_path_responses := p\<rparr>)"
    and flag_data: "P s \<Longrightarrow> P (s\<lparr>cn_max_data_pending := b\<rparr>)"
    and flag_bidi: "P s \<Longrightarrow> P (s\<lparr>cn_max_streams_bidi_pending := b\<rparr>)"
    and flag_uni: "P s \<Longrightarrow> P (s\<lparr>cn_max_streams_uni_pending := b\<rparr>)"
begin

lemma read_clock_P: "P s \<Longrightarrow> read_clock E s = (now, s') \<Longrightarrow> P s'"
  by (auto simp: read_clock_def clock)

end

locale recv_invariant = base_invariant +
  assumes tls: "P s \<Longrightarrow> P (s\<lparr>cn_tls := t\<rparr>)"
    and recovery: "P s \<Longrightarrow> P (s\<lparr>cn_recovery := rv\<rparr>)"
    and close: "P s \<Longrightarrow> P (initiate_close code app reason ft s)"
    and draining: "P s \<Longrightarrow> P (s\<lparr>cn_state := CDraining\<rparr>)"
    and validated: "P s \<Longrightarrow> P (s\<lparr>cn_peer_address_validated := True\<rparr>)"
    and raise_send: "P s \<Longrightarrow> n > cn_send_max_data s \<Longrightarrow> P (s\<lparr>cn_send_max_data := n\<rparr>)"
    and peer_bidi: "P s \<Longrightarrow> P (s\<lparr>cn_peer_max_streams_bidi := n\<rparr>)"
    and peer_uni: "P s \<Longrightarrow> P (s\<lparr>cn_peer_max_streams_uni := n\<rparr>)"
    and stream_send_side: "P s \<Longrightarrow> find_stream i s = Some st \<Longrightarrow> window_same st st' \<Longrightarrow>
      P (put_stream i st' s)"
    and stream_frame: "P s \<Longrightarrow> P (on_stream_frame f s)"
    and reset_frame: "P s \<Longrightarrow> P (on_reset_stream_frame i e n s)"
begin

lemma erase_sent_P: "P s \<Longrightarrow> P (erase_sent l pn s)"
  by (simp add: erase_sent_def sent)

lemma on_crypto_frame_P: "P s \<Longrightarrow> P (on_crypto_frame l off d s)"
  by (auto simp: on_crypto_frame_def feed_tls_crypto_def Let_def split_beta intro!: close space tls space_step_same)

lemma stream_lost_P: "P s \<Longrightarrow> P (stream_lost sf s)"
  by (auto simp: stream_lost_def on_lost_def Let_def window_same_def split: option.splits
      intro!: stream_send_side)

lemma fold_stream_lost_P: "P s \<Longrightarrow> P (fold stream_lost sfs s)"
  by (induction sfs arbitrary: s) (auto intro: stream_lost_P)

lemma declare_lost_P: "P s \<Longrightarrow> P (declare_lost E l rec s)"
  by (auto simp: declare_lost_def Let_def split: prod.splits
      intro!: congestion pending fold_stream_lost_P intro: read_clock_P)

lemma lose_entries_P: "P s \<Longrightarrow> P (fold (lose_entry E l) es s)"
  by (induction es arbitrary: s) (auto simp: lose_entry_def intro: erase_sent_P declare_lost_P)

lemma detect_and_handle_loss_P: "P s \<Longrightarrow> detect_and_handle_loss E l s = Some s' \<Longrightarrow> P s'"
  by (auto simp: detect_and_handle_loss_def Let_def split: if_splits prod.splits bind_splits
      intro!: lose_entries_P intro: read_clock_P)

lemma stream_acked_P: "P s \<Longrightarrow> stream_acked sf s = Some s' \<Longrightarrow> P s'"
  by (auto simp: stream_acked_def split: option.splits bind_splits
      intro: stream_send_side window_same_on_acked)

lemma streams_acked_P: "P s \<Longrightarrow> streams_acked sfs s = Some s' \<Longrightarrow> P s'"
  by (induction sfs arbitrary: s) (auto split: bind_splits intro: stream_acked_P)

lemma ack_entry_P: "P s \<Longrightarrow> ack_entry E l e s = Some s' \<Longrightarrow> P s'"
  by (auto simp: ack_entry_def split: bind_splits prod.splits
      intro!: erase_sent_P congestion intro: read_clock_P streams_acked_P)

lemma ack_entries_P: "P s \<Longrightarrow> ack_entries E l es s = Some s' \<Longrightarrow> P s'"
  by (induction es arbitrary: s) (auto split: bind_splits intro: ack_entry_P)

lemma ack_range_entries_P: "P s \<Longrightarrow> ack_range_entries E l lo hi s = Some s' \<Longrightarrow> P s'"
  by (auto simp: ack_range_entries_def split: if_splits intro: ack_entries_P)

lemma ack_more_ranges_P: "P s \<Longrightarrow> ack_more_ranges E l lo rs s = Some s' \<Longrightarrow> P s'"
  by (induction rs arbitrary: lo s)
    (auto simp: Let_def split: if_splits bind_splits intro: ack_range_entries_P)

lemma sample_rtt_P: "P s \<Longrightarrow> sample_rtt E t d s = Some s' \<Longrightarrow> P s'"
  by (auto simp: sample_rtt_def split: prod.splits bind_splits intro!: recovery intro: read_clock_P)

lemma on_ack_frame_P:
  assumes "P s" and "on_ack_frame E l f s = Some s'"
  shows "P s'"
proof -
  let ?s0 = "set_space l (note_largest_acked (ack_largest_acked f) (conn_space_of l s)) s"
  have P0: "P ?s0" using assms(1) by (rule space) simp
  show ?thesis
  proof (cases "ack_first_range f > ack_largest_acked f")
    case True
    then show ?thesis using assms(2) P0 by (simp add: on_ack_frame_def Let_def)
  next
    case False
    let ?lo = "ack_largest_acked f - ack_first_range f"
    obtain s1 s2 s3 where s1: "ack_range_entries E l ?lo (ack_largest_acked f) ?s0 = Some s1"
      and s2: "ack_more_ranges E l ?lo (ack_ranges f) s1 = Some s2"
      and s3: "(case map_of (cn_sent s l) (ack_largest_acked f) of
          Some rec \<Rightarrow> if sr_ack_eliciting rec
            then sample_rtt E (sr_sent_at rec) (ack_delay f) (s2\<lparr>cn_recovery := reset_pto (cn_recovery s2)\<rparr>)
            else Some (s2\<lparr>cn_recovery := reset_pto (cn_recovery s2)\<rparr>)
        | None \<Rightarrow> Some (s2\<lparr>cn_recovery := reset_pto (cn_recovery s2)\<rparr>)) = Some s3"
      and s': "detect_and_handle_loss E l s3 = Some s'"
      using assms(2) False by (auto simp: on_ack_frame_def Let_def split: bind_splits)
    have "P (s2\<lparr>cn_recovery := reset_pto (cn_recovery s2)\<rparr>)"
      by (rule recovery) (rule ack_more_ranges_P [OF ack_range_entries_P [OF P0 s1] s2])
    then have "P s3" using s3 by (auto split: option.splits if_splits intro: sample_rtt_P)
    then show ?thesis using s' by (rule detect_and_handle_loss_P)
  qed
qed

lemma deliver_frame_P: "P s \<Longrightarrow> deliver_frame E l f s = Some s' \<Longrightarrow> P s'"
  by (cases f)
    (auto split: if_splits option.splits
      intro: on_crypto_frame_P stream_frame reset_frame on_ack_frame_P draining path raise_send
        stream_send_side peer_bidi peer_uni flag_data flag_bidi flag_uni)

lemma deliver_each_P: "P s \<Longrightarrow> deliver_each E l fs s = Some s' \<Longrightarrow> P s'"
  by (induction fs arbitrary: s) (auto split: bind_splits intro: deliver_frame_P)

lemma accept_packet_P: "P s \<Longrightarrow> accept_packet E l pn pt s = Some s' \<Longrightarrow> P s'"
  by (auto simp: accept_packet_def deliver_frames_def Let_def space_step_def split: bind_splits option.splits
      intro!: space close intro: deliver_each_P)

lemma process_long_packet_P:
  "P s \<Longrightarrow> process_long_packet E d off s = Some (s', off', n) \<Longrightarrow> P s'"
  by (auto simp: process_long_packet_def Let_def split: option.splits if_splits prod.splits bind_splits
      elim!: accept_packet_P [rotated] intro!: validated space note_received_step space_step_same)

lemma process_short_packet_P: "P s \<Longrightarrow> process_short_packet E d s = Some (b, s') \<Longrightarrow> P s'"
  by (auto simp: process_short_packet_def Let_def split: option.splits if_splits prod.splits bind_splits
      elim!: accept_packet_P [rotated] dest!: open_short_step intro!: space note_received_step)

lemma packet_loop_P: "P s \<Longrightarrow> packet_loop E d off s = Some (b, s') \<Longrightarrow> P s'"
proof (induction "length d - off" arbitrary: off s rule: less_induct)
  case less
  show ?case
  proof (cases "off < length d \<and> d ! off AND 0x80 \<noteq> 0")
    case True
    then obtain s1 off1 n where s1: "process_long_packet E d off s = Some (s1, off1, n)"
      and rest: "if n = 0 then s' = s1 else packet_loop E d off1 s1 = Some (b, s')"
      using less.prems(2) by (subst (asm) packet_loop.simps) (auto split: option.splits if_splits)
    have P1: "P s1" using less.prems(1) s1 by (rule process_long_packet_P)
    show ?thesis
    proof (cases "n = 0")
      case False
      then have "length d - off1 < length d - off"
        using process_long_packet_progress [OF s1] True by auto
      then show ?thesis using less.hyps P1 rest False by auto
    qed (use P1 rest in simp)
  next
    case False
    then show ?thesis
      using less.prems by (subst (asm) packet_loop.simps)
        (auto split: option.splits if_splits intro: process_short_packet_P)
  qed
qed

end

section \<open>The sending half\<close>

locale packing_invariant = base_invariant +
  assumes number: "P s \<Longrightarrow> P (snd (take_pn l s))"
    and collect: "P s \<Longrightarrow> collect_streams l s = Some (sfs, s') \<Longrightarrow> P s'"
begin

lemma take_pn_P: "P s \<Longrightarrow> take_pn l s = (pn, s') \<Longrightarrow> P s'"
  using number [of s l] by simp

lemma seal_packet_P: "P s \<Longrightarrow> seal_packet E l pl pn s = Some (r, s') \<Longrightarrow> P s'"
  by (auto simp: seal_packet_def Let_def split: option.splits if_splits prod.splits bind_splits
      intro!: space space_step_same)

lemma collect_control_P: "P s \<Longrightarrow> collect_control l s = (c, s') \<Longrightarrow> P s'"
  using flag_uni [OF flag_bidi [OF flag_data [of s]]]
  by (auto simp: collect_control_def split: if_splits)

lemma collect_content_P:
  assumes "P s" and "collect_content l s = Some (c, s')"
  shows "P s'"
proof -
  obtain sfs s1 where s1: "collect_streams l (s\<lparr>cn_crypto_pending := (cn_crypto_pending s)(l := [])\<rparr>)
      = Some (sfs, s1)"
    using assms(2) by (auto simp: collect_content_def split: bind_splits)
  have P1: "P s1" using collect [OF pending [OF assms(1)] s1] .
  let ?acks = "snd (if ps_needs_ack (sp_acks (conn_space_of l s1))
      then build_ack_frame 0 (sp_acks (conn_space_of l s1))
      else (empty_ack_frame, sp_acks (conn_space_of l s1)))"
  let ?s2 = "set_space l ((conn_space_of l s1)\<lparr>sp_acks := ?acks\<rparr>) s1"
  let ?s3 = "if l = Application then ?s2\<lparr>cn_pending_path_responses := []\<rparr> else ?s2"
  have "P ?s3" using P1 by (auto simp: space_step_def intro!: space path)
  moreover have "s' = snd (collect_control l ?s3)"
    using assms(2) s1 by (auto simp: collect_content_def Let_def split_beta)
  ultimately show ?thesis by (auto intro: collect_control_P prod.collapse [symmetric])
qed

lemma track_sent_P: "P s \<Longrightarrow> P (track_sent E l pn a n c s)"
  by (auto simp: track_sent_def Let_def split: prod.splits
      intro!: space space_step_same congestion sent intro: read_clock_P)

end

locale send_invariant = packing_invariant +
  assumes out: "P s \<Longrightarrow> P (emit d s)"
    and close_sent: "P s \<Longrightarrow> P (s\<lparr>cn_pending_close := None\<rparr>)"
    and handshake_done: "P s \<Longrightarrow> P (s\<lparr>cn_sent_handshake_done := True\<rparr>)"
begin

lemma send_close_P: "P s \<Longrightarrow> send_close E l f s = Some s' \<Longrightarrow> P s'"
  by (auto simp: send_close_def split: option.splits if_splits prod.splits bind_splits
      intro!: close_sent out intro: take_pn_P seal_packet_P)

lemma send_initial_P: "P s \<Longrightarrow> send_initial E c pl pn s = Some (b, s') \<Longrightarrow> P s'"
  by (auto simp: send_initial_def split: bind_splits intro!: out track_sent_P)

lemma send_protected_P: "P s \<Longrightarrow> send_protected E l c pl pn s = Some (b, s') \<Longrightarrow> P s'"
  by (auto simp: send_protected_def Let_def split: bind_splits option.splits if_splits
      intro!: out handshake_done track_sent_P intro: seal_packet_P)

lemma send_content_P:
  assumes "P s" and "collect_content l s = Some (c, s1)" and "take_pn l s1 = (pn, s2)"
    and "(if l = Initial then send_initial E c pl pn s2 else send_protected E l c pl pn s2) = Some (b, s')"
  shows "P s'"
proof -
  have P2: "P s2" by (rule take_pn_P [OF collect_content_P [OF assms(1,2)] assms(3)])
  show ?thesis using assms(4) send_initial_P [OF P2, of c pl pn b s'] send_protected_P [OF P2, of l c pl pn b s']
    by (simp split: if_splits)
qed

lemma build_and_send_P:
  assumes "P s" and "build_and_send E l s = Some (b, s')"
  shows "P s'"
proof (cases "sp_send_keys_ready (conn_space_of l s) \<and> cn_state s \<noteq> CDraining \<and> cn_state s \<noteq> CClosed
    \<and> cn_pending_close s = None \<and> \<not> amplification_blocked s")
  case False
  then show ?thesis using assms
    by (auto simp: build_and_send_def split: if_splits option.splits intro: send_close_P)
next
  case True
  obtain c s1 where s1: "collect_content l s = Some (c, s1)"
    using assms(2) True by (auto simp: build_and_send_def split: bind_splits)
  show ?thesis
  proof (cases "content_empty c")
    case False
    obtain pn s2 where s2: "take_pn l s1 = (pn, s2)" by fastforce
    obtain pl where "(if l = Initial then send_initial E c pl pn s2 else send_protected E l c pl pn s2)
        = Some (b, s')"
      using assms(2) True s1 s2 False by (auto simp: build_and_send_def split: bind_splits)
    with assms(1) s1 s2 show ?thesis by (rule send_content_P)
  qed (use assms True s1 in \<open>auto simp: build_and_send_def intro: collect_content_P\<close>)
qed

end

section \<open>Whole operations\<close>

locale conn_base = recv_invariant +
  assumes handshakes: "P s \<Longrightarrow> P (s\<lparr>cn_handshakes := n\<rparr>)"
begin

lemma tls_step_P: "P s \<Longrightarrow> P (tls_step E s)"
  using handshakes [OF tls, of s] by (simp add: tls_step_def)

lemma install_new_keys_P: "P s \<Longrightarrow> install_new_keys E s = Some s' \<Longrightarrow> P s'"
  by (auto simp: install_new_keys_def install_level_keys_def Let_def split: bind_splits
      dest!: install_keys_same intro!: space space_step_same)

lemma pull_crypto_level_P: "P s \<Longrightarrow> P (pull_crypto_level l s)"
  using tls [OF pending [OF space, of s]]
  by (auto simp: pull_crypto_level_def set_space_def space_step_same Let_def)

lemma pull_crypto_from_tls_P: "P s \<Longrightarrow> P (pull_crypto_from_tls s)"
  by (simp add: pull_crypto_from_tls_def pull_crypto_level_P)

lemma check_idle_timeout_P: "P s \<Longrightarrow> check_idle_timeout E s = Some s' \<Longrightarrow> P s'"
  by (auto simp: check_idle_timeout_def split: if_splits option.splits prod.splits bind_splits
      intro!: draining intro: read_clock_P)

lemma pto_level_P: "P s \<Longrightarrow> pto_level E now pto l (b, s) = Some (b', s') \<Longrightarrow> P s'"
  by (auto simp: pto_level_def Let_def split: if_splits bind_splits intro!: space space_step_same lose_entries_P)

lemma check_pto_P:
  assumes "P (s\<lparr>cn_clock_reads := Suc (cn_clock_reads s)\<rparr>)" and "check_pto E s = Some s'"
  shows "P s'"
proof -
  let ?s0 = "s\<lparr>cn_clock_reads := Suc (cn_clock_reads s)\<rparr>" and ?now = "ev_clock E (cn_clock_reads s)"
  obtain pto b1 s1 b2 s2 b3 s3 where s1: "pto_level E ?now pto Initial (False, ?s0) = Some (b1, s1)"
    and s2: "pto_level E ?now pto Handshake (b1, s1) = Some (b2, s2)"
    and s3: "pto_level E ?now pto Application (b2, s2) = Some (b3, s3)"
    and s': "s' = (if b3 then s3\<lparr>cn_recovery := on_pto_fired (cn_recovery s3)\<rparr> else s3)"
    using assms(2) by (auto simp: check_pto_def read_clock_def split: bind_splits)
  have "P s3" by (rule pto_level_P [OF pto_level_P [OF pto_level_P [OF assms(1) s1] s2] s3])
  then show ?thesis by (simp add: s' recovery)
qed

lemma timer_work_P:
  assumes "P s" and "timer_work E s = Some s'"
    and "\<And>s. P s \<Longrightarrow> P (retire_closed_streams s)" and "\<And>s. P s \<Longrightarrow> P (refresh_conn_recv_window s)"
  shows "P s'"
proof -
  obtain s1 s2 s3 where s1: "install_new_keys E s = Some s1"
    and s2: "install_new_keys E (tls_step E s1) = Some s2" and s3: "check_pto E s2 = Some s3"
    and s': "s' = refresh_conn_recv_window (retire_closed_streams (pull_crypto_from_tls s3))"
    using assms(2) by (auto simp: timer_work_def split: bind_splits)
  have "P s2" by (rule install_new_keys_P [OF tls_step_P [OF install_new_keys_P [OF assms(1) s1]] s2])
  then have "P s3" by (rule check_pto_P [OF clock s3])
  then show ?thesis by (simp add: s' assms(3,4) pull_crypto_from_tls_P)
qed

end

locale conn_invariant = conn_base +
  assumes packet: "P s \<Longrightarrow> build_and_send E l s = Some (b, s') \<Longrightarrow> P s'"
    and established: "P s \<Longrightarrow> P (establish s)"
    and windows: "P s \<Longrightarrow> timer_work E s = Some s' \<Longrightarrow> P s'"
begin

lemma send_up_to_P: "P s \<Longrightarrow> send_up_to n E l s = Some s' \<Longrightarrow> P s'"
  by (induction n arbitrary: s) (auto split: option.splits if_splits dest: packet)

lemma send_all_P: "P s \<Longrightarrow> send_all n E l s = Some (Some s') \<Longrightarrow> P s'"
  by (induction n arbitrary: s) (auto split: option.splits if_splits dest: packet)

lemma send_levels_P: "P s \<Longrightarrow> send_levels n E ls s = Some (Some s') \<Longrightarrow> P s'"
  by (induction ls arbitrary: s) (auto split: option.splits intro: send_all_P)

lemma on_datagram_P:
  assumes "P s" and "on_datagram E d s = Some s'"
    and "P (s\<lparr>cn_clock_reads := Suc (cn_clock_reads s), cn_last_activity := ev_clock E (cn_clock_reads s),
      cn_recv_bytes_total := uadd (cn_recv_bytes_total s) (length d)\<rparr>)"
  shows "P s'"
proof (cases "cn_state s = CClosed \<or> cn_state s = CDraining")
  case False
  let ?s0 = "s\<lparr>cn_clock_reads := Suc (cn_clock_reads s), cn_last_activity := ev_clock E (cn_clock_reads s),
      cn_recv_bytes_total := uadd (cn_recv_bytes_total s) (length d)\<rparr>"
  obtain b s1 where s1: "packet_loop E d 0 ?s0 = Some (b, s1)"
    using assms(2) False by (auto simp: on_datagram_def read_clock_def split: bind_splits)
  have P1: "P s1" using assms(3) s1 by (rule packet_loop_P)
  show ?thesis
  proof (cases b)
    case True
    then obtain s2 s3 s4 s5 s6 where s2: "install_new_keys E s1 = Some s2"
      and s3: "install_new_keys E (tls_step E s2) = Some s3"
      and s4: "send_up_to 64 E Initial (pull_crypto_from_tls s3) = Some s4"
      and s5: "send_up_to 64 E Handshake s4 = Some s5"
      and s6: "send_up_to 64 E Application s5 = Some s6" and s': "s' = establish s6"
      using assms(2) False s1 by (auto simp: on_datagram_def read_clock_def split: bind_splits)
    have "P s3" by (rule install_new_keys_P [OF tls_step_P [OF install_new_keys_P [OF P1 s2]] s3])
    then have "P s4" by (rule send_up_to_P [OF pull_crypto_from_tls_P s4])
    then have "P s6" by (rule send_up_to_P [OF send_up_to_P [OF _ s5] s6])
    then show ?thesis by (simp add: s' established)
  qed (use assms(2) False s1 P1 in \<open>auto simp: on_datagram_def read_clock_def\<close>)
qed (use assms in \<open>simp add: on_datagram_def\<close>)

lemma on_timer_P:
  assumes "P s" and "on_timer fuel E s = Some (Some s')"
  shows "P s'"
proof -
  obtain s1 where s1: "check_idle_timeout E s = Some s1"
    using assms(2) by (auto simp: on_timer_def split: option.splits)
  have P1: "P s1" using assms(1) s1 by (rule check_idle_timeout_P)
  show ?thesis
  proof (cases "cn_state s1 = CDraining \<or> cn_state s1 = CClosed")
    case False
    then obtain s2 s3 where s2: "timer_work E s1 = Some s2"
      and s3: "send_levels fuel E [Initial, Handshake, Application] s2 = Some (Some s3)"
      and s': "s' = establish s3"
      using assms(2) s1 by (auto simp: on_timer_def simp del: send_levels.simps split: option.splits)
    have "P s3" by (rule send_levels_P [OF windows [OF P1 s2] s3])
    then show ?thesis by (simp add: s' established)
  qed (use assms(2) s1 P1 in \<open>simp add: on_timer_def\<close>)
qed

end

section \<open>Runs\<close>

locale run_invariant = conn_invariant +
  assumes arrival: "P s \<Longrightarrow> P (s\<lparr>cn_last_activity := t,
      cn_recv_bytes_total := uadd (cn_recv_bytes_total s) n\<rparr>)"
    and app_write: "P s \<Longrightarrow> P (write_stream i d fin s)"
    and app_read: "P s \<Longrightarrow> read_stream i s = (out, fin, s') \<Longrightarrow> P s'"
begin

lemma conn_step_P: "conn_step E s s' \<Longrightarrow> P s \<Longrightarrow> P s'"
proof (induction rule: conn_step.induct)
  case (datagram d s s')
  then show ?case using arrival [OF clock, of s] by (auto intro: on_datagram_P)
next
  case (key_update s b s')
  then show ?case
    by (auto simp: initiate_key_update_def Let_def split: if_splits bind_splits
        dest!: ratchet_same intro!: space space_step_same)
qed (auto simp: mark_peer_address_validated_def close_with_error_def
    intro: on_timer_P app_write app_read validated close)

lemma conn_reach_P:
  assumes "conn_reach E su tp s"
    and "\<And>dcid client_scid server_scid s.
      connection_new E su dcid client_scid server_scid tp = Some s \<Longrightarrow> P s"
  shows "P s"
  using assms(1) by (induction rule: conn_reach.induct) (auto intro: assms(2) conn_step_P)

end

section \<open>Construction\<close>

lemma finalize_tp_limits [simp]:
  "tp_initial_max_data (finalize_tp tp a b) = tp_initial_max_data tp"
  "tp_initial_max_streams_bidi (finalize_tp tp a b) = tp_initial_max_streams_bidi tp"
  "tp_initial_max_streams_uni (finalize_tp tp a b) = tp_initial_max_streams_uni tp"
  by (simp_all add: finalize_tp_def Let_def)

lemma connection_new_cases:
  assumes "connection_new E su dcid client_scid server_scid tp = Some s"
  obtains tls sp where "s = set_space Initial sp
    ((conn_blank dcid client_scid server_scid tls (finalize_tp tp dcid server_scid))
       \<lparr>cn_clock_reads := 1, cn_last_activity := ev_clock E 0, cn_recv_max_data := tp_initial_max_data tp,
        cn_local_max_streams_bidi := tp_initial_max_streams_bidi tp,
        cn_local_max_streams_uni := tp_initial_max_streams_uni tp\<rparr>)"
    and "initial_space (ev_lib E) dcid = Some sp"
  using assms
  by (auto simp: connection_new_def read_clock_def Let_def conn_blank_def split: bind_splits)

text \<open>A connection to apply the theorems to: it is constructed and its owner writes on stream 0.\<close>

definition demo_env :: env where
  "demo_env = \<lparr>ev_lib = demo_lib, ev_clock = (\<lambda>n. int n),
     ev_tls = (\<lambda>_. \<lparr>hr_callbacks = [], hr_rc = 0, hr_want = True, hr_err = 0, hr_cipher = None\<rparr>)\<rparr>"

definition demo_setup :: tls_setup where
  "demo_setup = \<lparr>su_ssl_new = True, su_quic_cbs = True, su_quic_tp = True\<rparr>"

definition demo_tp :: transport_params where
  "demo_tp = tp_default\<lparr>tp_initial_max_data := 1000, tp_initial_max_stream_data_bidi_remote := 100,
     tp_initial_max_streams_bidi := 4\<rparr>"

lemmas demo_kdf = hkdf_extract_def hkdf_expand_label_def hkdf_expand_def demo_lib_def kLabelPrefix_def
  Let_def

lemma demo_keys: "derive_packet_keys demo_lib a sec \<noteq> None"
  by (cases a) (simp_all add: derive_packet_keys_def aead_iv_length_def aead_hp_length_def demo_kdf)

lemma demo_secret: "derive_initial_secret demo_lib dcid d \<noteq> None"
  by (simp add: derive_initial_secret_def demo_kdf)

lemma demo_initial: "initial_space demo_lib dcid \<noteq> None"
  by (auto simp: initial_space_def demo_keys demo_secret simp del: not_None_eq split: bind_splits)

lemma demo_new: "\<exists>s. connection_new demo_env demo_setup [1] [2] [3] demo_tp = Some s"
proof -
  let ?tp = "finalize_tp demo_tp [1] [3]"
  have "tp_ok ?tp"
    by (simp add: finalize_tp_def demo_tp_def tp_ok_def cid_ok_def tp_default_def kMaxCidLen_def kMax_eq)
  then obtain wire where "encode_transport_params ?tp = Some wire" using encode_wire by blast
  then show ?thesis using demo_initial [of "[1]"]
    by (auto simp: connection_new_def demo_setup_def demo_env_def tls_new_def read_clock_def Let_def)
qed

lemma demo_reach:
  "\<exists>s. conn_reach demo_env demo_setup demo_tp s \<and> cn_streams s \<noteq> [] \<and> cn_clock_reads s = 1"
proof -
  obtain s where s: "connection_new demo_env demo_setup [1] [2] [3] demo_tp = Some s" using demo_new by blast
  have reads: "cn_clock_reads s = 1"
    by (cases rule: connection_new_cases [OF s]) (simp add: set_space_def)
  let ?s = "write_stream 0 [7] False s"
  have "conn_reach demo_env demo_setup demo_tp ?s"
    by (rule conn_reach.step [OF conn_reach.start [OF s] conn_step.stream_write])
  moreover have "om_set i x m \<noteq> []" for i and x :: stream and m by (cases "(i, x, m)" rule: om_set.cases) auto
  then have "cn_streams ?s \<noteq> []" by (simp add: write_stream_def put_stream_def split_beta)
  moreover have "cn_clock_reads ?s = 1"
    using reads by (simp add: write_stream_def put_stream_def ensure_stream_def split_beta Let_def
        split: option.split)
  ultimately show ?thesis by blast
qed

end
