(* ===== verification/Reassembly.thy ===== *)
theory Reassembly
  imports Prelude
begin

text \<open>
  The contract of a byte-stream reassembler, which streams and the handshake's CRYPTO data share. The
  peer's data is a function \<open>src\<close> from offsets to bytes; segments of it arrive in any order, repeated
  and overlapping. A reassembler hands out bytes from a cursor on. The client lemma of the locale is
  that the bytes handed out over any run are exactly a prefix of the peer's data.
\<close>

definition seg :: "(nat \<Rightarrow> byte) \<Rightarrow> nat \<Rightarrow> nat \<Rightarrow> bytes" where
  "seg src a b = map src [a..<b]"

lemma length_seg [simp]: "length (seg src a b) = b - a"
  by (simp add: seg_def)

lemma seg_append: "a \<le> b \<Longrightarrow> b \<le> c \<Longrightarrow> seg src a b @ seg src b c = seg src a c"
  by (metis le_Suc_ex map_append seg_def upt_add_eq_append)

lemma drop_seg [simp]: "drop n (seg src a b) = seg src (a + n) b"
  by (simp add: seg_def drop_map)

lemma seg_Nil_iff [simp]: "seg src a b = [] \<longleftrightarrow> b \<le> a"
  by (auto simp: seg_def)

lemma Nil_eq_seg [simp]: "[] = seg src a b \<longleftrightarrow> b \<le> a"
  by (metis seg_Nil_iff)

text \<open>A segment that carries the peer's bytes for its offsets.\<close>

definition genuine :: "(nat \<Rightarrow> byte) \<Rightarrow> nat \<Rightarrow> bytes \<Rightarrow> bool" where
  "genuine src off d \<longleftrightarrow> d = seg src off (off + length d) \<and> off + length d < 2 ^ 64"

text \<open>
  The operations of a run: a segment arrives (with a flag of type \<open>'p\<close>), the application reads, or an
  operation \<open>'o\<close> that touches neither the data nor the cursor.
\<close>

datatype ('p, 'o) reassembly_op = Put nat bytes 'p | Get | Ctl 'o

locale reassembler =
  fixes invar :: "(nat \<Rightarrow> byte) \<Rightarrow> 's \<Rightarrow> bool" and cursor :: "'s \<Rightarrow> nat"
    and put :: "nat \<Rightarrow> bytes \<Rightarrow> 'p \<Rightarrow> 's \<Rightarrow> 's" and get :: "'s \<Rightarrow> bytes \<times> 's"
    and ctl :: "'o \<Rightarrow> 's \<Rightarrow> 's"
  assumes put_law: "invar src s \<Longrightarrow> genuine src off d \<Longrightarrow>
      invar src (put off d p s) \<and> cursor (put off d p s) = cursor s"
    and get_law: "invar src s \<Longrightarrow> get s = (bs, s') \<Longrightarrow>
      invar src s' \<and> cursor s \<le> cursor s' \<and> bs = seg src (cursor s) (cursor s')"
    and ctl_law: "invar src s \<Longrightarrow> invar src (ctl x s) \<and> cursor (ctl x s) = cursor s"
begin

fun step :: "('p, 'o) reassembly_op \<Rightarrow> 's \<times> bytes \<Rightarrow> 's \<times> bytes" where
  "step (Put off d p) (s, out) = (put off d p s, out)"
| "step Get (s, out) = (let (bs, s') = get s in (s', out @ bs))"
| "step (Ctl x) (s, out) = (ctl x s, out)"

fun genuine_op :: "(nat \<Rightarrow> byte) \<Rightarrow> ('p, 'o) reassembly_op \<Rightarrow> bool" where
  "genuine_op src (Put off d p) = genuine src off d"
| "genuine_op src _ = True"

lemma step_prefix:
  assumes "invar src s" and "out = seg src a (cursor s)" and "a \<le> cursor s" and "genuine_op src e"
    and "step e (s, out) = (s', out')"
  shows "invar src s' \<and> out' = seg src a (cursor s') \<and> a \<le> cursor s'"
proof (cases e)
  case (Put off d p)
  then show ?thesis using assms put_law [of src s off d p] by auto
next
  case Get
  obtain bs t where g: "get s = (bs, t)" by (cases "get s")
  with assms(2,5) Get have "out' = seg src a (cursor s) @ bs" "s' = t" by auto
  then show ?thesis using get_law [OF assms(1) g] assms(3) seg_append [of a "cursor s"] by simp
next
  case (Ctl x)
  then show ?thesis using assms ctl_law [of src s x] by auto
qed

lemma run_prefix:
  assumes "invar src s" and "out = seg src a (cursor s)" and "a \<le> cursor s"
    and "list_all (genuine_op src) es" and "fold step es (s, out) = (s', out')"
  shows "invar src s' \<and> out' = seg src a (cursor s')"
  using assms
proof (induction es arbitrary: s out)
  case (Cons e es)
  obtain s1 out1 where s1: "step e (s, out) = (s1, out1)" by (cases "step e (s, out)")
  have "invar src s1 \<and> out1 = seg src a (cursor s1) \<and> a \<le> cursor s1"
    by (rule step_prefix [OF Cons.prems(1-3) _ s1]) (use Cons.prems(4) in simp)
  with Cons.IH [of s1 out1] Cons.prems(4,5) s1 show ?case by simp
qed simp

end

end
