(* ===== verification/StreamRecv.thy ===== *)
theory StreamRecv
  imports Stream Reassembly
begin

text \<open>
  Reassembly on the receive side of a stream. The peer's byte stream is a function \<open>src\<close> from offsets
  to bytes. The invariant says that the chunks are disjoint, not adjacent, above the read cursor and
  copies of the peer's bytes; the abstraction is the set of offsets they cover. The theory shows what
  \<open>deliver\<close> does to that set, that the application reads exactly a prefix of the peer's stream, that
  flow control holds, and in which case \<open>deliver\<close> drops bytes it has accepted.
\<close>

section \<open>Chunk lists\<close>

definition chunk_ok :: "(nat \<Rightarrow> byte) \<Rightarrow> chunk \<Rightarrow> bool" where
  "chunk_ok src c \<longleftrightarrow> snd c \<noteq> [] \<and> snd c = seg src (fst c) (chunk_end c)"

definition chunk_set :: "chunk \<Rightarrow> nat set" where
  "chunk_set c = {fst c..<chunk_end c}"

definition covered :: "chunk list \<Rightarrow> nat set" where
  "covered cs = \<Union> (chunk_set ` set cs)"

text \<open>Ascending from \<open>lo\<close> with a gap between neighbours.\<close>

fun chunks_asc :: "nat \<Rightarrow> chunk list \<Rightarrow> bool" where
  "chunks_asc lo [] = True"
| "chunks_asc lo (c # cs) = (lo \<le> fst c \<and> chunks_asc (chunk_end c + 1) cs)"

definition next_lo :: "nat \<Rightarrow> chunk list \<Rightarrow> nat" where
  "next_lo lo cs = (if cs = [] then lo else chunk_end (last cs) + 1)"

definition chunks_inv :: "(nat \<Rightarrow> byte) \<Rightarrow> nat \<Rightarrow> chunk list \<Rightarrow> bool" where
  "chunks_inv src lo cs \<longleftrightarrow> chunks_asc lo cs \<and> list_all (chunk_ok src) cs"

lemma chunk_end_Pair [simp]: "chunk_end (k, v) = k + length v"
  by (simp add: chunk_end_def)

lemma chunk_set_Pair [simp]: "chunk_set (k, v) = {k..<k + length v}"
  by (simp add: chunk_set_def)

lemma covered_simps [simp]:
  "covered [] = {}" "covered (c # cs) = chunk_set c \<union> covered cs"
  "covered (xs @ ys) = covered xs \<union> covered ys"
  by (auto simp: covered_def)

lemma chunk_end_ge [simp]: "fst c \<le> chunk_end c"
  by (simp add: chunk_end_def)

lemma chunks_asc_append:
  "chunks_asc lo (xs @ ys) \<longleftrightarrow> chunks_asc lo xs \<and> chunks_asc (next_lo lo xs) ys"
  by (induction xs arbitrary: lo) (auto simp: next_lo_def)

lemma chunks_asc_mono: "chunks_asc lo cs \<Longrightarrow> lo' \<le> lo \<Longrightarrow> chunks_asc lo' cs"
  by (cases cs) auto

lemma chunks_inv_simps [simp]:
  "chunks_inv src lo []"
  "chunks_inv src lo (c # cs) \<longleftrightarrow> lo \<le> fst c \<and> chunk_ok src c \<and> chunks_inv src (chunk_end c + 1) cs"
  by (auto simp: chunks_inv_def)

lemma chunks_inv_append:
  "chunks_inv src lo (xs @ ys) \<longleftrightarrow> chunks_inv src lo xs \<and> chunks_inv src (next_lo lo xs) ys"
  by (auto simp: chunks_inv_def chunks_asc_append)

lemma chunks_inv_mono: "chunks_inv src lo cs \<Longrightarrow> lo' \<le> lo \<Longrightarrow> chunks_inv src lo' cs"
  by (auto simp: chunks_inv_def intro: chunks_asc_mono)

lemma chunks_inv_covered: "chunks_inv src lo cs \<Longrightarrow> x \<in> covered cs \<Longrightarrow> lo \<le> x"
  by (induction cs arbitrary: lo) (fastforce simp: chunk_set_def dest: chunks_inv_mono)+

section \<open>Merging\<close>

lemma absorb_spec:
  assumes "absorb k v rest = (v', rest')" and "chunks_inv src m rest" and "k \<le> m"
    and "v = seg src k (k + length v)"
  shows "v' = seg src k (k + length v') \<and> length v \<le> length v' \<and>
    chunks_inv src (k + length v' + 1) rest' \<and>
    {k..<k + length v'} \<union> covered rest' = {k..<k + length v} \<union> covered rest"
  using assms
proof (induction k v rest arbitrary: m rule: absorb.induct)
  case (2 k v k2 v2 rest)
  from "2.prems" have k2: "m \<le> k2" "v2 \<noteq> []" "v2 = seg src k2 (k2 + length v2)"
    and rest: "chunks_inv src (k2 + length v2 + 1) rest"
    by (simp_all add: chunk_ok_def)
  show ?case
  proof (cases "k2 \<le> k + length v")
    case False
    with "2.prems" k2 rest show ?thesis
      by (auto simp: chunk_ok_def)
  next
    case True
    let ?stop = "k2 + length v2"
    define w where "w = (if ?stop > k + length v
        then v @ drop (length v2 - (?stop - (k + length v))) v2 else v)"
    have step: "absorb k w rest = (v', rest')" using "2.prems"(1) True by (simp add: w_def Let_def)
    have "w = seg src k (max (k + length v) ?stop)"
    proof (cases "?stop > k + length v")
      case True
      have n: "length v2 - (?stop - (k + length v)) = k + length v - k2"
        using True \<open>k2 \<le> k + length v\<close> by linarith
      have "drop (k + length v - k2) v2 = seg src (k + length v) ?stop"
        using \<open>k2 \<le> k + length v\<close> k2(3) by (metis drop_seg le_add_diff_inverse)
      then show ?thesis
        using True "2.prems"(4) seg_append [of k "k + length v" ?stop src] by (simp add: w_def n)
    qed (use "2.prems"(4) in \<open>simp add: w_def max_def\<close>)
    then have w: "w = seg src k (k + length w)" "k + length w = max (k + length v) ?stop" by simp_all
    have "k \<le> ?stop + 1" using "2.prems"(3) k2(1) by simp
    note IH = "2.IH" [OF True refl w_def step rest this w(1)]
    have "{k..<k + length w} = {k..<k + length v} \<union> {k2..<?stop}"
      unfolding w(2) using True k2(1) "2.prems"(3) by auto
    moreover have "length v \<le> length w" using w(2) by simp
    ultimately show ?thesis using IH by (simp add: Un_assoc)
  qed
qed simp

lemma grow_chunk_spec:
  assumes "chunks_inv src lo before" and "next_lo lo before \<le> k" and "v \<noteq> []"
    and "v = seg src k (k + length v)" and "chunks_inv src m rest" and "k \<le> m"
  shows "chunks_inv src lo (grow_chunk before k v rest)"
    and "covered (grow_chunk before k v rest) = covered before \<union> {k..<k + length v} \<union> covered rest"
proof -
  obtain v' rest' where ab: "absorb k v rest = (v', rest')" by fastforce
  have spec: "v' = seg src k (k + length v')" "length v \<le> length v'"
    "chunks_inv src (k + length v' + 1) rest'"
    "{k..<k + length v'} \<union> covered rest' = {k..<k + length v} \<union> covered rest"
    using absorb_spec [OF ab assms(5,6,4)] by blast+
  have "v' \<noteq> []" using assms(3) spec(2) by auto
  then show "chunks_inv src lo (grow_chunk before k v rest)"
    using assms(1,2) spec by (simp add: grow_chunk_def ab chunks_inv_append chunk_ok_def)
  show "covered (grow_chunk before k v rest) = covered before \<union> {k..<k + length v} \<union> covered rest"
    using spec(4) by (auto simp: grow_chunk_def ab)
qed

text \<open>The split at \<open>lower_bound\<close>.\<close>

lemma lower_bound_split:
  assumes "chunks_inv src lo cs" and "before = takeWhile (\<lambda>c. fst c < off) cs"
    and "rest = dropWhile (\<lambda>c. fst c < off) cs"
  shows "cs = before @ rest" and "chunks_inv src lo before"
    and "chunks_inv src (max off (next_lo lo before)) rest"
proof -
  show cs: "cs = before @ rest" using assms(2,3) by simp
  then show "chunks_inv src lo before" using assms(1) by (simp add: chunks_inv_append)
  have rest: "chunks_inv src (next_lo lo before) rest"
    using assms(1) cs by (simp add: chunks_inv_append)
  show "chunks_inv src (max off (next_lo lo before)) rest"
  proof (cases rest)
    case (Cons c cs')
    then have "\<not> fst c < off" using assms(3) by (metis hd_dropWhile list.discI list.sel(1))
    with rest Cons show ?thesis by simp
  qed simp
qed

text \<open>A chunk shorter than the new data that starts exactly where the new data goes.\<close>

definition collides :: "nat \<Rightarrow> bytes \<Rightarrow> chunk list \<Rightarrow> bool" where
  "collides off d cs \<longleftrightarrow> (\<exists>v. (off, v) \<in> set cs \<and> length v < length d)"

text \<open>What an insertion of \<open>d\<close> at \<open>off\<close> achieves.\<close>

definition inserted :: "(nat \<Rightarrow> byte) \<Rightarrow> nat \<Rightarrow> nat \<Rightarrow> bytes \<Rightarrow> chunk list \<Rightarrow> chunk list \<Rightarrow> bool" where
  "inserted src lo off d cs cs' \<longleftrightarrow> chunks_inv src lo cs' \<and> covered cs \<subseteq> covered cs' \<and>
     covered cs' \<subseteq> covered cs \<union> {off..<off + length d} \<and>
     (\<not> collides off d cs \<longrightarrow> {off..<off + length d} \<subseteq> covered cs')"

text \<open>The chunk before reaches the new data.\<close>

lemma extend_prev:
  assumes inv: "chunks_inv src lo (b @ (pk, pv) # rest)" and d: "d = seg src off (off + length d)"
    and "pk < off" and reach: "off \<le> pk + length pv" "pk + length pv < off + length d"
    and rest: "chunks_inv src off rest"
  shows "inserted src lo off d (b @ (pk, pv) # rest)
    (grow_chunk b pk (pv @ drop (pk + length pv - off) d) rest)"
proof -
  from inv have wf: "chunks_inv src lo b" "next_lo lo b \<le> pk" "pv \<noteq> []"
    "pv = seg src pk (pk + length pv)"
    by (simp_all add: chunks_inv_append chunk_ok_def)
  let ?v = "pv @ drop (pk + length pv - off) d"
  have "drop (pk + length pv - off) d = seg src (pk + length pv) (off + length d)"
    using d reach by (metis drop_seg le_add_diff_inverse)
  then have v: "?v = seg src pk (off + length d)"
    using wf(4) seg_append [of pk "pk + length pv" "off + length d" src] reach by simp
  have end': "pk + length ?v = off + length d" using reach by simp
  with v have v': "?v = seg src pk (pk + length ?v)" by simp
  have "?v \<noteq> []" using wf(3) by simp
  note g = grow_chunk_spec [OF wf(1,2) this v' rest less_imp_le [OF \<open>pk < off\<close>]]
  have u: "{pk..<pk + length ?v} = {pk..<pk + length pv} \<union> {off..<off + length d}"
    unfolding end' using reach \<open>pk < off\<close> by auto
  have "covered (grow_chunk b pk ?v rest) =
      covered (b @ (pk, pv) # rest) \<union> {off..<off + length d}"
    unfolding g(2) u by auto
  with g(1) show ?thesis by (simp add: inserted_def)
qed

text \<open>A chunk is already there: it stays as it is.\<close>

lemma keep_existing:
  assumes "chunks_inv src lo (before @ (off, v) # rest)"
  shows "inserted src lo off d (before @ (off, v) # rest) (grow_chunk before off v rest)"
proof -
  from assms have wf: "chunks_inv src lo before" "next_lo lo before \<le> off" "v \<noteq> []"
    "v = seg src off (off + length v)" "chunks_inv src (off + length v + 1) rest"
    by (simp_all add: chunks_inv_append chunk_ok_def)
  have "off \<le> off + length v + 1" by simp
  note g = grow_chunk_spec [OF wf this]
  have same: "covered (grow_chunk before off v rest) = covered (before @ (off, v) # rest)"
    unfolding g(2) by auto
  have "{off..<off + length d} \<subseteq> covered (before @ (off, v) # rest)"
    if "\<not> collides off d (before @ (off, v) # rest)"
  proof -
    from that have "length d \<le> length v" by (auto simp: collides_def not_less)
    then show ?thesis by auto
  qed
  with g(1) show ?thesis unfolding inserted_def same by blast
qed

lemma insert_chunk_spec:
  assumes inv: "chunks_inv src lo cs" and d: "d \<noteq> []" "d = seg src off (off + length d)"
    and lo: "lo \<le> off"
  shows "inserted src lo off d cs (insert_chunk off d cs)"
proof -
  define before where "before = takeWhile (\<lambda>c. fst c < off) cs"
  define rest where "rest = dropWhile (\<lambda>c. fst c < off) cs"
  note split = lower_bound_split [OF inv before_def rest_def]
  note ins = insert_chunk_def [of off d cs, folded before_def rest_def]
  have rest: "chunks_inv src off rest" using split(3) chunks_inv_mono by fastforce
  show ?thesis
  proof (cases "before \<noteq> [] \<and> chunk_end (last before) \<ge> off")
    case True
    then obtain b pk pv where b: "before = b @ [(pk, pv)]" by (metis prod.exhaust rev_exhaust)
    have "(pk, pv) \<in> set before" using b by simp
    then have pk: "pk < off" unfolding before_def by (auto dest: set_takeWhileD)
    show ?thesis
    proof (cases "pk + length pv \<ge> off + length d")
      case True
      then have "insert_chunk off d cs = cs" using b by (simp add: ins Let_def)
      moreover have "{off..<off + length d} \<subseteq> covered cs" using True pk split(1) b by auto
      ultimately show ?thesis using inv by (auto simp: inserted_def)
    next
      case False
      then have "insert_chunk off d cs =
          grow_chunk b pk (pv @ drop (pk + length pv - off) d) rest"
        using True b by (simp add: ins Let_def)
      then show ?thesis
        using extend_prev [of src lo b pk pv rest d off] inv split(1) b d(2) pk True False rest
        by simp
    qed
  next
    case apart: False
    then have nb: "next_lo lo before \<le> off" using lo by (auto simp: next_lo_def)
    show ?thesis
    proof (cases "rest \<noteq> [] \<and> fst (hd rest) = off")
      case True
      then obtain v rest' where r: "rest = (off, v) # rest'" by (cases rest) auto
      then have "insert_chunk off d cs = grow_chunk before off v rest'"
        using apart by (auto simp: ins Let_def)
      then show ?thesis using keep_existing [of src lo before off v rest' d] inv split(1) r by simp
    next
      case False
      then have "insert_chunk off d cs = grow_chunk before off d rest"
        using apart by (auto simp: ins Let_def)
      then show ?thesis
        using grow_chunk_spec [OF split(2) nb d rest order_refl]
        by (subst split(1)) (auto simp: inserted_def)
    qed
  qed
qed

section \<open>Delivery\<close>

definition is_reset :: "stream \<Rightarrow> bool" where
  "is_reset s \<longleftrightarrow> st_recv_state s = ResetRecvd \<or> st_recv_state s = ResetRead"

text \<open>The chunk is within the flow-control limit and agrees with the final size, if that is known.\<close>

definition acceptable :: "nat \<Rightarrow> nat \<Rightarrow> bool \<Rightarrow> stream \<Rightarrow> bool" where
  "acceptable off n fin s \<longleftrightarrow> off + n \<le> st_recv_limit s \<and>
     (\<forall>f. st_recv_final_size s = Some f \<longrightarrow> off + n \<le> f \<and> (fin \<longrightarrow> off + n = f))"

text \<open>The part of the data above the read cursor.\<close>

definition fresh_part :: "nat \<Rightarrow> bytes \<Rightarrow> stream \<Rightarrow> bytes" where
  "fresh_part off d s = drop (st_recv_read_offset s - off) d"

definition put_offset :: "nat \<Rightarrow> stream \<Rightarrow> nat" where
  "put_offset off s = max off (st_recv_read_offset s)"

lemma recv_transition_simps [simp]:
  "st_recv_chunks (recv_transition s) = st_recv_chunks s"
  "st_recv_read_offset (recv_transition s) = st_recv_read_offset s"
  "st_recv_high_water (recv_transition s) = st_recv_high_water s"
  "st_recv_limit (recv_transition s) = st_recv_limit s"
  "st_recv_final_size (recv_transition s) = st_recv_final_size s"
  by (simp_all add: recv_transition_def Let_def split: option.split list.split)

lemma deliver_accepted:
  assumes "\<not> is_reset s" and "off + length d < 2 ^ 64" and "acceptable off (length d) fin s"
  shows "fst (deliver off d fin s)"
    and "st_recv_chunks (snd (deliver off d fin s)) =
      (if fresh_part off d s = [] then st_recv_chunks s
       else insert_chunk (put_offset off s) (fresh_part off d s) (st_recv_chunks s))"
    and "st_recv_read_offset (snd (deliver off d fin s)) = st_recv_read_offset s"
    and "st_recv_high_water (snd (deliver off d fin s)) = max (st_recv_high_water s) (off + length d)"
    and "st_recv_limit (snd (deliver off d fin s)) = st_recv_limit s"
    and "st_recv_final_size (snd (deliver off d fin s)) =
      (if fin then Some (off + length d) else st_recv_final_size s)"
proof -
  have e: "uadd off (length d) = off + length d" using assms(2) by simp
  have ok: "\<not> (case st_recv_final_size s of None \<Rightarrow> False
      | Some f \<Rightarrow> f < off + length d \<or> fin \<and> off + length d \<noteq> f)"
    "\<not> st_recv_limit s < off + length d"
    using assms(3) by (auto simp: acceptable_def split: option.split)
  have open': "\<not> (st_recv_state s = ResetRecvd \<or> st_recv_state s = ResetRead)"
    using assms(1) by (simp add: is_reset_def)
  note d = deliver_def [of off d fin s, unfolded e, simplified open' ok if_False Let_def]
  show "fst (deliver off d fin s)" by (simp add: d split: prod.split)
  show "st_recv_chunks (snd (deliver off d fin s)) =
      (if fresh_part off d s = [] then st_recv_chunks s
       else insert_chunk (put_offset off s) (fresh_part off d s) (st_recv_chunks s))"
    by (auto simp: d fresh_part_def put_offset_def max_def)
  show "st_recv_read_offset (snd (deliver off d fin s)) = st_recv_read_offset s"
    and "st_recv_high_water (snd (deliver off d fin s)) = max (st_recv_high_water s) (off + length d)"
    and "st_recv_limit (snd (deliver off d fin s)) = st_recv_limit s"
    and "st_recv_final_size (snd (deliver off d fin s)) =
      (if fin then Some (off + length d) else st_recv_final_size s)"
    by (auto simp: d max_def split: prod.split)
qed

lemma deliver_refused:
  assumes "off + length d < 2 ^ 64" and "is_reset s \<or> \<not> acceptable off (length d) fin s"
  shows "deliver off d fin s = (is_reset s, s)"
  using assms by (auto simp: deliver_def is_reset_def acceptable_def Let_def split: option.split)

section \<open>The receive invariant\<close>

definition recv_inv :: "(nat \<Rightarrow> byte) \<Rightarrow> stream \<Rightarrow> bool" where
  "recv_inv src s \<longleftrightarrow> chunks_inv src (st_recv_read_offset s) (st_recv_chunks s)
     \<and> covered (st_recv_chunks s) \<subseteq> {..<st_recv_high_water s}
     \<and> st_recv_read_offset s \<le> st_recv_high_water s \<and> st_recv_high_water s \<le> st_recv_limit s"

text \<open>All offsets received so far: read ones and buffered ones.\<close>

definition have_bytes :: "stream \<Rightarrow> nat set" where
  "have_bytes s = {..<st_recv_read_offset s} \<union> covered (st_recv_chunks s)"

lemma recv_inv_init: "recv_inv src (stream_init i r t)"
  by (simp add: recv_inv_def stream_init_def)

lemma fresh_part_seg:
  assumes "d = seg src off (off + length d)"
  shows "fresh_part off d s = seg src (put_offset off s) (off + length d)"
    and "fresh_part off d s \<noteq> [] \<Longrightarrow> put_offset off s + length (fresh_part off d s) = off + length d"
proof -
  show "fresh_part off d s = seg src (put_offset off s) (off + length d)"
    using arg_cong [OF assms, of "drop (st_recv_read_offset s - off)"]
    by (simp add: fresh_part_def put_offset_def max_def)
  then show "fresh_part off d s \<noteq> [] \<Longrightarrow>
      put_offset off s + length (fresh_part off d s) = off + length d" by simp
qed

lemma deliver_bytes:
  assumes inv: "recv_inv src s" and d: "d = seg src off (off + length d)"
    and acc: "\<not> is_reset s" "off + length d < 2 ^ 64" "acceptable off (length d) fin s"
  shows "recv_inv src (snd (deliver off d fin s))"
    and "have_bytes s \<subseteq> have_bytes (snd (deliver off d fin s))"
    and "have_bytes (snd (deliver off d fin s)) \<subseteq> have_bytes s \<union> {off..<off + length d}"
    and "\<not> collides (put_offset off s) (fresh_part off d s) (st_recv_chunks s) \<Longrightarrow>
      have_bytes (snd (deliver off d fin s)) = have_bytes s \<union> {off..<off + length d}"
proof -
  let ?s' = "snd (deliver off d fin s)" and ?r = "st_recv_read_offset s"
  note s' = deliver_accepted [OF acc]
  have lim: "off + length d \<le> st_recv_limit s" using acc(3) by (simp add: acceptable_def)
  have "inserted src ?r (put_offset off s) (fresh_part off d s) (st_recv_chunks s)
      (st_recv_chunks ?s')"
  proof (cases "fresh_part off d s = []")
    case True
    then show ?thesis using inv by (simp add: s'(2) inserted_def recv_inv_def)
  next
    case False
    have "fresh_part off d s =
        seg src (put_offset off s) (put_offset off s + length (fresh_part off d s))"
      using fresh_part_seg [OF d, of s] False by simp
    from insert_chunk_spec [OF _ False this, of ?r "st_recv_chunks s"] inv False
    show ?thesis by (simp add: s'(2) recv_inv_def put_offset_def)
  qed
  moreover have new: "{put_offset off s..<put_offset off s + length (fresh_part off d s)} =
      {off..<off + length d} - {..<?r}"
    unfolding fresh_part_seg(1) [OF d, of s] by (auto simp: put_offset_def)
  ultimately have ins: "chunks_inv src ?r (st_recv_chunks ?s')"
    "covered (st_recv_chunks s) \<subseteq> covered (st_recv_chunks ?s')"
    "covered (st_recv_chunks ?s') \<subseteq> covered (st_recv_chunks s) \<union> ({off..<off + length d} - {..<?r})"
    "\<not> collides (put_offset off s) (fresh_part off d s) (st_recv_chunks s) \<longrightarrow>
      {off..<off + length d} - {..<?r} \<subseteq> covered (st_recv_chunks ?s')"
    unfolding inserted_def new by blast+
  have "covered (st_recv_chunks s) \<subseteq> {..<st_recv_high_water s}"
    using inv by (simp add: recv_inv_def)
  with ins(3) have "covered (st_recv_chunks ?s') \<subseteq> {..<max (st_recv_high_water s) (off + length d)}"
    by fastforce
  then show "recv_inv src ?s'" using ins(1) inv lim by (auto simp: recv_inv_def s'(3-5))
  show "have_bytes s \<subseteq> have_bytes ?s'" using ins(2) by (auto simp: have_bytes_def s'(3))
  show sub: "have_bytes ?s' \<subseteq> have_bytes s \<union> {off..<off + length d}"
    using ins(3) by (auto simp: have_bytes_def s'(3))
  show "have_bytes ?s' = have_bytes s \<union> {off..<off + length d}"
    if "\<not> collides (put_offset off s) (fresh_part off d s) (st_recv_chunks s)"
    using sub ins(2,4) that by (fastforce simp: have_bytes_def s'(3))
qed

section \<open>Reading\<close>

text \<open>
  One read returns the peer's bytes from the cursor to the first missing offset, and leaves the
  cursor there.
\<close>

definition read_through :: "(nat \<Rightarrow> byte) \<Rightarrow> stream \<Rightarrow> bytes \<Rightarrow> bool \<Rightarrow> stream \<Rightarrow> bool" where
  "read_through src s bs fin s' \<longleftrightarrow>
     bs = seg src (st_recv_read_offset s) (st_recv_read_offset s') \<and>
     st_recv_read_offset s \<le> st_recv_read_offset s' \<and> recv_inv src s' \<and>
     have_bytes s' = have_bytes s \<and> st_recv_read_offset s' \<notin> have_bytes s' \<and>
     (fin \<longleftrightarrow> st_recv_final_size s = Some (st_recv_read_offset s') \<and>
       (st_recv_chunks s = [] \<or> st_recv_read_offset s < st_recv_read_offset s'))"

lemma read_first_chunk:
  assumes inv: "recv_inv src s" and cs: "st_recv_chunks s = (st_recv_read_offset s, v) # others"
    and r: "read_contiguous s = (bs, fin, s')"
  shows "read_through src s bs fin s'"
proof -
  let ?k = "st_recv_read_offset s"
  from inv cs have v: "v \<noteq> []" "v = seg src ?k (?k + length v)"
    and o: "chunks_inv src (?k + length v + 1) others"
    and hi: "{?k..<?k + length v} \<union> covered others \<subseteq> {..<st_recv_high_water s}"
      "st_recv_high_water s \<le> st_recv_limit s"
    by (simp_all add: recv_inv_def chunk_ok_def)
  from r cs have bs: "bs = v" "st_recv_read_offset s' = ?k + length v"
    "st_recv_chunks s' = others" "st_recv_high_water s' = st_recv_high_water s"
    "st_recv_limit s' = st_recv_limit s" "fin = (st_recv_final_size s = Some (?k + length v))"
    by (auto simp: read_contiguous_def Let_def split: if_splits)
  have above: "?k + length v < x" if "x \<in> covered others" for x
    using chunks_inv_covered [OF o that] by simp
  have "?k + length v - 1 \<in> {?k..<?k + length v}" using v(1) by (cases v) auto
  with hi(1) have "?k + length v \<le> st_recv_high_water s" by (force simp: subset_iff)
  then have "recv_inv src s'"
    using o hi chunks_inv_mono [of src "?k + length v + 1" others "?k + length v"]
    by (simp add: recv_inv_def bs)
  moreover have "have_bytes s' = have_bytes s" using cs by (auto simp: have_bytes_def bs)
  moreover have "?k + length v \<notin> have_bytes s'" using above by (auto simp: have_bytes_def bs)
  ultimately show ?thesis using v cs by (simp add: read_through_def bs)
qed

lemma read_contiguous_through:
  assumes inv: "recv_inv src s" and r: "read_contiguous s = (bs, fin, s')"
  shows "read_through src s bs fin s'"
proof (cases "st_recv_chunks s")
  case Nil
  with r inv show ?thesis
    by (auto simp: read_contiguous_def recv_inv_def have_bytes_def read_through_def split: if_splits)
next
  case (Cons c others)
  obtain k v where c: "c = (k, v)" by (cases c)
  from inv Cons c have k: "st_recv_read_offset s \<le> k"
    and o: "chunks_inv src (k + length v + 1) others"
    by (simp_all add: recv_inv_def)
  show ?thesis
  proof (cases "k = st_recv_read_offset s")
    case True
    with Cons c inv r show ?thesis by (intro read_first_chunk) simp_all
  next
    case False
    with r Cons c have "bs = []" "s' = s" "\<not> fin" by (auto simp: read_contiguous_def)
    moreover have "st_recv_read_offset s \<notin> have_bytes s"
      using False k Cons c chunks_inv_covered [OF o] by (force simp: have_bytes_def)
    ultimately show ?thesis using inv Cons by (simp add: read_through_def)
  qed
qed

lemma reset_recvd_inv: "recv_inv src s \<Longrightarrow> recv_inv src (snd (reset_recvd final e s))"
  by (auto simp: reset_recvd_def recv_inv_def split: option.split)

lemma reset_recvd_read [simp]:
  "st_recv_read_offset (snd (reset_recvd final e s)) = st_recv_read_offset s"
  by (auto simp: reset_recvd_def split: option.split)

lemma set_recv_limit_inv:
  "recv_inv src s \<Longrightarrow> recv_inv src (snd (set_recv_limit n s)) \<and>
     st_recv_read_offset (snd (set_recv_limit n s)) = st_recv_read_offset s"
  by (auto simp: set_recv_limit_def recv_inv_def)

section \<open>The reassembler\<close>

lemma deliver_inv:
  assumes "recv_inv src s" and "genuine src off d"
  shows "recv_inv src (snd (deliver off d fin s)) \<and>
    st_recv_read_offset (snd (deliver off d fin s)) = st_recv_read_offset s"
proof (cases "\<not> is_reset s \<and> acceptable off (length d) fin s")
  case True
  then show ?thesis
    using assms deliver_bytes(1) [of src s d off fin] deliver_accepted(3) [of s off d fin]
    by (simp add: genuine_def)
next
  case False
  then show ?thesis using assms deliver_refused [of off d s fin] by (auto simp: genuine_def)
qed

datatype recv_control = ResetStream nat nat | RaiseLimit nat

fun recv_ctl :: "recv_control \<Rightarrow> stream \<Rightarrow> stream" where
  "recv_ctl (ResetStream final e) s = snd (reset_recvd final e s)"
| "recv_ctl (RaiseLimit n) s = snd (set_recv_limit n s)"

definition recv_put :: "nat \<Rightarrow> bytes \<Rightarrow> bool \<Rightarrow> stream \<Rightarrow> stream" where
  "recv_put off d fin s = snd (deliver off d fin s)"

definition recv_get :: "stream \<Rightarrow> bytes \<times> stream" where
  "recv_get s = (let (bs, fin, s') = read_contiguous s in (bs, s'))"

interpretation reasm: reassembler recv_inv st_recv_read_offset recv_put recv_get recv_ctl
proof
  fix src s off d p
  assume "recv_inv src s" "genuine src off d"
  then show "recv_inv src (recv_put off d p s) \<and>
      st_recv_read_offset (recv_put off d p s) = st_recv_read_offset s"
    by (simp add: recv_put_def deliver_inv)
next
  fix src s bs s'
  assume s: "recv_inv src s" "recv_get s = (bs, s')"
  then obtain fin where "read_contiguous s = (bs, fin, s')"
    by (auto simp: recv_get_def split: prod.splits)
  from read_contiguous_through [OF s(1) this]
  show "recv_inv src s' \<and> st_recv_read_offset s \<le> st_recv_read_offset s' \<and>
      bs = seg src (st_recv_read_offset s) (st_recv_read_offset s')"
    by (simp add: read_through_def)
next
  fix src s x
  assume "recv_inv src s"
  then show "recv_inv src (recv_ctl x s) \<and>
      st_recv_read_offset (recv_ctl x s) = st_recv_read_offset s"
    by (cases x) (simp_all add: reset_recvd_inv set_recv_limit_inv)
qed

text \<open>A run of the receive side, with the bytes handed to the application.\<close>

fun recv_step :: "(bool, recv_control) reassembly_op \<Rightarrow> stream \<times> bytes \<Rightarrow> stream \<times> bytes" where
  "recv_step (Put off d fin) (s, out) = (snd (deliver off d fin s), out)"
| "recv_step Get (s, out) = (let (bs, fin, s') = read_contiguous s in (s', out @ bs))"
| "recv_step (Ctl (ResetStream final e)) (s, out) = (snd (reset_recvd final e s), out)"
| "recv_step (Ctl (RaiseLimit n)) (s, out) = (snd (set_recv_limit n s), out)"

definition genuine_events :: "(nat \<Rightarrow> byte) \<Rightarrow> (bool, recv_control) reassembly_op list \<Rightarrow> bool" where
  "genuine_events src es \<longleftrightarrow> (\<forall>off d fin. Put off d fin \<in> set es \<longrightarrow> genuine src off d)"

lemma recv_step_reasm: "recv_step = reasm.step"
proof (rule ext)+
  fix e and x :: "stream \<times> bytes"
  show "recv_step e x = reasm.step e x"
    by (cases "(e, x)" rule: recv_step.cases)
      (simp_all add: recv_put_def recv_get_def Let_def split: prod.split)
qed

lemma genuine_events_reasm:
  assumes "genuine_events src es"
  shows "list_all (reasm.genuine_op src) es"
  unfolding list_all_iff
proof
  fix e
  assume "e \<in> set es"
  with assms show "reasm.genuine_op src e" by (cases e) (auto simp: genuine_events_def)
qed

lemma absorb_gap: "chunks_asc (k + length v + 1) rest \<Longrightarrow> absorb k v rest = (v, rest)"
  by (cases rest) auto

lemma next_lo_ge: "chunks_inv src m ys \<Longrightarrow> m \<le> next_lo m ys"
  by (induction ys arbitrary: m) (fastforce simp: next_lo_def chunk_end_def)+

lemma covered_below_next:
  "chunks_inv src m cs \<Longrightarrow> x \<in> covered cs \<Longrightarrow> x < next_lo m cs"
proof (induction cs arbitrary: m)
  case (Cons c cs)
  then have "chunks_inv src (chunk_end c + 1) cs"
    "next_lo m (c # cs) = next_lo (chunk_end c + 1) cs"
    by (auto simp: next_lo_def)
  with Cons.IH [OF this(1)] Cons.prems(2) next_lo_ge [OF this(1)] show ?case
    by (auto simp: chunk_set_def)
qed simp

lemma chunks_inv_key_unique:
  assumes "chunks_inv src lo cs" and "(off, v) \<in> set cs"
  shows "\<exists>before rest. cs = before @ (off, v) # rest \<and> takeWhile (\<lambda>c. fst c < off) cs = before
    \<and> (before = [] \<or> chunk_end (last before) < off)"
proof -
  obtain before rest where cs: "cs = before @ (off, v) # rest" using assms(2) by (meson split_list)
  with assms(1) have b: "chunks_inv src lo before" "next_lo lo before \<le> off"
    by (simp_all add: chunks_inv_append)
  have below: "fst c < off" if c: "c \<in> set before" for c
  proof -
    obtain xs ys where s: "before = xs @ c # ys" using c by (meson split_list)
    then have "chunks_inv src (chunk_end c + 1) ys" "next_lo lo before = next_lo (chunk_end c + 1) ys"
      using b(1) by (auto simp: chunks_inv_append next_lo_def)
    then show ?thesis using b(2) chunk_end_ge [of c] next_lo_ge [of src "chunk_end c + 1" ys] by linarith
  qed
  then have "takeWhile (\<lambda>c. fst c < off) cs = before"
    unfolding cs by (subst takeWhile_append2) auto
  moreover have "before = [] \<or> chunk_end (last before) < off"
    using b(2) by (auto simp: next_lo_def split: if_splits)
  ultimately show ?thesis using cs by blast
qed

lemma insert_at_existing_key:
  assumes "chunks_inv src lo cs" and "(off, v) \<in> set cs"
  shows "insert_chunk off d cs = cs"
proof -
  obtain before rest where cs: "cs = before @ (off, v) # rest"
    and tw: "takeWhile (\<lambda>c. fst c < off) cs = before"
    and gap: "before = [] \<or> chunk_end (last before) < off"
    using chunks_inv_key_unique [OF assms] by blast
  have dw: "dropWhile (\<lambda>c. fst c < off) cs = (off, v) # rest"
    using tw cs by (metis same_append_eq takeWhile_dropWhile_id)
  have "absorb off v rest = (v, rest)"
    using assms(1) cs by (intro absorb_gap) (auto simp: chunks_inv_def chunks_asc_append)
  then have "insert_chunk off d cs = before @ (off, v) # rest"
    using gap by (auto simp: insert_chunk_def tw dw Let_def grow_chunk_def)
  then show ?thesis using cs by simp
qed

section \<open>Properties\<close>

lemmas recv_eval = deliver_def read_contiguous_def reset_recvd_def set_recv_limit_def
  stream_init_def recv_transition_def insert_chunk_def grow_chunk_def chunk_end_def Let_def

text \<open>C9. Whatever segments of the peer's stream arrive, in any order, repeated and overlapping, mixed
  with reads, resets and window updates: the bytes handed to the application are exactly the peer's
  bytes from offset 0 to the read cursor, and the highest offset seen never exceeds the advertised
  limit.\<close>

theorem stream_reassembly:
  assumes "genuine_events src es"
    and "fold recv_step es (stream_init i max_recv max_send, []) = (s, out)"
  shows "out = map src [0..<st_recv_read_offset s] \<and> st_recv_high_water s \<le> st_recv_limit s"
proof -
  have "fold reasm.step es (stream_init i max_recv max_send, []) = (s, out)"
    using assms(2) by (simp only: recv_step_reasm)
  moreover have "[] = seg src 0 (st_recv_read_offset (stream_init i max_recv max_send))"
    by (simp add: stream_init_def)
  ultimately have "recv_inv src s \<and> out = seg src 0 (st_recv_read_offset s)"
    using reasm.run_prefix [OF recv_inv_init _ _ genuine_events_reasm [OF assms(1)]] by blast
  then show ?thesis by (simp add: seg_def recv_inv_def)
qed

theorem stream_reassembly_witness:
  "snd (fold recv_step [Put 2 [2, 3] False, Put 0 [0, 1, 2] False, Get, Put 3 [3, 4] True, Get]
     (stream_init 0 100 100, [])) = [0, 1, 2, 3, 4]"
proof -
  let ?es = "[Put 2 [2, 3] False, Put 0 [0, 1, 2] False, Get, Put 3 [3, 4] True, Get]"
  let ?r = "fold recv_step ?es (stream_init 0 100 100, [])"
  have "genuine_events of_nat ?es"
    by (auto simp: genuine_events_def genuine_def seg_def upt_rec)
  moreover have "st_recv_read_offset (fst ?r) = 5" by (simp add: recv_eval)
  ultimately show ?thesis
    using stream_reassembly [of of_nat ?es 0 100 100 "fst ?r" "snd ?r"] by (simp add: upt_rec)
qed

text \<open>C27. An accepted segment keeps the buffer well-formed and loses nothing that was there. Its offsets
  are all present afterwards, unless a shorter chunk starts exactly where the segment is stored.\<close>

theorem deliver_coverage:
  assumes "recv_inv src s" and "genuine src off d" and "\<not> is_reset s"
    and "acceptable off (length d) fin s" and "deliver off d fin s = (ok, s')"
  shows "ok \<and> recv_inv src s' \<and> have_bytes s \<subseteq> have_bytes s' \<and>
    have_bytes s' \<subseteq> have_bytes s \<union> {off..<off + length d} \<and>
    (\<not> collides (put_offset off s) (fresh_part off d s) (st_recv_chunks s) \<longrightarrow>
      have_bytes s' = have_bytes s \<union> {off..<off + length d})"
proof -
  have "d = seg src off (off + length d)" "off + length d < 2 ^ 64"
    using assms(2) by (simp_all add: genuine_def)
  note b = deliver_bytes [OF assms(1) this(1) assms(3) this(2) assms(4)]
    deliver_accepted(1) [OF assms(3) this(2) assms(4)]
  show ?thesis using b unfolding assms(5) by simp
qed

theorem deliver_coverage_witness:
  "have_bytes (snd (deliver 1 [1, 2, 3] False (snd (deliver 3 [3, 4] False (stream_init 0 9 9)))))
     = {1..<5}"
proof -
  let ?s = "snd (deliver 3 [3, 4] False (stream_init 0 9 9))"
  have s: "st_recv_chunks ?s = [(3, [3, 4])]" "st_recv_read_offset ?s = 0" "\<not> is_reset ?s"
    "st_recv_limit ?s = 9" "st_recv_final_size ?s = None" "st_recv_high_water ?s = 5"
    by (simp_all add: recv_eval is_reset_def)
  have "recv_inv of_nat ?s"
    by (auto simp: recv_inv_def s chunk_ok_def seg_def upt_rec chunk_set_def)
  moreover have "genuine of_nat 1 [1, 2, 3 :: byte]" by (simp add: genuine_def seg_def upt_rec)
  moreover have "acceptable 1 (length [1, 2, 3 :: byte]) False ?s" by (simp add: acceptable_def s)
  moreover have "\<not> collides (put_offset 1 ?s) (fresh_part 1 [1, 2, 3] ?s) (st_recv_chunks ?s)"
    by (simp add: collides_def put_offset_def s)
  ultimately have "have_bytes (snd (deliver 1 [1, 2, 3] False ?s)) =
      have_bytes ?s \<union> {1..<1 + length [1, 2, 3 :: byte]}"
    using deliver_coverage [OF _ _ s(3) _ prod.collapse [symmetric]] by blast
  also have "\<dots> = {1..<5}" unfolding have_bytes_def s by auto
  finally show ?thesis .
qed

text \<open>A read returns everything that is contiguous: if all offsets below \<open>n\<close> have arrived, the cursor
  is at or beyond \<open>n\<close> afterwards, at the first missing offset; when these are all the bytes and \<open>n\<close> is
  the final size, the FIN is reported.\<close>

theorem read_drains_contiguous:
  assumes "recv_inv src s" and "{..<n} \<subseteq> have_bytes s" and "read_contiguous s = (bs, fin, s')"
  shows "bs = map src [st_recv_read_offset s..<st_recv_read_offset s'] \<and> n \<le> st_recv_read_offset s'
    \<and> {..<st_recv_read_offset s'} \<subseteq> have_bytes s \<and> st_recv_read_offset s' \<notin> have_bytes s
    \<and> (st_recv_final_size s = Some n \<and> have_bytes s = {..<n} \<longrightarrow> fin)"
proof -
  note t = read_contiguous_through [OF assms(1,3), unfolded read_through_def]
  have "n \<le> st_recv_read_offset s'"
    using t assms(2) by (metis lessThan_iff not_le subset_iff)
  moreover have sub: "{..<st_recv_read_offset s'} \<subseteq> have_bytes s"
    using t by (metis UnI1 have_bytes_def subsetI)
  moreover have "st_recv_final_size s = Some n \<and> have_bytes s = {..<n} \<longrightarrow> fin"
  proof safe
    assume that: "st_recv_final_size s = Some n" "have_bytes s = {..<n}"
    have "st_recv_read_offset s' = n"
      using that(2) sub \<open>n \<le> st_recv_read_offset s'\<close> by auto
    moreover have "st_recv_chunks s = [] \<or> st_recv_read_offset s < n"
    proof (cases "st_recv_chunks s")
      case (Cons c cs)
      with assms(1) have "st_recv_read_offset s \<le> fst c" "fst c < chunk_end c"
        by (simp_all add: recv_inv_def chunk_ok_def chunk_end_def)
      then have "fst c \<in> have_bytes s" using Cons by (simp add: have_bytes_def chunk_set_def)
      then show ?thesis using that(2) \<open>st_recv_read_offset s \<le> fst c\<close> by auto
    qed simp
    ultimately show fin using t that(1) by simp
  qed
  ultimately show ?thesis using t unfolding seg_def by blast
qed

theorem read_drains_contiguous_witness:
  "fst (snd (read_contiguous (snd (deliver 0 [0, 1] True (stream_init 0 9 9)))))"
proof -
  let ?s = "snd (deliver 0 [0, 1] True (stream_init 0 9 9))"
  have s: "st_recv_chunks ?s = [(0, [0, 1])]" "st_recv_read_offset ?s = 0" "st_recv_limit ?s = 9"
    "st_recv_final_size ?s = Some 2" "st_recv_high_water ?s = 2"
    by (simp_all add: recv_eval)
  have inv: "recv_inv of_nat ?s"
    by (auto simp: recv_inv_def s chunk_ok_def seg_def upt_rec chunk_set_def)
  have have2: "have_bytes ?s = {..<2}" unfolding have_bytes_def s by auto
  obtain bs fin s' where r: "read_contiguous ?s = (bs, fin, s')" by (cases "read_contiguous ?s")
  from read_drains_contiguous [OF inv _ r, of 2] have2 s(4) r show ?thesis by simp
qed

text \<open>The decision of \<open>deliver\<close>: a segment is refused exactly when it passes the flow-control limit or
  contradicts a known final size, and a refused segment changes nothing; on a reset stream everything
  is accepted and ignored.\<close>

theorem deliver_decision:
  assumes "off + length d < 2 ^ 64"
  shows "(fst (deliver off d fin s) \<longleftrightarrow>
      st_recv_state s \<in> {ResetRecvd, ResetRead} \<or>
      (off + length d \<le> st_recv_limit s \<and>
       (\<forall>f \<in> set_option (st_recv_final_size s). off + length d \<le> f \<and> (fin \<longrightarrow> off + length d = f))))
    \<and> (\<not> fst (deliver off d fin s) \<or> st_recv_state s \<in> {ResetRecvd, ResetRead} \<longrightarrow>
      snd (deliver off d fin s) = s)"
proof -
  have reset: "st_recv_state s \<in> {ResetRecvd, ResetRead} \<longleftrightarrow> is_reset s" by (simp add: is_reset_def)
  have acc: "off + length d \<le> st_recv_limit s \<and>
      (\<forall>f \<in> set_option (st_recv_final_size s). off + length d \<le> f \<and> (fin \<longrightarrow> off + length d = f))
    \<longleftrightarrow> acceptable off (length d) fin s"
    by (auto simp: acceptable_def)
  show ?thesis
    unfolding reset acc
    using deliver_accepted(1) [OF _ assms, of s fin] deliver_refused [OF assms, of s fin]
    by (cases "is_reset s"; cases "acceptable off (length d) fin s") simp_all
qed

theorem deliver_decision_witness:
  "\<not> fst (deliver 8 [1, 2] False (stream_init 0 9 9)) \<and>
   snd (deliver 8 [1, 2] False (stream_init 0 9 9)) = stream_init 0 9 9"
proof -
  have l: "8 + length [1, 2 :: byte] < 2 ^ 64" by simp
  have "\<not> fst (deliver 8 [1, 2] False (stream_init 0 9 9))"
    using deliver_decision [OF l, of False "stream_init 0 9 9"] by (simp add: stream_init_def)
  then show ?thesis using deliver_decision [OF l, of False "stream_init 0 9 9"] by blast
qed

text \<open>C32. A retransmission that is cut differently can be lost: if a chunk starts at the offset of the
  segment, is shorter, and has not been read yet, \<open>deliver\<close> reports success but leaves the buffer as
  it was, since \<open>emplace\<close> does not replace the chunk it finds. The extra bytes are gone although the
  packet that carried them will be acknowledged.\<close>

theorem deliver_drops_longer_segment:
  assumes "recv_inv src s" and "(off, v) \<in> set (st_recv_chunks s)" and "length v < length d"
    and "\<not> is_reset s" and "off + length d < 2 ^ 64" and "acceptable off (length d) fin s"
  shows "fst (deliver off d fin s)
    \<and> st_recv_chunks (snd (deliver off d fin s)) = st_recv_chunks s
    \<and> off + length v < off + length d \<and> off + length v \<notin> have_bytes (snd (deliver off d fin s))"
proof -
  let ?s' = "snd (deliver off d fin s)"
  note s' = deliver_accepted [OF assms(4-6)]
  have cs: "chunks_inv src (st_recv_read_offset s) (st_recv_chunks s)"
    using assms(1) by (simp add: recv_inv_def)
  obtain before rest where split: "st_recv_chunks s = before @ (off, v) # rest"
    and tw: "takeWhile (\<lambda>c. fst c < off) (st_recv_chunks s) = before"
    using chunks_inv_key_unique [OF cs assms(2)] by blast
  have parts: "chunks_inv src (st_recv_read_offset s) before"
    "next_lo (st_recv_read_offset s) before \<le> off" "chunks_inv src (off + length v + 1) rest"
    using cs unfolding split by (simp_all add: chunks_inv_append)
  have off: "st_recv_read_offset s \<le> off"
    using next_lo_ge [OF parts(1)] parts(2) by linarith
  then have put: "put_offset off s = off" "fresh_part off d s = d"
    by (simp_all add: put_offset_def fresh_part_def)
  have same: "st_recv_chunks ?s' = st_recv_chunks s"
    using s'(2) insert_at_existing_key [OF cs assms(2)] by (simp add: put)
  have "x < off" if "x \<in> covered before" for x
    using covered_below_next [OF parts(1) that] parts(2) by linarith
  moreover have "off + length v < x" if "x \<in> covered rest" for x
    using chunks_inv_covered [OF parts(3) that] by simp
  moreover have "0 < length v" using cs unfolding split by (simp add: chunks_inv_append chunk_ok_def)
  ultimately have "off + length v \<notin> covered (st_recv_chunks s)" unfolding split by fastforce
  then show ?thesis
    using s'(1) same assms(3) off by (simp add: have_bytes_def s'(3))
qed

theorem deliver_drops_longer_segment_witness:
  "st_recv_chunks (snd (deliver 2 [2, 3, 4, 5] True (snd (deliver 2 [2, 3] False
     (stream_init 0 9 9))))) = [(2, [2, 3])]"
proof -
  let ?s = "snd (deliver 2 [2, 3] False (stream_init 0 9 9))"
  have s: "st_recv_chunks ?s = [(2, [2, 3])]" "st_recv_read_offset ?s = 0" "st_recv_limit ?s = 9"
    "st_recv_final_size ?s = None" "st_recv_high_water ?s = 4" "\<not> is_reset ?s"
    by (simp_all add: recv_eval is_reset_def)
  have "recv_inv of_nat ?s"
    by (auto simp: recv_inv_def s chunk_ok_def seg_def upt_rec chunk_set_def)
  moreover have "acceptable 2 (length [2, 3, 4, 5 :: byte]) True ?s" by (simp add: acceptable_def s)
  ultimately show ?thesis
    using deliver_drops_longer_segment [of of_nat ?s 2 "[2, 3]" "[2, 3, 4, 5]" True] s by simp
qed

text \<open>C33. A FIN below data that has already arrived is accepted and recorded as the final size, although
  the peer has then sent bytes beyond it (RFC 9000 section 4.5 asks for FINAL_SIZE_ERROR).\<close>

theorem fin_below_received_accepted:
  assumes "\<not> is_reset s" and "st_recv_final_size s = None"
    and "off + length d < st_recv_high_water s" and "st_recv_high_water s \<le> st_recv_limit s"
    and "st_recv_limit s < 2 ^ 64"
  shows "fst (deliver off d True s) \<and>
    (\<exists>f. st_recv_final_size (snd (deliver off d True s)) = Some f \<and>
      f < st_recv_high_water (snd (deliver off d True s)))"
proof -
  have "acceptable off (length d) True s" using assms by (simp add: acceptable_def)
  from deliver_accepted [OF assms(1) _ this] assms(3-5) show ?thesis by simp
qed

theorem fin_below_received_accepted_witness:
  "fst (deliver 1 [7] True (snd (deliver 0 [5, 6, 7, 8] False (stream_init 0 9 9))))"
proof -
  let ?s = "snd (deliver 0 [5, 6, 7, 8] False (stream_init 0 9 9))"
  have s: "st_recv_limit ?s = 9" "st_recv_final_size ?s = None" "st_recv_high_water ?s = 4"
    "\<not> is_reset ?s"
    by (simp_all add: recv_eval is_reset_def)
  show ?thesis using fin_below_received_accepted [OF s(4,2), of 1 "[7]"] by (simp add: s)
qed

end
