(* ===== verification/ConnFlow.thy ===== *)
theory ConnFlow
  imports ConnInv StreamRecv
begin

text \<open>
  Flow control of a connection in both directions. On the receive side the connection's running total
  is the sum of the streams' high-water marks, it never exceeds the limit that was advertised, and no
  stream exceeds its own limit. On the send side the bytes sent for the first time stay within the
  peer's limit. Both are invariants of every run, by interpretation of the locales of \<open>ConnInv\<close>.
\<close>

section \<open>One stream's receive window\<close>

definition stream_window :: "nat \<Rightarrow> stream \<Rightarrow> bool" where
  "stream_window limit st \<longleftrightarrow> st_recv_limit st = limit
     \<and> st_recv_read_offset st \<le> st_recv_high_water st \<and> st_recv_high_water st \<le> limit
     \<and> (\<forall>c \<in> set (st_recv_chunks st). chunk_end c \<le> st_recv_high_water st)"

lemma absorb_ends:
  assumes "absorb k v cs = (v', cs')" and "k + length v \<le> h" and "\<forall>c \<in> set cs. chunk_end c \<le> h"
  shows "k + length v' \<le> h \<and> set cs' \<subseteq> set cs"
  using assms
proof (induction k v cs rule: absorb.induct)
  case (2 k v k2 v2 rest)
  show ?case
  proof (cases "k2 \<le> k + length v")
    case True
    let ?w = "if k2 + length v2 > k + length v
      then v @ drop (length v2 - (k2 + length v2 - (k + length v))) v2 else v"
    have "k + length ?w \<le> h" using "2.prems" True by (auto simp: chunk_end_def)
    moreover have "absorb k ?w rest = (v', cs')" using "2.prems"(1) True by (simp add: Let_def)
    ultimately show ?thesis
      using "2.IH" [OF True refl refl] "2.prems"(3) True by (simp add: Let_def subset_insertI2)
  qed (use "2.prems" in auto)
qed auto

lemma grow_chunk_ends:
  assumes "\<forall>c \<in> set bf. chunk_end c \<le> h" and "k + length v \<le> h" and "\<forall>c \<in> set rest. chunk_end c \<le> h"
  shows "\<forall>c \<in> set (grow_chunk bf k v rest). chunk_end c \<le> h"
proof -
  obtain v' cs' where a: "absorb k v rest = (v', cs')" by fastforce
  then show ?thesis
    using absorb_ends [OF a assms(2,3)] assms by (auto simp: grow_chunk_def chunk_end_def)
qed

lemma insert_chunk_ends:
  assumes "\<forall>c \<in> set cs. chunk_end c \<le> h" and "off + length d \<le> h"
  shows "\<forall>c \<in> set (insert_chunk off d cs). chunk_end c \<le> h"
proof -
  let ?bf = "takeWhile (\<lambda>c. fst c < off) cs" and ?rest = "dropWhile (\<lambda>c. fst c < off) cs"
  have bf: "\<forall>c \<in> set ?bf. chunk_end c \<le> h" using assms(1) by (meson set_takeWhileD)
  have rest: "\<forall>c \<in> set ?rest. chunk_end c \<le> h" using assms(1) by (meson set_dropWhileD)
  show ?thesis
  proof (cases "?bf \<noteq> [] \<and> chunk_end (last ?bf) \<ge> off")
    case True
    let ?p = "last ?bf"
    have "fst ?p + length (snd ?p @ drop (chunk_end ?p - off) d) \<le> h"
      if "\<not> chunk_end ?p \<ge> off + length d"
      using that True assms(2) by (auto simp: chunk_end_def)
    moreover have "\<forall>c \<in> set (butlast ?bf). chunk_end c \<le> h" using bf by (meson in_set_butlastD)
    ultimately show ?thesis
      using True assms(1) rest
        grow_chunk_ends [of "butlast ?bf" h "fst ?p" "snd ?p @ drop (chunk_end ?p - off) d" ?rest]
      by (auto simp: insert_chunk_def Let_def)
  next
    case False
    show ?thesis
    proof (cases "?rest \<noteq> [] \<and> fst (hd ?rest) = off")
      case True
      then have "chunk_end (hd ?rest) \<le> h" and "\<forall>c \<in> set (tl ?rest). chunk_end c \<le> h"
        using rest by (cases ?rest, auto)+
      with True False show ?thesis
        using grow_chunk_ends [of ?bf h off "snd (hd ?rest)" "tl ?rest"] bf
        by (auto simp: insert_chunk_def Let_def chunk_end_def)
    next
      case False2: False
      show ?thesis using False False2 grow_chunk_ends [OF bf assms(2) rest]
        by (auto simp: insert_chunk_def Let_def)
    qed
  qed
qed

lemma recv_transition_next [simp]: "st_send_next_offset (recv_transition st) = st_send_next_offset st"
  by (simp add: recv_transition_def Let_def split: option.split list.split)

lemma deliver_next_offset: "st_send_next_offset (snd (deliver off d fin st)) = st_send_next_offset st"
  by (simp add: deliver_def Let_def split: prod.split)

lemma deliver_window:
  assumes "stream_window limit st" and "deliver off d fin st = (True, st')"
    and "off + length d < 2 ^ 64"
  shows "stream_window limit st' \<and> st_recv_high_water st \<le> st_recv_high_water st' \<and>
    st_recv_high_water st' \<le> max (st_recv_high_water st) (off + length d)"
proof (cases "is_reset st \<or> \<not> acceptable off (length d) fin st")
  case True
  then show ?thesis using deliver_refused [OF assms(3) True] assms(1,2) by simp
next
  case False
  then have "\<not> is_reset st" and acc: "acceptable off (length d) fin st" by auto
  note st' = deliver_accepted [OF this(1) assms(3) this(2), unfolded assms(2) snd_conv]
  have bound: "put_offset off st + length (fresh_part off d st) \<le> max (st_recv_high_water st) (off + length d)"
    using assms(1) by (auto simp: put_offset_def fresh_part_def stream_window_def)
  have old: "\<forall>c \<in> set (st_recv_chunks st). chunk_end c \<le> max (st_recv_high_water st) (off + length d)"
    using assms(1) by (auto simp: stream_window_def)
  have "\<forall>c \<in> set (st_recv_chunks st'). chunk_end c \<le> st_recv_high_water st'"
    using insert_chunk_ends [OF old bound] old by (simp add: st')
  then show ?thesis using assms(1) acc by (auto simp: st' stream_window_def acceptable_def)
qed

lemma reset_recvd_window:
  assumes "stream_window limit st" and "reset_recvd n e st = (True, st')"
  shows "stream_window limit st' \<and> st_recv_high_water st' = max (st_recv_high_water st) n
    \<and> st_send_next_offset st' = st_send_next_offset st"
  using assms by (auto simp: reset_recvd_def stream_window_def split: if_splits)

lemma read_contiguous_window:
  assumes "stream_window limit st" and "read_contiguous st = (out, fin, st')"
  shows "stream_window limit st' \<and> st_recv_high_water st' = st_recv_high_water st
    \<and> st_send_next_offset st' = st_send_next_offset st"
  using assms
  by (fastforce simp: read_contiguous_def stream_window_def Let_def split: list.splits if_splits)

lemma window_same_window:
  "window_same st st' \<Longrightarrow> stream_window limit st' \<longleftrightarrow> stream_window limit st"
  by (simp add: window_same_def stream_window_def)

section \<open>The receive window of a connection\<close>

text \<open>The limit a stream is created with depends on its identifier and the local parameters only.\<close>

definition own_limit :: "nat \<Rightarrow> transport_params \<Rightarrow> nat" where
  "own_limit i tp =
     (if is_bidi i then (if is_client_initiated i then tp_initial_max_stream_data_bidi_remote tp
                         else tp_initial_max_stream_data_bidi_local tp)
      else if is_client_initiated i then tp_initial_max_stream_data_uni tp else 0)"

lemma stream_limits_own: "fst (stream_limits i s) = own_limit i (cn_local_tp s)"
  by (simp add: stream_limits_def own_limit_def Let_def)

definition recv_flow :: "nat \<Rightarrow> connection \<Rightarrow> bool" where
  "recv_flow w s \<longleftrightarrow> tp_initial_max_data (cn_local_tp s) = w
     \<and> om_wf (cn_streams s)
     \<and> (\<forall>i st. find_stream i s = Some st \<longrightarrow> stream_window (own_limit i (cn_local_tp s)) st)
     \<and> cn_recv_total s = cn_retired_recv_consumed s + om_sum st_recv_high_water (cn_streams s)
     \<and> cn_recv_total s \<le> cn_recv_max_data s"

lemma recv_flow_frame:
  assumes "recv_flow w s" and "cn_local_tp s' = cn_local_tp s" and "cn_streams s' = cn_streams s"
    and "cn_recv_total s' = cn_recv_total s" and "cn_retired_recv_consumed s' = cn_retired_recv_consumed s"
    and "cn_recv_max_data s \<le> cn_recv_max_data s'"
  shows "recv_flow w s'"
  using assms by (simp add: recv_flow_def find_stream_def)

lemma recv_flow_new:
  assumes "recv_flow w s" and "find_stream i s = None"
  shows "recv_flow w (put_stream i (stream_init i (own_limit i (cn_local_tp s)) n) s)"
  using assms
  by (auto simp: recv_flow_def find_stream_def put_stream_def om_wf_set om_sum_insert stream_window_def
      stream_init_def)

lemma recv_flow_ensure:
  assumes "recv_flow w s" and "ensure_stream i s = (st, s')"
  shows "recv_flow w s' \<and> find_stream i s' = Some st \<and> cn_recv_total s' = cn_recv_total s
    \<and> cn_recv_max_data s' = cn_recv_max_data s"
proof (cases "find_stream i s")
  case None
  let ?n = "snd (stream_limits i s)"
  have "st = stream_init i (own_limit i (cn_local_tp s)) ?n" and "s' = put_stream i st s"
    using assms(2) None by (auto simp: ensure_stream_def split_beta stream_limits_own Let_def)
  then show ?thesis using recv_flow_new [OF assms(1) None, of ?n] assms(1)
    by (simp add: put_stream_def find_stream_def recv_flow_def)
qed (use assms in \<open>simp add: ensure_stream_def\<close>)

lemma recv_flow_put:
  assumes "recv_flow w s" and "find_stream i s = Some st"
    and "stream_window (own_limit i (cn_local_tp s)) st'"
    and "st_recv_high_water st \<le> st_recv_high_water st'"
    and "cn_recv_total s + (st_recv_high_water st' - st_recv_high_water st) \<le> cn_recv_max_data s"
  shows "recv_flow w ((put_stream i st' s)
    \<lparr>cn_recv_total := cn_recv_total s + (st_recv_high_water st' - st_recv_high_water st)\<rparr>)"
  using assms om_sum_update [of "cn_streams s" i st st_recv_high_water st']
  by (auto simp: recv_flow_def put_stream_def find_stream_def om_wf_set)

lemma recv_flow_put_same:
  assumes "recv_flow w s" and "find_stream i s = Some st"
    and "stream_window (own_limit i (cn_local_tp s)) st'"
    and "st_recv_high_water st' = st_recv_high_water st"
  shows "recv_flow w (put_stream i st' s)"
  using recv_flow_put [OF assms(1-3)] assms(1,4)
  by (auto intro: recv_flow_frame simp: put_stream_def recv_flow_def)

lemma recv_flow_window_same:
  assumes "recv_flow w s" and "find_stream i s = Some st" and "window_same st st'"
  shows "recv_flow w (put_stream i st' s)"
proof (rule recv_flow_put_same [OF assms(1,2)])
  have "stream_window (own_limit i (cn_local_tp s)) st" using assms(1,2) by (simp add: recv_flow_def)
  then show "stream_window (own_limit i (cn_local_tp s)) st'" by (simp add: window_same_window [OF assms(3)])
  show "st_recv_high_water st' = st_recv_high_water st" using assms(3) by (simp add: window_same_def)
qed

text \<open>What the connection charges is what the stream's high-water mark has moved.\<close>

lemma recv_flow_charge:
  assumes "recv_flow w s" and "cn_recv_max_data s < 2 ^ 64" and "find_stream i s = Some st"
    and "\<not> exceeds_conn_window n (st_recv_high_water st) s"
    and "stream_window (own_limit i (cn_local_tp s)) st'"
    and "st_recv_high_water st \<le> st_recv_high_water st'"
    and "st_recv_high_water st' \<le> max (st_recv_high_water st) n"
  shows "recv_flow w (charge_recv (st_recv_high_water st) (st_recv_high_water st') (put_stream i st' s))"
proof -
  have tot: "cn_recv_total s \<le> cn_recv_max_data s" using assms(1) by (simp add: recv_flow_def)
  then have "usub (cn_recv_max_data s) (cn_recv_total s) = cn_recv_max_data s - cn_recv_total s"
    using assms(2) by simp
  then have fits: "cn_recv_total s + (st_recv_high_water st' - st_recv_high_water st) \<le> cn_recv_max_data s"
    using assms(4,6,7) tot by (auto simp: exceeds_conn_window_def)
  then have "charge_recv (st_recv_high_water st) (st_recv_high_water st') (put_stream i st' s)
    = (put_stream i st' s)\<lparr>cn_recv_total := cn_recv_total s + (st_recv_high_water st' - st_recv_high_water st)\<rparr>"
    using assms(2) by (simp add: charge_recv_def put_stream_def)
  then show ?thesis using recv_flow_put [OF assms(1,3,5,6) fits] by simp
qed

lemma initiate_close_flow [simp]:
  "cn_recv_max_data (initiate_close c a r t s) = cn_recv_max_data s"
  "cn_clock_reads (initiate_close c a r t s) = cn_clock_reads s"
  by (simp_all add: initiate_close_def)

lemma recv_flow_close: "recv_flow w s \<Longrightarrow> recv_flow w (initiate_close c a r t s)"
  by (auto simp: initiate_close_def intro: recv_flow_frame)

lemma charge_recv_flow [simp]:
  "cn_recv_max_data (charge_recv a b s) = cn_recv_max_data s"
  "cn_clock_reads (charge_recv a b s) = cn_clock_reads s"
  by (simp_all add: charge_recv_def)

lemma put_stream_flow [simp]:
  "cn_recv_max_data (put_stream i st s) = cn_recv_max_data s"
  "cn_clock_reads (put_stream i st s) = cn_clock_reads s"
  "cn_local_tp (put_stream i st s) = cn_local_tp s"
  by (simp_all add: put_stream_def)

lemma ensure_stream_flow:
  assumes "ensure_stream i s = (st, s')"
  shows "cn_recv_max_data s' = cn_recv_max_data s" and "cn_clock_reads s' = cn_clock_reads s"
    and "cn_local_tp s' = cn_local_tp s"
  using assms by (auto simp: ensure_stream_def Let_def split_beta split: option.splits)

lemma enforce_stream_limit_cases:
  obtains "enforce_stream_limit i s = (True, s)"
  | c a r t where "enforce_stream_limit i s = (False, initiate_close c a r t s)"
proof (cases "is_client_initiated i \<and> find_stream i s = None \<and>
    drop_bit 2 i \<ge> (if is_bidi i then cn_local_max_streams_bidi s else cn_local_max_streams_uni s)")
  case True
  then show ?thesis using that(2) by (simp add: enforce_stream_limit_def)
next
  case False
  then show ?thesis using that(1) by (auto simp: enforce_stream_limit_def Let_def)
qed

text \<open>The two frame handlers either close the connection or charge the stream the frame is for.\<close>

lemma on_stream_frame_cases:
  obtains c a r t where "on_stream_frame f s = initiate_close c a r t s"
  | st s1 c a r t where "ensure_stream (sf_stream_id f) s = (st, s1)"
      "on_stream_frame f s = initiate_close c a r t s1"
  | st s1 st' where "ensure_stream (sf_stream_id f) s = (st, s1)"
      "sf_offset f + length (sf_data f) \<le> kMaxStreamOffset"
      "\<not> exceeds_conn_window (sf_offset f + length (sf_data f)) (st_recv_high_water st) s1"
      "deliver (sf_offset f) (sf_data f) (sf_fin f) st = (True, st')"
      "on_stream_frame f s = charge_recv (st_recv_high_water st) (st_recv_high_water st')
        (put_stream (sf_stream_id f) st' s1)"
proof (cases rule: enforce_stream_limit_cases [of "sf_stream_id f" s])
  case 1
  obtain st s1 where e: "ensure_stream (sf_stream_id f) s = (st, s1)" by fastforce
  obtain ok st' where d: "deliver (sf_offset f) (sf_data f) (sf_fin f) st = (ok, st')" by fastforce
  let ?long = "length (sf_data f) > kMaxStreamOffset \<or> sf_offset f > kMaxStreamOffset - length (sf_data f)"
  let ?wide = "exceeds_conn_window (sf_offset f + length (sf_data f)) (st_recv_high_water st) s1"
  show ?thesis
    using that(1) that(2) [OF e] that(3) [OF e] 1 e d
    by (cases ?long; cases ?wide; cases ok) (auto simp: on_stream_frame_def)
next
  case (2 c a r t)
  then show ?thesis using that(1) by (simp add: on_stream_frame_def)
qed

lemma on_reset_stream_frame_cases:
  obtains c a r t where "on_reset_stream_frame i e n s = initiate_close c a r t s"
  | st s1 c a r t where "ensure_stream i s = (st, s1)"
      "on_reset_stream_frame i e n s = initiate_close c a r t s1"
  | st s1 st' where "ensure_stream i s = (st, s1)"
      "\<not> exceeds_conn_window n (st_recv_high_water st) s1"
      "reset_recvd n e st = (True, st')"
      "on_reset_stream_frame i e n s = charge_recv (st_recv_high_water st) (st_recv_high_water st')
        (put_stream i st' s1)"
proof (cases rule: enforce_stream_limit_cases [of i s])
  case 1
  obtain st s1 where e: "ensure_stream i s = (st, s1)" by fastforce
  obtain ok st' where d: "reset_recvd n e st = (ok, st')" by fastforce
  let ?wide = "exceeds_conn_window n (st_recv_high_water st) s1"
  show ?thesis
    using that(1) that(2) [OF e] that(3) [OF e] 1 e d
    by (cases "n > kMaxStreamOffset"; cases ?wide; cases ok) (auto simp: on_reset_stream_frame_def)
next
  case (2 c a r t)
  then show ?thesis using that(1) by (simp add: on_reset_stream_frame_def)
qed

lemma recv_flow_stream_frame:
  assumes flow: "recv_flow w s" and small: "cn_recv_max_data s < 2 ^ 64"
  shows "recv_flow w (on_stream_frame f s)"
proof (cases rule: on_stream_frame_cases [of f s])
  case (1 c a r t)
  then show ?thesis using flow by (simp add: recv_flow_close)
next
  case (2 st s1 c a r t)
  then show ?thesis using recv_flow_ensure [OF flow] by (simp add: recv_flow_close)
next
  case (3 st s1 st')
  note s1 = recv_flow_ensure [OF flow 3(1)]
  have w: "stream_window (own_limit (sf_stream_id f) (cn_local_tp s1)) st"
    using s1 by (simp add: recv_flow_def)
  have "sf_offset f + length (sf_data f) < 2 ^ 64" using 3(2) by (simp add: kMaxStreamOffset_def)
  note st' = deliver_window [OF w 3(4) this]
  show ?thesis unfolding 3(5)
    by (rule recv_flow_charge [where n = "sf_offset f + length (sf_data f)"]) (use s1 small 3(3) st' in simp_all)
qed

lemma recv_flow_reset_frame:
  assumes flow: "recv_flow w s" and small: "cn_recv_max_data s < 2 ^ 64"
  shows "recv_flow w (on_reset_stream_frame i e n s)"
proof (cases rule: on_reset_stream_frame_cases [of i e n s])
  case (1 c a r t)
  then show ?thesis using flow by (simp add: recv_flow_close)
next
  case (2 st s1 c a r t)
  then show ?thesis using recv_flow_ensure [OF flow] by (simp add: recv_flow_close)
next
  case (3 st s1 st')
  note s1 = recv_flow_ensure [OF flow 3(1)]
  have "stream_window (own_limit i (cn_local_tp s1)) st" using s1 by (simp add: recv_flow_def)
  note st' = reset_recvd_window [OF this 3(3)]
  show ?thesis unfolding 3(4)
    by (rule recv_flow_charge [where n = n]) (use s1 small 3(2) st' in simp_all)
qed

section \<open>Emission\<close>

definition recv_kept :: "stream \<Rightarrow> stream \<Rightarrow> bool" where
  "recv_kept st st' \<longleftrightarrow> st_recv_chunks st' = st_recv_chunks st
     \<and> st_recv_read_offset st' = st_recv_read_offset st
     \<and> st_recv_high_water st' = st_recv_high_water st \<and> st_recv_limit st' = st_recv_limit st"

lemma recv_kept_refl [simp]: "recv_kept st st"
  by (simp add: recv_kept_def)

lemma recv_kept_trans: "recv_kept a b \<Longrightarrow> recv_kept b c \<Longrightarrow> recv_kept a c"
  by (simp add: recv_kept_def)

lemma recv_kept_window: "recv_kept st st' \<Longrightarrow> stream_window limit st' \<longleftrightarrow> stream_window limit st"
  by (simp add: recv_kept_def stream_window_def)

text \<open>A pull takes at most \<open>m\<close> fresh bytes and does not touch the receive side.\<close>

lemma fin_only_kept:
  assumes "fin_only off st = (r, st')"
  shows "recv_kept st st' \<and> st_send_next_offset st' = st_send_next_offset st"
  using assms by (auto simp: fin_only_def recv_kept_def Let_def split: if_splits)

lemma pull_fresh_kept:
  assumes "pull_fresh off n m st = Some (r, st')"
  shows "recv_kept st st' \<and> st_send_next_offset st \<le> st_send_next_offset st'
    \<and> st_send_next_offset st' \<le> st_send_next_offset st + min m (pr_take r)"
proof -
  define k where "k = min (min (min n (st_send_limit st - st_send_next_offset st))
      (usub (st_send_high_water st) (st_send_next_offset st))) m"
  have k: "k \<le> m" unfolding k_def by linarith
  show ?thesis
  proof (cases "st_send_next_offset st \<ge> st_send_limit st \<or> k = 0")
    case True
    then have "fin_only off st = (r, st')"
      using assms unfolding pull_fresh_def Let_def k_def [symmetric] by (auto split: if_splits)
    then show ?thesis by (auto dest: fin_only_kept)
  next
    case False
    then have "recv_kept st st' \<and> st_send_next_offset st' = st_send_next_offset st + k \<and> pr_take r = k"
      using assms unfolding pull_fresh_def Let_def k_def [symmetric]
      by (cases "buf_slice st (st_send_next_offset st) k") (auto simp: recv_kept_def split: if_splits)
    with k show ?thesis by simp
  qed
qed

lemma pull_lost_kept:
  assumes "pull_lost n r rs st = Some (p, st')"
  shows "recv_kept st st' \<and> st_send_next_offset st' = st_send_next_offset st"
  using assms unfolding pull_lost_def Let_def
  by (cases "buf_slice st (fst r) (min n (snd r))") (auto simp: recv_kept_def)

lemma pull_send_kept:
  assumes "pull_send off n m st = Some (r, st')"
  shows "recv_kept st st' \<and> st_send_next_offset st \<le> st_send_next_offset st'
    \<and> st_send_next_offset st' \<le> st_send_next_offset st + min m (pr_take r)"
proof -
  consider "st' = st" | x xs where "pull_lost n x xs st = Some (r, st')"
    | "pull_fresh off n m st = Some (r, st')"
    using assms by (auto simp: pull_send_def split: if_splits list.splits)
  then show ?thesis by cases (auto dest: pull_lost_kept pull_fresh_kept)
qed

text \<open>One step of the budget: what is charged to the total leaves the remaining budget.\<close>

lemma budget_step:
  assumes "x \<le> x'" and "x' \<le> x + b"
  shows "uadd t (usub x' x) + usub b (usub x' x) \<le> t + b"
    and "t + b < 2 ^ 64 \<Longrightarrow> uadd t (usub x' x) + usub b (usub x' x) = t + b"
    and "t + b < 2 ^ 64 \<Longrightarrow> uadd t (usub x' x) + x = t + x'"
proof -
  define f where "f = usub x' x"
  have f: "f \<le> b" using usub_le [OF assms(1)] assms(2) unfolding f_def by linarith
  show "uadd t (usub x' x) + usub b (usub x' x) \<le> t + b"
    unfolding f_def [symmetric] using f usub_le [OF f] uadd_le [of t f] by linarith
  show "uadd t (usub x' x) + usub b (usub x' x) = t + b" if "t + b < 2 ^ 64"
    unfolding f_def [symmetric] using f that by simp
  show "uadd t (usub x' x) + x = t + x'" if "t + b < 2 ^ 64"
  proof -
    have "x' - x < 2 ^ 64" using assms(2) that by linarith
    then have "usub x' x = x' - x" by (simp only: usub_mod [OF assms(1)] mod_less)
    then show ?thesis using assms that by simp
  qed
qed

definition paid :: "stream \<Rightarrow> nat \<Rightarrow> nat \<Rightarrow> stream \<Rightarrow> nat \<Rightarrow> nat \<Rightarrow> bool" where
  "paid st b t st' b' t' \<longleftrightarrow> recv_kept st st' \<and> t' + b' \<le> t + b
     \<and> (t + b < 2 ^ 64 \<longrightarrow> t' + b' = t + b \<and>
          t' + st_send_next_offset st = t + st_send_next_offset st')"

lemma paid_refl: "paid st b t st b t"
  by (simp add: paid_def)

lemma paid_trans:
  assumes "paid st b t st1 b1 t1" and "paid st1 b1 t1 st2 b2 t2"
  shows "paid st b t st2 b2 t2"
  using assms by (auto simp: paid_def recv_kept_def)

lemma paid_pull:
  assumes "pull_send off n b st = Some (r, st')"
  shows "paid st b t st' (usub b (usub (st_send_next_offset st') (st_send_next_offset st)))
    (uadd t (usub (st_send_next_offset st') (st_send_next_offset st)))"
proof -
  have k: "recv_kept st st'" "st_send_next_offset st \<le> st_send_next_offset st'"
    "st_send_next_offset st' \<le> st_send_next_offset st + b"
    using pull_send_kept [OF assms] by auto
  show ?thesis using k(1) budget_step [OF k(2,3), of t] by (simp add: paid_def)
qed

lemma pull_stream_paid:
  "pull_stream i n st b t = Some (sfs, st', b', t') \<Longrightarrow> paid st b t st' b' t'"
proof (induction i n st b t arbitrary: sfs rule: pull_stream.induct)
  case (1 i n st b t)
  show ?case
  proof (cases "n > 0")
    case True
    then obtain r st1 where p: "pull_send 0 n b st = Some (r, st1)"
      using "1.prems" by (subst (asm) pull_stream.simps) (auto split: option.splits)
    define f where "f = usub (st_send_next_offset st1) (st_send_next_offset st)"
    note step = paid_pull [OF p, of t, folded f_def]
    show ?thesis
    proof (cases "pr_take r = 0")
      case zero: True
      show ?thesis
      proof (cases "pr_fin r")
        case fin: True
        then have "st' = st1 \<and> b' = usub b f \<and> t' = uadd t f"
          using "1.prems" True p zero by (subst (asm) pull_stream.simps) (auto simp: f_def Let_def)
        with step show ?thesis by simp
      next
        case fin: False
        then have "st' = st1 \<and> b' = b \<and> t' = t"
          using "1.prems" True p zero by (subst (asm) pull_stream.simps) auto
        then show ?thesis using pull_send_kept [OF p] zero by (simp add: paid_def)
      qed
    next
      case False
      then obtain sfs1 where "pull_stream i (n - pr_take r) st1 (usub b f) (uadd t f) = Some (sfs1, st', b', t')"
        using "1.prems" True p by (subst (asm) pull_stream.simps) (auto simp: f_def Let_def)
      then have "paid st1 (usub b f) (uadd t f) st' b' t'"
        using "1.IH" [OF True p refl] False by (simp add: f_def)
      with step show ?thesis by (rule paid_trans)
    qed
  next
    case False
    then show ?thesis using "1.prems" by (subst (asm) pull_stream.simps) (simp add: paid_refl)
  qed
qed

lemma pull_streams_paid:
  assumes "pull_streams ss b t = Some (sfs, ss', t')"
  shows "map fst ss' = map fst ss \<and> om_sum st_recv_high_water ss' = om_sum st_recv_high_water ss
    \<and> (\<forall>i. rel_option recv_kept (map_of ss i) (map_of ss' i)) \<and> t' \<le> t + b
    \<and> (t + b < 2 ^ 64 \<longrightarrow> t' + om_sum st_send_next_offset ss = t + om_sum st_send_next_offset ss')"
  using assms
proof (induction ss arbitrary: b t sfs ss' t')
  case (Cons e rest)
  obtain i st where e: "e = (i, st)" by (cases e)
  with Cons.prems obtain sfs1 st1 b1 t1 sfs2 rest1 where one: "pull_stream i kStreamBudget st b t = Some (sfs1, st1, b1, t1)"
    and others: "pull_streams rest b1 t1 = Some (sfs2, rest1, t')" and ss': "ss' = (i, st1) # rest1"
    by (auto split: bind_splits)
  note first = pull_stream_paid [OF one]
  have kept: "recv_kept st st1" using first by (simp add: paid_def)
  have ih: "map fst rest1 = map fst rest \<and> om_sum st_recv_high_water rest1 = om_sum st_recv_high_water rest
    \<and> (\<forall>i. rel_option recv_kept (map_of rest i) (map_of rest1 i)) \<and> t' \<le> t1 + b1
    \<and> (t1 + b1 < 2 ^ 64 \<longrightarrow> t' + om_sum st_send_next_offset rest = t1 + om_sum st_send_next_offset rest1)"
    using others by (rule Cons.IH)
  have "st_recv_high_water st1 = st_recv_high_water st" using kept by (simp add: recv_kept_def)
  then show ?case using first ih kept by (auto simp: e ss' paid_def)
qed (simp add: option.rel_refl)

section \<open>Retirement and window updates\<close>

text \<open>What \<open>retire_loop\<close> keeps of the connection.\<close>

definition retired_from :: "connection \<Rightarrow> connection \<Rightarrow> bool" where
  "retired_from s s' \<longleftrightarrow> cn_recv_max_data s' = cn_recv_max_data s \<and> cn_clock_reads s' = cn_clock_reads s
     \<and> cn_send_total s' = cn_send_total s \<and> cn_send_max_data s' = cn_send_max_data s"

lemma retire_loop_keeps: "retired_from s (retire_loop rest s)"
  by (induction rest s rule: retire_loop.induct) (auto simp: retired_from_def Let_def)

lemma retire_loop_flow:
  assumes "recv_flow w s" and "cn_recv_max_data s < 2 ^ 64" and "distinct (map fst rest)"
    and "\<forall>(i, st) \<in> set rest. find_stream i s = Some st"
  shows "recv_flow w (retire_loop rest s)"
  using assms
proof (induction rest arbitrary: s)
  case (Cons e rest)
  obtain i st where e: "e = (i, st)" by (cases e)
  show ?case
  proof (cases "stream_terminal i st")
    case True
    let ?s1 = "if is_client_initiated i then
        (if is_bidi i then s\<lparr>cn_streams_bidi_closed := cn_streams_bidi_closed s + 1\<rparr>
         else s\<lparr>cn_streams_uni_closed := cn_streams_uni_closed s + 1\<rparr>) else s"
    let ?s2 = "?s1\<lparr>cn_retired_recv_consumed := uadd (cn_retired_recv_consumed ?s1) (st_recv_high_water st),
        cn_streams := om_erase i (cn_streams ?s1)\<rparr>"
    have st: "map_of (cn_streams s) i = Some st" using Cons.prems(4) by (simp add: e find_stream_def)
    have wf: "om_wf (cn_streams s)" using Cons.prems(1) by (simp add: recv_flow_def)
    have sum: "om_sum st_recv_high_water (om_erase i (cn_streams s)) + st_recv_high_water st
        = om_sum st_recv_high_water (cn_streams s)" by (rule om_sum_erase [OF wf st])
    have "cn_retired_recv_consumed s + st_recv_high_water st < 2 ^ 64"
      using Cons.prems(1,2) sum unfolding recv_flow_def by linarith
    then have "recv_flow w ?s2"
      using Cons.prems(1) sum wf by (auto simp: recv_flow_def find_stream_def om_wf_erase split: if_splits)
    moreover have "\<forall>(j, st') \<in> set rest. find_stream j ?s2 = Some st'"
      using Cons.prems(3,4) by (force simp: e find_stream_def)
    ultimately have "recv_flow w (retire_loop rest ?s2)"
      using Cons.prems(2,3) by (intro Cons.IH) (simp_all add: e)
    then show ?thesis using True by (simp add: e Let_def)
  qed (use Cons in \<open>simp add: e\<close>)
qed simp

lemma credit_streams_flow:
  "recv_flow w (credit_streams_uni (credit_streams_bidi s)) \<longleftrightarrow> recv_flow w s"
  "retired_from s (credit_streams_uni (credit_streams_bidi s))"
  by (simp_all add: credit_streams_uni_def credit_streams_bidi_def Let_def recv_flow_def find_stream_def
      retired_from_def)

lemma retire_closed_streams_keeps: "retired_from s (retire_closed_streams s)"
  using retire_loop_keeps [of s "cn_streams s"] credit_streams_flow(2) [of "retire_loop (cn_streams s) s"]
  by (simp add: retire_closed_streams_def retired_from_def)

lemma retire_closed_streams_flow:
  assumes "recv_flow w s" and "cn_recv_max_data s < 2 ^ 64"
  shows "recv_flow w (retire_closed_streams s)"
  unfolding retire_closed_streams_def credit_streams_flow(1)
  by (rule retire_loop_flow [OF assms])
    (use assms(1) in \<open>auto simp: recv_flow_def om_wf_distinct om_wf_members find_stream_def\<close>)

lemma consumed_sum:
  assumes "a + om_sum f m < 2 ^ 64"
  shows "fold (\<lambda>e c. uadd c (f (snd e))) m a = a + om_sum f m"
  using assms by (induction m arbitrary: a) auto

text \<open>
  A window update never takes credit back, and moves the limit to at most one window past what the
  application has consumed.
\<close>

lemma refresh_flow:
  assumes flow: "recv_flow w s" and small: "cn_recv_max_data s + w < 2 ^ 64"
  shows "recv_flow w (refresh_conn_recv_window s)
    \<and> cn_recv_max_data s \<le> cn_recv_max_data (refresh_conn_recv_window s)
    \<and> cn_recv_max_data (refresh_conn_recv_window s) \<le> cn_recv_max_data s + w"
proof -
  define used_total where "used_total = cn_retired_recv_consumed s + om_sum st_recv_read_offset (cn_streams s)"
  have wf: "om_wf (cn_streams s)" and win: "tp_initial_max_data (cn_local_tp s) = w"
    using flow by (simp_all add: recv_flow_def)
  have "om_sum st_recv_read_offset (cn_streams s) \<le> om_sum st_recv_high_water (cn_streams s)"
    using flow by (intro om_sum_mono [OF wf]) (auto simp: recv_flow_def find_stream_def stream_window_def)
  then have used: "used_total \<le> cn_recv_total s" "cn_recv_total s \<le> cn_recv_max_data s"
    using flow by (auto simp: recv_flow_def used_total_def)
  define s1 where "s1 = s\<lparr>cn_recv_consumed := used_total\<rparr>"
  have r: "refresh_conn_recv_window s = extend_conn_recv_window s1"
    using consumed_sum [of "cn_retired_recv_consumed s" st_recv_read_offset "cn_streams s"] used small
    by (simp add: refresh_conn_recv_window_def s1_def used_total_def)
  have flow1: "recv_flow w s1" using flow by (rule recv_flow_frame) (simp_all add: s1_def)
  show ?thesis
  proof (cases "w > 0 \<and> cn_recv_max_data s - used_total < w div 2")
    case True
    let ?s2 = "s1\<lparr>cn_recv_max_data := used_total + w, cn_max_data_pending := True\<rparr>"
    have s2: "refresh_conn_recv_window s = ?s2"
      using True used small win by (simp add: r extend_conn_recv_window_def s1_def)
    have up: "cn_recv_max_data s \<le> used_total + w" using True used by linarith
    have down: "used_total + w \<le> cn_recv_max_data s + w" using used by linarith
    have "recv_flow w ?s2" using up by (intro recv_flow_frame [OF flow1]) (simp_all add: s1_def)
    moreover have "cn_recv_max_data ?s2 = used_total + w" by simp
    ultimately show ?thesis
      unfolding s2 using up down by simp
  next
    case False
    have u: "usub (cn_recv_max_data s1) (cn_recv_consumed s1) = cn_recv_max_data s - used_total"
      using used small by (simp add: s1_def)
    have w1: "tp_initial_max_data (cn_local_tp s1) = w" using win by (simp add: s1_def)
    have "refresh_conn_recv_window s = s1"
      using False unfolding r extend_conn_recv_window_def Let_def u w1 by (metis gr0I)
    then show ?thesis
      using flow1 by (simp add: s1_def)
  qed
qed

section \<open>Receive-side flow control in every run\<close>

text \<open>
  A limit moves by at most one window per timer tick, and every tick reads the clock; so as long as the
  readings of the clock times the window stay below \<open>2 ^ 64\<close>, no sum wraps.
\<close>

definition flow_bound :: "nat \<Rightarrow> nat \<Rightarrow> nat \<Rightarrow> connection \<Rightarrow> bool" where
  "flow_bound w k m s \<longleftrightarrow> k \<le> cn_clock_reads s \<and>
     (Suc (cn_clock_reads s) * w < 2 ^ 64 \<longrightarrow>
        recv_flow w s \<and> cn_recv_max_data s \<le> m \<and> cn_recv_max_data s < 2 ^ 64)"

lemma flow_bound_frame:
  assumes "flow_bound w k m s" and "cn_local_tp s' = cn_local_tp s" and "cn_streams s' = cn_streams s"
    and "cn_recv_total s' = cn_recv_total s" and "cn_retired_recv_consumed s' = cn_retired_recv_consumed s"
    and "cn_recv_max_data s' = cn_recv_max_data s" and "cn_clock_reads s' = cn_clock_reads s"
  shows "flow_bound w k m s'"
  using assms recv_flow_frame [of w s s'] by (auto simp: flow_bound_def)

lemma flow_bound_clock:
  assumes "flow_bound w k m s"
  shows "flow_bound w (Suc k) m (s\<lparr>cn_clock_reads := Suc (cn_clock_reads s)\<rparr>)"
  using assms by (auto simp: flow_bound_def intro: recv_flow_frame)

lemma flow_bound_change:
  assumes "flow_bound w k m s" and "cn_clock_reads s' = cn_clock_reads s"
    and "cn_recv_max_data s' = cn_recv_max_data s"
    and "recv_flow w s \<Longrightarrow> cn_recv_max_data s < 2 ^ 64 \<Longrightarrow> recv_flow w s'"
  shows "flow_bound w k m s'"
  using assms by (auto simp: flow_bound_def)

lemma on_stream_frame_flow:
  "cn_recv_max_data (on_stream_frame f s) = cn_recv_max_data s"
  "cn_clock_reads (on_stream_frame f s) = cn_clock_reads s"
  by (cases rule: on_stream_frame_cases [of f s]; simp add: ensure_stream_flow)+

lemma on_reset_stream_frame_flow:
  "cn_recv_max_data (on_reset_stream_frame i e n s) = cn_recv_max_data s"
  "cn_clock_reads (on_reset_stream_frame i e n s) = cn_clock_reads s"
  by (cases rule: on_reset_stream_frame_cases [of i e n s]; simp add: ensure_stream_flow)+

interpretation flow: conn_base E "flow_bound w k m" for E w k m
proof unfold_locales
  fix s i st st' assume P: "flow_bound w k m s" and "find_stream i s = Some st" and "window_same st st'"
  then show "flow_bound w k m (put_stream i st' s)"
    by (intro flow_bound_change [OF P]) (simp_all add: recv_flow_window_same)
next
  fix s f assume P: "flow_bound w k m s"
  then show "flow_bound w k m (on_stream_frame f s)"
    by (rule flow_bound_change) (simp_all add: on_stream_frame_flow recv_flow_stream_frame)
next
  fix s i e n assume P: "flow_bound w k m s"
  then show "flow_bound w k m (on_reset_stream_frame i e n s)"
    by (rule flow_bound_change) (simp_all add: on_reset_stream_frame_flow recv_flow_reset_frame)
next
  fix s assume "flow_bound w k m s"
  then show "flow_bound w k m (s\<lparr>cn_clock_reads := Suc (cn_clock_reads s)\<rparr>)"
    using flow_bound_clock [of w k m s] by (simp add: flow_bound_def)
next
  fix s code app reason ft assume P: "flow_bound w k m s"
  then show "flow_bound w k m (initiate_close code app reason ft s)"
    by (rule flow_bound_change) (simp_all add: recv_flow_close)
qed (erule flow_bound_frame; simp add: set_space_def)+

lemma collect_streams_flow:
  assumes "collect_streams l s = Some (sfs, s')"
  shows "cn_recv_max_data s' = cn_recv_max_data s" and "cn_clock_reads s' = cn_clock_reads s"
    and "recv_flow w s \<Longrightarrow> recv_flow w s'"
proof -
  show "cn_recv_max_data s' = cn_recv_max_data s" and "cn_clock_reads s' = cn_clock_reads s"
    using assms by (auto simp: collect_streams_def Let_def split: if_splits bind_splits)
  assume flow: "recv_flow w s"
  show "recv_flow w s'"
  proof (cases "l = Application")
    case True
    then obtain b ss t' where p: "pull_streams (cn_streams s) b (cn_send_total s) = Some (sfs, ss, t')"
      and s': "cn_streams s' = ss" "cn_local_tp s' = cn_local_tp s" "cn_recv_total s' = cn_recv_total s"
        "cn_retired_recv_consumed s' = cn_retired_recv_consumed s" "cn_recv_max_data s' = cn_recv_max_data s"
      using assms by (auto simp: collect_streams_def Let_def split: if_splits bind_splits)
    note q = pull_streams_paid [OF p]
    have "om_wf ss" using flow q by (simp add: recv_flow_def om_wf_def)
    moreover have "stream_window (own_limit i (cn_local_tp s)) st" if m: "map_of ss i = Some st" for i st
    proof -
      have "rel_option recv_kept (map_of (cn_streams s) i) (map_of ss i)" using q by blast
      then obtain st0 where "map_of (cn_streams s) i = Some st0" and "recv_kept st0 st"
        using m by (cases "map_of (cn_streams s) i") auto
      then show ?thesis using flow by (auto simp: recv_flow_def find_stream_def recv_kept_window)
    qed
    ultimately show ?thesis using flow q by (simp add: recv_flow_def find_stream_def s')
  qed (use assms flow in \<open>simp add: collect_streams_def\<close>)
qed

interpretation flow_send: send_invariant E "flow_bound w k m" for E w k m
proof unfold_locales
  fix s l sfs s' assume P: "flow_bound w k m s" and c: "collect_streams l s = Some (sfs, s')"
  show "flow_bound w k m s'"
    by (rule flow_bound_change [OF P]) (simp_all add: collect_streams_flow [OF c])
qed (erule flow_bound_frame; simp add: emit_def take_pn_def set_space_def Let_def)+

text \<open>The bound with the number of readings it was established at.\<close>

definition flow_ok :: "nat \<Rightarrow> connection \<Rightarrow> bool" where
  "flow_ok w s \<longleftrightarrow> (\<exists>k. flow_bound w k (Suc k * w) s)"

lemma flow_okI: "flow_bound w k (Suc k * w) s \<Longrightarrow> flow_ok w s"
  by (auto simp: flow_ok_def)

lemma flow_okE:
  assumes "flow_ok w s"
  obtains k where "flow_bound w k (Suc k * w) s"
  using assms by (auto simp: flow_ok_def)

lemma arrival_flow:
  "flow_bound w k m s \<Longrightarrow> flow_bound w k m (s\<lparr>cn_last_activity := t, cn_recv_bytes_total := n\<rparr>)"
  by (erule flow_bound_frame; simp)

lemma establish_flow: "flow_bound w k m s \<Longrightarrow> flow_bound w k m (establish s)"
  by (erule flow_bound_frame; simp add: establish_def)

lemma flow_bound_retire: "flow_bound w k m s \<Longrightarrow> flow_bound w k m (retire_closed_streams s)"
  by (erule flow_bound_change)
    (use retire_closed_streams_keeps [of s] in \<open>simp_all add: retired_from_def retire_closed_streams_flow\<close>)

lemma timer_work_flow:
  assumes P: "flow_bound w k (Suc k * w) s" and "timer_work E s = Some s'"
  shows "flow_bound w (Suc k) (Suc (Suc k) * w) s'"
proof -
  let ?m = "Suc k * w"
  obtain s1 s2 s3 where s1: "install_new_keys E s = Some s1"
    and s2: "install_new_keys E (tls_step E s1) = Some s2" and s3: "check_pto E s2 = Some s3"
    and s': "s' = refresh_conn_recv_window (retire_closed_streams (pull_crypto_from_tls s3))"
    using assms(2) by (auto simp: timer_work_def split: bind_splits)
  have "flow_bound w k ?m s2"
    by (rule flow.install_new_keys_P [OF flow.tls_step_P [OF flow.install_new_keys_P [OF P s1]] s2])
  then have "flow_bound w (Suc k) ?m s3" by (rule flow.check_pto_P [OF flow_bound_clock s3])
  then have "flow_bound w (Suc k) ?m (pull_crypto_from_tls s3)" by (rule flow.pull_crypto_from_tls_P)
  then have P4: "flow_bound w (Suc k) ?m (retire_closed_streams (pull_crypto_from_tls s3))"
    by (rule flow_bound_retire)
  define s4 where "s4 = retire_closed_streams (pull_crypto_from_tls s3)"
  have reads: "cn_clock_reads s' = cn_clock_reads s4"
    by (simp add: s' s4_def refresh_conn_recv_window_def extend_conn_recv_window_def Let_def)
  show ?thesis unfolding flow_bound_def reads
  proof (intro conjI impI)
    show "Suc k \<le> cn_clock_reads s4" using P4 by (simp add: flow_bound_def s4_def)
    assume small: "Suc (cn_clock_reads s4) * w < 2 ^ 64"
    then have f: "recv_flow w s4" "cn_recv_max_data s4 \<le> ?m" using P4 by (simp_all add: flow_bound_def s4_def)
    have "Suc (Suc k) * w \<le> Suc (cn_clock_reads s4) * w"
      using P4 by (intro mult_le_mono1) (simp add: flow_bound_def s4_def)
    with small f(2) have room: "cn_recv_max_data s4 + w < 2 ^ 64" "cn_recv_max_data s4 + w \<le> Suc (Suc k) * w"
      by auto
    note r = refresh_flow [OF f(1) room(1), folded s4_def, folded s' [folded s4_def]]
    show "recv_flow w s'" "cn_recv_max_data s' \<le> Suc (Suc k) * w" "cn_recv_max_data s' < 2 ^ 64"
      using r room by auto
  qed
qed

lemma write_stream_flow: "flow_bound w k m s \<Longrightarrow> flow_bound w k m (write_stream i d fin s)"
proof -
  assume P: "flow_bound w k m s"
  obtain st s1 where e: "ensure_stream i s = (st, s1)" by fastforce
  show ?thesis
    using recv_flow_ensure [OF _ e, of w] recv_flow_window_same [of w s1 i st "stream_write d fin st"]
    by (intro flow_bound_change [OF P]) (simp_all add: write_stream_def e ensure_stream_flow [OF e])
qed

lemma read_stream_flow:
  assumes P: "flow_bound w k m s" and "read_stream i s = (out, fin, s')"
  shows "flow_bound w k m s'"
proof (cases "find_stream i s")
  case (Some st)
  obtain st' where r: "read_contiguous st = (out, fin, st')" and s': "s' = put_stream i st' s"
    using assms(2) Some by (auto simp: read_stream_def split: prod.splits)
  show ?thesis unfolding s'
  proof (rule flow_bound_change [OF P])
    assume flow: "recv_flow w s"
    then have "stream_window (own_limit i (cn_local_tp s)) st" using Some by (simp add: recv_flow_def)
    from read_contiguous_window [OF this r] show "recv_flow w (put_stream i st' s)"
      by (intro recv_flow_put_same [OF flow Some]) simp_all
  qed simp_all
qed (use assms in \<open>simp add: read_stream_def\<close>)

lemma flow_ok_lift: "(\<And>k m. flow_bound w k m s \<Longrightarrow> flow_bound w k m s') \<Longrightarrow> flow_ok w s \<Longrightarrow> flow_ok w s'"
  by (auto simp: flow_ok_def)

interpretation flow_run: run_invariant E "flow_ok w" for E w
proof unfold_locales
  fix s s' assume "flow_ok w s" and t: "timer_work E s = Some s'"
  then obtain k where "flow_bound w k (Suc k * w) s" by (elim flow_okE)
  then show "flow_ok w s'" by (rule flow_okI [OF timer_work_flow [OF _ t]])
qed (erule flow_ok_lift [rotated]; (erule flow.clock flow.tls flow.congestion flow.recovery
    flow.sent flow.pending flow.close flow.draining flow.path flow.validated flow.peer_bidi flow.peer_uni
    flow.flag_data flow.flag_bidi flow.flag_uni flow.stream_frame flow.reset_frame flow.handshakes
    arrival_flow establish_flow write_stream_flow | erule (1) flow.raise_send | erule (1) flow.space
    | erule (2) flow.stream_send_side | erule (1) flow_send.build_and_send_P | erule (1) read_stream_flow))+

lemma connection_new_flow:
  assumes "connection_new E su dcid client_scid server_scid tp = Some s"
  shows "flow_ok (tp_initial_max_data tp) s"
proof (cases rule: connection_new_cases [OF assms])
  case (1 tls sp)
  let ?w = "tp_initial_max_data tp"
  have "recv_flow ?w s" unfolding 1(1)
    by (simp add: recv_flow_def conn_blank_def set_space_def find_stream_def)
  moreover have "cn_recv_max_data s = ?w" and "cn_clock_reads s = 1"
    unfolding 1(1) by (simp_all add: conn_blank_def set_space_def)
  ultimately have "flow_bound ?w 1 (Suc 1 * ?w) s" by (simp add: flow_bound_def)
  then show ?thesis by (rule flow_okI)
qed

lemma flow_reach: "conn_reach E su tp s \<Longrightarrow> flow_ok (tp_initial_max_data tp) s"
  by (erule flow_run.conn_reach_P) (rule connection_new_flow)

section \<open>Send-side flow control in every run\<close>

definition send_credit :: "connection \<Rightarrow> bool" where
  "send_credit s \<longleftrightarrow> om_wf (cn_streams s) \<and> cn_send_total s \<le> cn_send_max_data s
     \<and> (cn_send_max_data s < 2 ^ 64 \<longrightarrow> om_sum st_send_next_offset (cn_streams s) \<le> cn_send_total s)"

lemma send_credit_frame:
  assumes "send_credit s" and "cn_streams s' = cn_streams s" and "cn_send_total s' = cn_send_total s"
    and "cn_send_max_data s \<le> cn_send_max_data s'"
  shows "send_credit s'"
  using assms by (auto simp: send_credit_def)

lemma send_credit_put:
  assumes "send_credit s" and "find_stream i s = Some st"
    and "st_send_next_offset st' = st_send_next_offset st"
  shows "send_credit (put_stream i st' s)"
  using assms om_sum_update [of "cn_streams s" i st st_send_next_offset st']
  by (auto simp: send_credit_def put_stream_def find_stream_def om_wf_set)

lemma send_credit_ensure:
  assumes "send_credit s" and "ensure_stream i s = (st, s')"
  shows "send_credit s' \<and> find_stream i s' = Some st"
  using assms
  by (auto simp: send_credit_def ensure_stream_def find_stream_def put_stream_def Let_def split_beta
      om_wf_set om_sum_insert stream_init_def split: option.splits)

lemma send_credit_close: "send_credit s \<Longrightarrow> send_credit (initiate_close c a r t s)"
  by (erule send_credit_frame; simp add: initiate_close_def)

lemma send_credit_charge: "send_credit (charge_recv a b s) \<longleftrightarrow> send_credit s"
  by (simp add: send_credit_def charge_recv_def)

lemma send_credit_stream_frame: "send_credit s \<Longrightarrow> send_credit (on_stream_frame f s)"
proof (cases rule: on_stream_frame_cases [of f s])
  case (3 st s1 st')
  assume "send_credit s"
  from send_credit_ensure [OF this 3(1)] show ?thesis
    using deliver_next_offset [of "sf_offset f" "sf_data f" "sf_fin f" st] 3(4)
    unfolding 3(5) send_credit_charge by (auto intro: send_credit_put)
qed (simp_all add: send_credit_close send_credit_ensure)

lemma send_credit_reset_frame: "send_credit s \<Longrightarrow> send_credit (on_reset_stream_frame i e n s)"
proof (cases rule: on_reset_stream_frame_cases [of i e n s])
  case (3 st s1 st')
  assume "send_credit s"
  moreover have "st_send_next_offset st' = st_send_next_offset st"
    using 3(3) by (auto simp: reset_recvd_def split: if_splits)
  ultimately show ?thesis
    using send_credit_ensure [OF _ 3(1)] unfolding 3(4) send_credit_charge by (auto intro: send_credit_put)
qed (simp_all add: send_credit_close send_credit_ensure)

lemma send_credit_collect:
  assumes credit: "send_credit s" and "collect_streams l s = Some (sfs, s')"
  shows "send_credit s'"
proof (cases "l = Application")
  case True
  define m where "m = max (cn_send_max_data s) (tp_initial_max_data (peer_transport_params s))"
  define b where "b = m - cn_send_total s"
  have tot: "cn_send_total s \<le> m" and le: "cn_send_max_data s \<le> m"
    using credit by (auto simp: send_credit_def m_def)
  obtain ss t' where p: "pull_streams (cn_streams s) b (cn_send_total s) = Some (sfs, ss, t')"
    and s': "cn_streams s' = ss" "cn_send_total s' = t'" "cn_send_max_data s' = m"
    using assms(2) True
    by (auto simp: collect_streams_def Let_def m_def b_def max_def split: if_splits bind_splits)
  note q = pull_streams_paid [OF p]
  have sum: "cn_send_total s + b = m" using tot by (simp add: b_def)
  have "om_wf ss" using credit q by (simp add: send_credit_def om_wf_def)
  moreover have "t' \<le> m" using q sum by linarith
  moreover have "om_sum st_send_next_offset ss \<le> t'" if "m < 2 ^ 64"
  proof -
    have "om_sum st_send_next_offset (cn_streams s) \<le> cn_send_total s"
      using credit that le by (simp add: send_credit_def)
    moreover have "t' + om_sum st_send_next_offset (cn_streams s)
        = cn_send_total s + om_sum st_send_next_offset ss" using q that sum by simp
    ultimately show ?thesis by linarith
  qed
  ultimately show ?thesis by (simp add: send_credit_def s')
qed (use assms in \<open>simp add: collect_streams_def\<close>)

lemma send_credit_retire_loop: "send_credit s \<Longrightarrow> send_credit (retire_loop rest s)"
proof (induction rest s rule: retire_loop.induct)
  case (2 i st rest s)
  let ?s1 = "if is_client_initiated i then
      (if is_bidi i then s\<lparr>cn_streams_bidi_closed := cn_streams_bidi_closed s + 1\<rparr>
       else s\<lparr>cn_streams_uni_closed := cn_streams_uni_closed s + 1\<rparr>) else s"
  let ?s2 = "?s1\<lparr>cn_retired_recv_consumed := uadd (cn_retired_recv_consumed ?s1) (st_recv_high_water st),
      cn_streams := om_erase i (cn_streams ?s1)\<rparr>"
  have "send_credit ?s2"
    using "2.prems" om_sum_erase_le [of st_send_next_offset i "cn_streams s"]
    by (auto simp: send_credit_def om_wf_erase)
  with 2 show ?case by (auto simp: Let_def)
qed simp

lemma send_credit_retire: "send_credit s \<Longrightarrow> send_credit (retire_closed_streams s)"
  unfolding retire_closed_streams_def credit_streams_uni_def credit_streams_bidi_def Let_def
  by (auto intro: send_credit_frame send_credit_retire_loop)

lemma send_credit_refresh: "send_credit s \<Longrightarrow> send_credit (refresh_conn_recv_window s)"
  by (erule send_credit_frame; simp add: refresh_conn_recv_window_def extend_conn_recv_window_def Let_def)

interpretation credit: conn_base E send_credit for E
proof unfold_locales
  fix s i st st' assume "send_credit s" and "find_stream i s = Some st" and "window_same st st'"
  then show "send_credit (put_stream i st' s)" by (auto simp: window_same_def intro: send_credit_put)
qed (rule send_credit_stream_frame send_credit_reset_frame send_credit_close, assumption
    | erule send_credit_frame; simp add: set_space_def)+

interpretation credit_send: send_invariant E send_credit for E
  by unfold_locales ((erule (1) send_credit_collect)
    | erule send_credit_frame; simp add: emit_def take_pn_def set_space_def Let_def)+

interpretation credit_run: run_invariant E send_credit for E
proof unfold_locales
  fix s s' assume "send_credit s" and "timer_work E s = Some s'"
  then show "send_credit s'"
    by (rule credit.timer_work_P) (rule send_credit_retire send_credit_refresh, assumption)+
next
  fix s i d fin assume c: "send_credit s"
  obtain st s1 where e: "ensure_stream i s = (st, s1)" by fastforce
  show "send_credit (write_stream i d fin s)"
    using send_credit_ensure [OF c e]
    by (auto simp: write_stream_def e stream_write_def Let_def intro!: send_credit_put)
next
  fix s i out fin s' assume c: "send_credit s" and r: "read_stream i s = (out, fin, s')"
  then show "send_credit s'"
    by (auto simp: read_stream_def read_contiguous_def Let_def
        split: option.splits list.splits if_splits intro!: send_credit_put)
next
  fix s l b s' assume "send_credit s" and "build_and_send E l s = Some (b, s')"
  then show "send_credit s'" by (rule credit_send.build_and_send_P)
qed (erule send_credit_frame; simp add: establish_def)+

lemma connection_new_credit:
  assumes "connection_new E su dcid client_scid server_scid tp = Some s"
  shows "send_credit s"
  by (cases rule: connection_new_cases [OF assms]) (simp add: send_credit_def conn_blank_def set_space_def)

lemma credit_reach: "conn_reach E su tp s \<Longrightarrow> send_credit s"
  by (erule credit_run.conn_reach_P) (rule connection_new_credit)

section \<open>Properties\<close>

text \<open>C1. Receive-side flow control, in every run of a connection: the connection's total is the sum of
  the high-water marks of its open and retired streams, it does not exceed the limit advertised to the
  peer, and no stream exceeds the limit it was created with, which is never raised. The hypothesis says
  that the window, once per reading of the clock, does not fill the 64-bit range.\<close>

theorem receive_window_respected:
  assumes "conn_reach E su tp s" and "Suc (cn_clock_reads s) * tp_initial_max_data tp < 2 ^ 64"
  shows "cn_recv_total s = cn_retired_recv_consumed s + (\<Sum>e\<leftarrow>cn_streams s. st_recv_high_water (snd e))
    \<and> cn_recv_total s \<le> cn_recv_max_data s
    \<and> (\<forall>e \<in> set (cn_streams s). st_recv_high_water (snd e) \<le> st_recv_limit (snd e)
         \<and> st_recv_limit (snd e) = own_limit (fst e) (cn_local_tp s))"
proof -
  have flow: "recv_flow (tp_initial_max_data tp) s"
    using flow_reach [OF assms(1)] assms(2) by (auto simp: flow_ok_def flow_bound_def)
  then have wf: "om_wf (cn_streams s)" by (simp add: recv_flow_def)
  have "stream_window (own_limit (fst e) (cn_local_tp s)) (snd e)" if "e \<in> set (cn_streams s)" for e
    using flow om_wf_members [OF wf, of "fst e" "snd e"] that by (simp add: recv_flow_def find_stream_def)
  then show ?thesis using flow by (auto simp: recv_flow_def om_sum_def stream_window_def)
qed

theorem receive_window_respected_witness:
  "\<exists>s. conn_reach demo_env demo_setup demo_tp s \<and> cn_streams s \<noteq> []
    \<and> cn_recv_total s \<le> cn_recv_max_data s"
proof -
  obtain s where s: "conn_reach demo_env demo_setup demo_tp s" and n: "cn_streams s \<noteq> []"
    and r: "cn_clock_reads s = 1" using demo_reach by blast
  show ?thesis using receive_window_respected [OF s] s n r by (auto simp: demo_tp_def)
qed

text \<open>C4. Send-side flow control, in every run: the bytes charged to the connection stay within the
  peer's limit, and they cover every byte that any open stream has sent for the first time.\<close>

theorem send_window_respected:
  assumes "conn_reach E su tp s"
  shows "cn_send_total s \<le> cn_send_max_data s
    \<and> (cn_send_max_data s < 2 ^ 64 \<longrightarrow>
         (\<Sum>e\<leftarrow>cn_streams s. st_send_next_offset (snd e)) \<le> cn_send_total s)"
  using credit_reach [OF assms] by (simp add: send_credit_def om_sum_def)

theorem send_window_respected_witness:
  "\<exists>s. conn_reach demo_env demo_setup demo_tp s \<and> cn_streams s \<noteq> []
    \<and> cn_send_total s \<le> cn_send_max_data s"
  using demo_reach send_window_respected by blast

end
