(* ===== verification/ConnClose.thy ===== *)
theory ConnClose
  imports ConnFlow
begin

text \<open>
  Closing: a close is final and the first one wins, a draining connection is silent, and what the code
  does in the state \<open>Closing\<close> while the CONNECTION_CLOSE frame is pending and afterwards. Then the limit on bytes
  sent to an address that is not validated.
\<close>

section \<open>A close is final\<close>

definition closing :: "connection \<Rightarrow> bool" where
  "closing s \<longleftrightarrow> cn_state s \<in> {CClosing, CDraining}"

text \<open>No frame is pending, and \<open>old\<close> has been sent.\<close>

definition closed_after :: "bytes list \<Rightarrow> connection \<Rightarrow> bool" where
  "closed_after old s \<longleftrightarrow> closing s \<and> cn_pending_close s = None \<and> (\<exists>more. cn_out s = old @ more)"

text \<open>The frame \<open>f\<close> is pending, and nothing has been sent after \<open>old\<close>.\<close>

definition held :: "connection_close_frame \<Rightarrow> bytes list \<Rightarrow> connection \<Rightarrow> bool" where
  "held f old s \<longleftrightarrow> closing s \<and> cn_pending_close s = Some f \<and> cn_out s = old"

lemma closed_after_grow:
  assumes "closed_after old s" and "cn_state s' = cn_state s" and "cn_pending_close s' = cn_pending_close s"
    and "cn_out s' = cn_out s @ ds"
  shows "closed_after old s'"
  using assms by (auto simp: closed_after_def closing_def)

lemmas closed_after_frame = closed_after_grow [where ds = "[]", unfolded append_Nil2]

lemma held_frame:
  assumes "held f old s" and "cn_state s' = cn_state s" and "cn_pending_close s' = cn_pending_close s"
    and "cn_out s' = cn_out s"
  shows "held f old s'"
  using assms by (simp add: held_def closing_def)

lemma initiate_close_closing [simp]: "closing s \<Longrightarrow> initiate_close c a r t s = s"
  by (auto simp: closing_def initiate_close_def)

lemma ensure_stream_state:
  assumes "ensure_stream i s = (st, s')"
  shows "cn_state s' = cn_state s" and "cn_pending_close s' = cn_pending_close s" and "cn_out s' = cn_out s"
  using assms by (auto simp: ensure_stream_def put_stream_def Let_def split_beta split: option.splits)

lemma stream_frame_closing:
  assumes "closing s"
  shows "cn_state (on_stream_frame g s) = cn_state s \<and> cn_pending_close (on_stream_frame g s) = cn_pending_close s
    \<and> cn_out (on_stream_frame g s) = cn_out s"
proof (cases rule: on_stream_frame_cases [of g s])
  case (2 st s1 c a r t)
  then show ?thesis using assms ensure_stream_state [OF 2(1)] by (auto simp: closing_def initiate_close_def)
next
  case (3 st s1 st')
  then show ?thesis using ensure_stream_state [OF 3(1)] by (simp add: charge_recv_def put_stream_def)
qed (use assms in simp)

lemma reset_frame_closing:
  assumes "closing s"
  shows "cn_state (on_reset_stream_frame i e n s) = cn_state s
    \<and> cn_pending_close (on_reset_stream_frame i e n s) = cn_pending_close s
    \<and> cn_out (on_reset_stream_frame i e n s) = cn_out s"
proof (cases rule: on_reset_stream_frame_cases [of i e n s])
  case (2 st s1 c a r t)
  then show ?thesis using assms ensure_stream_state [OF 2(1)] by (auto simp: closing_def initiate_close_def)
next
  case (3 st s1 st')
  then show ?thesis using ensure_stream_state [OF 3(1)] by (simp add: charge_recv_def put_stream_def)
qed (use assms in simp)

lemma collect_streams_state:
  assumes "collect_streams l s = Some (sfs, s')"
  shows "cn_state s' = cn_state s" and "cn_pending_close s' = cn_pending_close s" and "cn_out s' = cn_out s"
  using assms by (auto simp: collect_streams_def Let_def split: if_splits bind_splits)

lemma retire_closed_streams_state:
  "cn_state (retire_closed_streams s) = cn_state s"
  "cn_pending_close (retire_closed_streams s) = cn_pending_close s"
  "cn_out (retire_closed_streams s) = cn_out s"
proof -
  have "cn_state (retire_loop rest s) = cn_state s \<and> cn_pending_close (retire_loop rest s) = cn_pending_close s
      \<and> cn_out (retire_loop rest s) = cn_out s"
    for rest s by (induction rest s rule: retire_loop.induct) (auto simp: Let_def)
  then show "cn_state (retire_closed_streams s) = cn_state s"
    "cn_pending_close (retire_closed_streams s) = cn_pending_close s"
    "cn_out (retire_closed_streams s) = cn_out s"
    by (simp_all add: retire_closed_streams_def credit_streams_uni_def credit_streams_bidi_def Let_def)
qed

lemmas state_simps = set_space_def take_pn_def emit_def establish_def put_stream_def Let_def
  refresh_conn_recv_window_def extend_conn_recv_window_def retire_closed_streams_state

interpretation close: conn_base E "closed_after old" for E old
proof unfold_locales
  fix s assume "closed_after old s"
  then show "closed_after old (s\<lparr>cn_state := CDraining\<rparr>)" by (simp add: closed_after_def closing_def)
next
  fix s c a r t assume "closed_after old s"
  then show "closed_after old (initiate_close c a r t s)" by (simp add: closed_after_def)
next
  fix s g assume "closed_after old s"
  then show "closed_after old (on_stream_frame g s)"
    by (rule closed_after_frame) (use \<open>closed_after old s\<close> stream_frame_closing in \<open>auto simp: closed_after_def\<close>)
next
  fix s i e n assume "closed_after old s"
  then show "closed_after old (on_reset_stream_frame i e n s)"
    by (rule closed_after_frame) (use \<open>closed_after old s\<close> reset_frame_closing in \<open>auto simp: closed_after_def\<close>)
qed (erule closed_after_frame; simp add: state_simps)+

interpretation held: conn_base E "held f old" for E f old
proof unfold_locales
  fix s assume "held f old s"
  then show "held f old (s\<lparr>cn_state := CDraining\<rparr>)" by (simp add: held_def closing_def)
next
  fix s c a r t assume "held f old s"
  then show "held f old (initiate_close c a r t s)" by (simp add: held_def)
next
  fix s g assume "held f old s"
  then show "held f old (on_stream_frame g s)"
    by (rule held_frame) (use \<open>held f old s\<close> stream_frame_closing in \<open>auto simp: held_def\<close>)
next
  fix s i e n assume "held f old s"
  then show "held f old (on_reset_stream_frame i e n s)"
    by (rule held_frame) (use \<open>held f old s\<close> reset_frame_closing in \<open>auto simp: held_def\<close>)
qed (erule held_frame; simp add: state_simps)+

interpretation close_send: send_invariant E "closed_after old" for E old
proof unfold_locales
  fix s d assume "closed_after old s"
  then show "closed_after old (emit d s)" by (rule closed_after_grow) (simp_all add: emit_def)
next
  fix s assume "closed_after old s"
  then show "closed_after old (s\<lparr>cn_pending_close := None\<rparr>)" by (simp add: closed_after_def closing_def)
qed (erule closed_after_frame; simp add: state_simps collect_streams_state)+

lemma write_stream_state:
  "cn_state (write_stream i d fin s) = cn_state s"
  "cn_pending_close (write_stream i d fin s) = cn_pending_close s"
  "cn_out (write_stream i d fin s) = cn_out s"
proof -
  obtain st s1 where e: "ensure_stream i s = (st, s1)" by fastforce
  show "cn_state (write_stream i d fin s) = cn_state s"
    "cn_pending_close (write_stream i d fin s) = cn_pending_close s"
    "cn_out (write_stream i d fin s) = cn_out s"
    by (simp_all add: write_stream_def e state_simps ensure_stream_state [OF e])
qed

lemma read_stream_state:
  assumes "read_stream i s = (out, fin, s')"
  shows "cn_state s' = cn_state s" and "cn_pending_close s' = cn_pending_close s" and "cn_out s' = cn_out s"
  using assms by (auto simp: read_stream_def state_simps split: option.splits prod.splits)

interpretation close_run: run_invariant E "closed_after old" for E old
proof unfold_locales
  fix s l b s' assume "closed_after old s" and "build_and_send E l s = Some (b, s')"
  then show "closed_after old s'" by (rule close_send.build_and_send_P)
next
  fix s s' assume "closed_after old s" and "timer_work E s = Some s'"
  then show "closed_after old s'"
    by (rule close.timer_work_P) (erule closed_after_frame; simp add: state_simps)+
next
  fix s i d fin assume "closed_after old s"
  then show "closed_after old (write_stream i d fin s)"
    by (rule closed_after_frame) (simp_all add: write_stream_state)
next
  fix s i out fin s' assume c: "closed_after old s" and r: "read_stream i s = (out, fin, s')"
  show "closed_after old s'" by (rule closed_after_frame [OF c read_stream_state [OF r]])
next
  fix s assume "closed_after old s"
  then show "closed_after old (establish s)" by (auto simp: closed_after_def closing_def establish_def)
qed (erule closed_after_frame; simp add: state_simps)+

section \<open>Sending a pending close\<close>

text \<open>
  What sealing the frame \<open>f\<close> at level \<open>l\<close> of \<open>u\<close>, under the next packet number, gives: the datagram, or
  nothing when the cipher fails. An Initial packet is built in one piece and fails by throwing.
\<close>

definition close_sealed ::
    "env \<Rightarrow> connection_close_frame \<Rightarrow> enc_level \<Rightarrow> connection \<Rightarrow> bytes option \<Rightarrow> bool" where
  "close_sealed E f l u r \<longleftrightarrow> (\<exists>payload v. encode_frame [] (ConnectionCloseFrame f) = Some payload
     \<and> take_pn l u = (sp_next_send_pn (conn_space_of l u), v)
     \<and> (if l = Initial then r \<noteq> None \<and> initial_datagram E payload (sp_next_send_pn (conn_space_of l u)) v = r
        else \<exists>w. seal_packet E l payload (sp_next_send_pn (conn_space_of l u)) v = Some (r, w)))"

definition out_of :: "bytes option \<Rightarrow> bytes list" where
  "out_of r = (case r of None \<Rightarrow> [] | Some d \<Rightarrow> [d])"

abbreviation keys_ready :: "enc_level \<Rightarrow> connection \<Rightarrow> bool" where
  "keys_ready l s \<equiv> sp_send_keys_ready (conn_space_of l s)"

text \<open>The state in which \<open>on_datagram\<close> or \<open>on_timer\<close>, called in \<open>v\<close>, enters its sending loops.\<close>

definition sending_state :: "env \<Rightarrow> connection \<Rightarrow> connection \<Rightarrow> bool" where
  "sending_state E v u \<longleftrightarrow>
     (\<exists>d s1 s2 s3. packet_loop E d 0 (v\<lparr>cn_clock_reads := Suc (cn_clock_reads v),
          cn_last_activity := ev_clock E (cn_clock_reads v),
          cn_recv_bytes_total := uadd (cn_recv_bytes_total v) (length d)\<rparr>) = Some (True, s1)
        \<and> install_new_keys E s1 = Some s2 \<and> install_new_keys E (tls_step E s2) = Some s3
        \<and> u = pull_crypto_from_tls s3)
     \<or> (\<exists>s1. check_idle_timeout E v = Some s1 \<and> timer_work E s1 = Some u)"

lemma seal_packet_keeps:
  assumes "seal_packet E l pl pn s = Some (r, s')"
  shows "cn_state s' = cn_state s" and "cn_pending_close s' = cn_pending_close s" and "cn_out s' = cn_out s"
    and "keys_ready l' s' = keys_ready l' s"
  using assms by (auto simp: seal_packet_def set_space_def Let_def split: option.splits if_splits prod.splits bind_splits)

definition close_done :: "env \<Rightarrow> connection_close_frame \<Rightarrow> connection \<Rightarrow> connection \<Rightarrow> bool" where
  "close_done E f u t \<longleftrightarrow> cn_pending_close t = None \<and> cn_state t = cn_state u
     \<and> (\<forall>l. keys_ready l t = keys_ready l u)
     \<and> (\<exists>r. close_sealed E f (best_level u) u r \<and> cn_out t = cn_out u @ out_of r)"

lemma send_close_done:
  assumes "send_close E (best_level s) f s = Some t"
  shows "close_done E f s t"
proof -
  let ?l = "best_level s"
  obtain payload where pl: "encode_frame [] (ConnectionCloseFrame f) = Some payload"
    using assms by (auto simp: send_close_def split: bind_splits)
  let ?pn = "sp_next_send_pn (conn_space_of ?l s)"
  obtain v where v: "take_pn ?l s = (?pn, v)" by (simp add: take_pn_def Let_def)
  then have k: "cn_state v = cn_state s" "cn_out v = cn_out s" "keys_ready l v = keys_ready l s" for l
    by (auto simp: take_pn_def set_space_def Let_def split: if_splits)
  show ?thesis
  proof (cases "?l = Initial")
    case True
    then obtain d where d: "initial_datagram E payload ?pn v = Some d"
      and t: "t = (emit d v)\<lparr>cn_pending_close := None\<rparr>"
      using assms pl v by (auto simp: send_close_def split: bind_splits)
    have "close_sealed E f ?l s (Some d)" using pl v d True by (simp add: close_sealed_def)
    moreover have "cn_out t = cn_out s @ out_of (Some d)" using k by (simp add: t emit_def out_of_def)
    ultimately show ?thesis unfolding close_done_def using k by (auto simp: t emit_def)
  next
    case False
    then obtain r w where w: "seal_packet E ?l payload ?pn v = Some (r, w)"
      and t: "t = (case r of None \<Rightarrow> w | Some buf \<Rightarrow> emit buf w)\<lparr>cn_pending_close := None\<rparr>"
      using assms pl v by (auto simp: send_close_def split: bind_splits)
    have "close_sealed E f ?l s r" using pl v w False by (auto simp: close_sealed_def)
    moreover have "cn_out t = cn_out s @ out_of r" using k seal_packet_keeps [OF w]
      by (simp add: t emit_def out_of_def split: option.split)
    ultimately show ?thesis unfolding close_done_def using k seal_packet_keeps [OF w]
      by (auto simp: t emit_def split: option.split)
  qed
qed

lemma pending_close_sends:
  assumes "build_and_send E l s = Some (b, t)" and "closing s" and "cn_pending_close s = Some f"
  shows "\<not> b" and "t = s \<or> cn_state s = CClosing \<and> keys_ready l s \<and> l = best_level s \<and> close_done E f s t"
    and "cn_state s = CClosing \<Longrightarrow> keys_ready l s \<Longrightarrow> l = best_level s \<Longrightarrow> close_done E f s t"
    and "l \<noteq> best_level s \<Longrightarrow> t = s"
proof -
  have c: "b = False" "t = s \<or> cn_state s = CClosing \<and> keys_ready l s \<and> send_close E l f s = Some t"
    "cn_state s = CClosing \<Longrightarrow> keys_ready l s \<Longrightarrow> send_close E l f s = Some t"
    using assms by (auto simp: build_and_send_def closing_def split: if_splits)
  moreover have d: "send_close E l f s = Some t \<Longrightarrow> t = s \<or> l = best_level s \<and> close_done E f s t"
    using send_close_done [of E s f t] by (auto simp: send_close_def split: if_splits)
  ultimately show "\<not> b" and "t = s \<or> cn_state s = CClosing \<and> keys_ready l s \<and> l = best_level s \<and> close_done E f s t"
    by auto
  show "cn_state s = CClosing \<Longrightarrow> keys_ready l s \<Longrightarrow> l = best_level s \<Longrightarrow> close_done E f s t"
    using c(3) send_close_done [of E s f t] by auto
  show "l \<noteq> best_level s \<Longrightarrow> t = s" using c d by auto
qed

text \<open>
  A sending loop over one level, as far as a pending close is concerned, and the three levels in their
  order: either nothing happens or the close is sent.
\<close>

definition level_sender :: "env \<Rightarrow> (enc_level \<Rightarrow> connection \<Rightarrow> connection option) \<Rightarrow> bool" where
  "level_sender E snd_level \<longleftrightarrow> (\<forall>l s t. snd_level l s = Some t \<longrightarrow>
     (\<not> keys_ready l s \<longrightarrow> t = s) \<and> (\<forall>f. closing s \<and> cn_pending_close s = Some f \<longrightarrow>
        t = s \<or> cn_state s = CClosing \<and> keys_ready l s \<and> l = best_level s \<and> close_done E f s t))"

lemma three_levels:
  assumes snd: "level_sender E snd_level" and u: "closing u" "cn_pending_close u = Some f"
    and s: "snd_level Initial u = Some a" "snd_level Handshake a = Some b" "snd_level Application b = Some c"
  shows "c = u \<or> cn_state u = CClosing \<and> keys_ready (best_level u) u \<and> close_done E f u c"
proof -
  have idle: "snd_level l s = Some t \<Longrightarrow> \<not> keys_ready l s \<Longrightarrow> t = s" for l s t
    using snd by (simp add: level_sender_def)
  have act: "snd_level l u = Some t \<Longrightarrow>
      t = u \<or> cn_state u = CClosing \<and> keys_ready l u \<and> l = best_level u \<and> close_done E f u t" for l t
    using snd u unfolding level_sender_def by blast
  have off: "close_done E f u t \<Longrightarrow> \<not> keys_ready l u \<Longrightarrow> snd_level l t = Some t' \<Longrightarrow> t' = t" for l t t'
    using idle [of l t t'] by (simp add: close_done_def)
  have app: "b = u \<Longrightarrow> ?thesis" using act [of Application c] s(3) by metis
  have hs: "close_done E f u b \<Longrightarrow> best_level u = Handshake \<Longrightarrow> c = b"
    using off [of b Application c] s(3) by (simp add: best_level_def split: if_splits)
  have ini: "close_done E f u a \<Longrightarrow> best_level u = Initial \<Longrightarrow> c = a"
    using off [of a Handshake b] off [of a Application c] s(2,3) by (simp add: best_level_def split: if_splits)
  show ?thesis using act [OF s(1)] act [of Handshake b] s(2) app hs ini by metis
qed

lemma build_level_idle:
  "\<not> sp_send_keys_ready (conn_space_of l s) \<Longrightarrow> build_and_send E l s = Some (False, s)" for s :: connection
  by (simp add: build_and_send_def)

lemma level_senderI:
  assumes step: "\<And>l s t. snd_level l s = Some t \<Longrightarrow> \<exists>b t'. build_and_send E l s = Some (b, t') \<and> (b \<or> t = t')"
  shows "level_sender E snd_level"
proof -
  have "(\<not> keys_ready l s \<longrightarrow> t = s) \<and> (\<forall>f. closing s \<and> cn_pending_close s = Some f \<longrightarrow>
      t = s \<or> cn_state s = CClosing \<and> keys_ready l s \<and> l = best_level s \<and> close_done E f s t)"
    if sl: "snd_level l s = Some t" for l s t
  proof -
    obtain b t' where b: "build_and_send E l s = Some (b, t')" and t: "b \<or> t = t'" using step [OF sl] by auto
    have "\<not> keys_ready l s \<Longrightarrow> t = s" using build_level_idle [where l = l and s = s and E = E] b t by simp
    moreover have "t = s \<or> cn_state s = CClosing \<and> keys_ready l s \<and> l = best_level s \<and> close_done E f s t"
      if c: "closing s" and p: "cn_pending_close s = Some f" for f
    proof -
      have "t = t'" using pending_close_sends(1) [OF b c p] t by simp
      then show ?thesis using pending_close_sends(2) [OF b c p] by simp
    qed
    ultimately show ?thesis by simp
  qed
  then show ?thesis by (simp add: level_sender_def)
qed

lemma send_up_to_sender: "n = Suc m \<Longrightarrow> level_sender E (\<lambda>l. send_up_to n E l)"
proof (rule level_senderI)
  fix l s t assume n: "n = Suc m" and t: "send_up_to n E l s = Some t"
  then obtain b s' where b: "build_and_send E l s = Some (b, s')" by (cases "build_and_send E l s") auto
  have "b \<or> t = s'" using t by (cases b) (simp_all add: n b)
  with b show "\<exists>b t'. build_and_send E l s = Some (b, t') \<and> (b \<or> t = t')" by metis
qed

lemma send_all_sender: "level_sender E (\<lambda>l s. Option.bind (send_all fuel E l s) id)"
proof (rule level_senderI)
  fix l s t assume t: "Option.bind (send_all fuel E l s) id = Some t"
  then obtain m where n: "fuel = Suc m" by (cases fuel) simp_all
  with t obtain b s' where b: "build_and_send E l s = Some (b, s')" by (cases "build_and_send E l s") auto
  have "b \<or> t = s'" using t by (cases b) (simp_all add: n b)
  with b show "\<exists>b t'. build_and_send E l s = Some (b, t') \<and> (b \<or> t = t')" by metis
qed

text \<open>One operation on a connection with a pending close: it sends nothing, or the close.\<close>

definition close_step :: "env \<Rightarrow> connection_close_frame \<Rightarrow> bytes list \<Rightarrow> connection \<Rightarrow> connection \<Rightarrow> bool" where
  "close_step E f old v v' \<longleftrightarrow> held f old v'
     \<or> (\<exists>u. sending_state E v u \<and> held f old u \<and> cn_state u = CClosing \<and> keys_ready (best_level u) u
          \<and> close_done E f u v')"

lemma establish_closing: "closing s \<Longrightarrow> establish s = s"
  by (auto simp: establish_def closing_def)

lemma close_step_sends:
  assumes "sending_state E v u" and "held f old u" and "level_sender E snd_level"
    and "snd_level Initial u = Some a" and "snd_level Handshake a = Some b" and "snd_level Application b = Some c"
  shows "close_step E f old v (establish c)"
proof -
  have u: "closing u" "cn_pending_close u = Some f" using assms(2) by (simp_all add: held_def)
  have c: "c = u \<or> cn_state u = CClosing \<and> keys_ready (best_level u) u \<and> close_done E f u c"
    by (rule three_levels [OF assms(3) u assms(4-6)])
  then have "closing c" using u(1) by (auto simp: close_done_def closing_def)
  with c show ?thesis using assms(1,2) unfolding close_step_def establish_closing [OF \<open>closing c\<close>] by blast
qed

lemma close_step_datagram:
  assumes "held f old v" and "on_datagram E d v = Some v'"
  shows "close_step E f old v v'"
proof (cases "cn_state v = CDraining")
  case False
  let ?s0 = "v\<lparr>cn_clock_reads := Suc (cn_clock_reads v), cn_last_activity := ev_clock E (cn_clock_reads v),
      cn_recv_bytes_total := uadd (cn_recv_bytes_total v) (length d)\<rparr>"
  have o: "cn_state v \<noteq> CClosed" using assms(1) by (auto simp: held_def closing_def)
  obtain b s1 where s1: "packet_loop E d 0 ?s0 = Some (b, s1)"
    using assms(2) False o by (auto simp: on_datagram_def read_clock_def split: bind_splits)
  have "held f old ?s0" by (rule held_frame [OF assms(1)]) simp_all
  then have h1: "held f old s1" using s1 by (rule held.packet_loop_P)
  show ?thesis
  proof (cases b)
    case True
    then obtain s2 s3 a b c where s: "install_new_keys E s1 = Some s2" "install_new_keys E (tls_step E s2) = Some s3"
      and l: "send_up_to 64 E Initial (pull_crypto_from_tls s3) = Some a"
        "send_up_to 64 E Handshake a = Some b" "send_up_to 64 E Application b = Some c"
      and v': "v' = establish c"
      using assms(2) False o s1 by (auto simp: on_datagram_def read_clock_def split: bind_splits)
    have "held f old s3"
      by (rule held.install_new_keys_P [OF held.tls_step_P [OF held.install_new_keys_P [OF h1 s(1)]] s(2)])
    then have "held f old (pull_crypto_from_tls s3)" by (rule held.pull_crypto_from_tls_P)
    moreover have "sending_state E v (pull_crypto_from_tls s3)"
      unfolding sending_state_def
      by (intro disjI1 exI [of _ d] exI [of _ s1] exI [of _ s2] exI [of _ s3]) (use s1 s True in simp)
    moreover have "level_sender E (\<lambda>l. send_up_to 64 E l)" by (rule send_up_to_sender [where m = 63]) simp
    ultimately show ?thesis unfolding v' using close_step_sends [of E v _ f old "\<lambda>l. send_up_to 64 E l"] l by blast
  next
    case False
    then have "v' = s1" using assms(2) \<open>cn_state v \<noteq> CDraining\<close> o s1
      by (auto simp: on_datagram_def read_clock_def split: bind_splits)
    then show ?thesis using h1 by (simp add: close_step_def)
  qed
qed (use assms in \<open>simp add: on_datagram_def close_step_def\<close>)

lemma close_step_timer:
  assumes "held f old v" and "on_timer fuel E v = Some (Some v')"
  shows "close_step E f old v v'"
proof -
  obtain s1 where s1: "check_idle_timeout E v = Some s1"
    using assms(2) by (auto simp: on_timer_def split: option.splits)
  have h1: "held f old s1" using assms(1) s1 by (rule held.check_idle_timeout_P)
  show ?thesis
  proof (cases "cn_state s1 = CDraining \<or> cn_state s1 = CClosed")
    case False
    then obtain u c where u: "timer_work E s1 = Some u"
      and c: "send_levels fuel E [Initial, Handshake, Application] u = Some (Some c)" and v': "v' = establish c"
      using assms(2) s1 by (auto simp: on_timer_def simp del: send_levels.simps split: option.splits)
    have h: "held f old u"
      by (rule held.timer_work_P [OF h1 u]) (erule held_frame; simp add: state_simps)+
    obtain a b where "send_all fuel E Initial u = Some (Some a)" "send_all fuel E Handshake a = Some (Some b)"
      "send_all fuel E Application b = Some (Some c)" using c by (auto split: option.splits)
    moreover have "sending_state E v u" unfolding sending_state_def using s1 u by blast
    ultimately show ?thesis unfolding v'
      using close_step_sends [OF _ h send_all_sender [of E fuel], of v a b c] by simp
  qed (use assms(2) s1 h1 in \<open>simp add: on_timer_def close_step_def\<close>)
qed

lemma conn_step_close:
  assumes "conn_step E v v'" and "held f old v"
  shows "close_step E f old v v'"
  using assms
proof (induction rule: conn_step.induct)
  case (key_update s b s')
  then have "held f old s'"
    by (auto simp: initiate_key_update_def Let_def split: if_splits bind_splits
        dest!: ratchet_same intro!: held.space space_step_same)
  then show ?case by (simp add: close_step_def)
next
  case (stream_write s i d fin)
  then have "held f old (write_stream i d fin s)" by (rule held_frame) (simp_all add: write_stream_state)
  then show ?case by (simp add: close_step_def)
next
  case (stream_read i s out fin s')
  have "held f old s'" by (rule held_frame [OF stream_read(2) read_stream_state [OF stream_read(1)]])
  then show ?case by (simp add: close_step_def)
next
  case (validated s)
  then have "held f old (mark_peer_address_validated s)"
    by (rule held_frame) (simp_all add: mark_peer_address_validated_def)
  then show ?case by (simp add: close_step_def)
next
  case (close s code app reason ft)
  then have "held f old (close_with_error code app reason ft s)" unfolding close_with_error_def by (rule held.close)
  then show ?case by (simp add: close_step_def)
qed (rule close_step_datagram close_step_timer, assumption+)+

text \<open>The close has gone out on the way from \<open>s\<close> to \<open>s'\<close>.\<close>

definition close_went_out :: "env \<Rightarrow> connection_close_frame \<Rightarrow> connection \<Rightarrow> connection \<Rightarrow> bool" where
  "close_went_out E f s s' \<longleftrightarrow> (\<exists>v u r. (conn_step E)\<^sup>*\<^sup>* s v \<and> sending_state E v u \<and> cn_state u = CClosing \<and> cn_pending_close u = Some f
        \<and> keys_ready (best_level u) u \<and> close_sealed E f (best_level u) u r
        \<and> closed_after (cn_out s @ out_of r) s')"

lemma close_run_cases:
  assumes "(conn_step E)\<^sup>*\<^sup>* s s'" and "held f (cn_out s) s"
  shows "held f (cn_out s) s' \<or> close_went_out E f s s'"
  using assms(1)
proof (induction rule: rtranclp_induct)
  case (step v v')
  consider "held f (cn_out s) v" | "close_went_out E f s v" using step.IH by blast
  then show ?case
  proof cases
    case 1
    consider "held f (cn_out s) v'" | u where "sending_state E v u" "held f (cn_out s) u" "cn_state u = CClosing"
      "keys_ready (best_level u) u" "close_done E f u v'"
      using conn_step_close [OF step.hyps(2) 1] unfolding close_step_def by blast
    then show ?thesis
    proof cases
      case (2 u)
      then obtain r where r: "close_sealed E f (best_level u) u r" "cn_out v' = cn_out s @ out_of r"
        by (auto simp: close_done_def held_def)
      have "cn_pending_close u = Some f" using 2(2) by (simp add: held_def)
      moreover have "closed_after (cn_out s @ out_of r) v'"
        using 2(3,5) r(2) by (simp add: closed_after_def close_done_def closing_def)
      ultimately show ?thesis unfolding close_went_out_def using step.hyps(1) 2 r(1) by blast
    qed simp
  next
    case 2
    then obtain u w r where w: "(conn_step E)\<^sup>*\<^sup>* s w" "sending_state E w u" "cn_state u = CClosing"
      "cn_pending_close u = Some f" "keys_ready (best_level u) u" "close_sealed E f (best_level u) u r"
      and c: "closed_after (cn_out s @ out_of r) v" by (auto simp: close_went_out_def)
    have "closed_after (cn_out s @ out_of r) v'" by (rule close_run.conn_step_P [OF step.hyps(2) c])
    with w show ?thesis unfolding close_went_out_def by blast
  qed
qed (use assms(2) in simp)

lemma draining_step:
  assumes "conn_step E s s'" and "cn_state s = CDraining"
  shows "cn_state s' = CDraining \<and> cn_out s' = cn_out s"
  using assms
proof (induction rule: conn_step.induct)
  case (stream_write s i d fin)
  obtain st s1 where e: "ensure_stream i s = (st, s1)" by fastforce
  then have "cn_out s1 = cn_out s"
    by (auto simp: ensure_stream_def put_stream_def Let_def split_beta split: option.splits)
  then show ?case using stream_write ensure_stream_state [OF e] by (simp add: write_stream_def e put_stream_def)
qed (auto simp: on_datagram_def on_timer_def check_idle_timeout_def read_stream_def put_stream_def
    mark_peer_address_validated_def close_with_error_def initiate_close_def initiate_key_update_def
    set_space_def Let_def split: option.splits prod.splits if_splits bind_splits)

section \<open>Sending in the state Closing\<close>

text \<open>No step of packet construction looks at the connection's state.\<close>

abbreviation with_state :: "conn_state \<Rightarrow> connection \<Rightarrow> connection" where
  "with_state c s \<equiv> s\<lparr>cn_state := c\<rparr>"

lemma collect_streams_with_state:
  "collect_streams l (with_state c s) = map_option (map_prod id (with_state c)) (collect_streams l s)"
  by (auto simp: collect_streams_def Let_def peer_transport_params_def split: option.splits bind_splits)

lemma collect_control_with_state:
  "collect_control l (with_state c s) = map_prod id (with_state c) (collect_control l s)"
  by (simp add: collect_control_def)

lemma set_space_with_state: "set_space l sp (with_state c s) = with_state c (set_space l sp s)"
  by (simp add: set_space_def)

lemma collect_content_with_state:
  "collect_content l (with_state c s) = map_option (map_prod id (with_state c)) (collect_content l s)"
proof -
  let ?s0 = "s\<lparr>cn_crypto_pending := (cn_crypto_pending s)(l := [])\<rparr>"
  have c0: "with_state c s\<lparr>cn_crypto_pending := (cn_crypto_pending (with_state c s))(l := [])\<rparr>
      = with_state c ?s0" by simp
  show ?thesis
  proof (cases "collect_streams l ?s0")
    case None
    then have "collect_streams l (with_state c ?s0) = None" by (simp only: collect_streams_with_state) simp
    with None show ?thesis unfolding collect_content_def Let_def c0 by simp
  next
    case (Some r)
    obtain sfs s1 where r: "r = (sfs, s1)" by (cases r)
    have "collect_streams l (with_state c ?s0) = Some (sfs, with_state c s1)"
      using Some by (simp only: collect_streams_with_state) (simp add: r)
    with Some show ?thesis unfolding collect_content_def Let_def c0
      by (simp add: collect_control_def set_space_def r split: prod.split)
  qed
qed

lemma take_pn_with_state: "take_pn l (with_state c s) = map_prod id (with_state c) (take_pn l s)"
  by (simp add: take_pn_def set_space_def Let_def)

lemma seal_packet_with_state:
  "seal_packet E l pl pn (with_state c s) = map_option (map_prod id (with_state c)) (seal_packet E l pl pn s)"
proof -
  have h: "packet_header l n (with_state c s) = packet_header l n s" for n
    by (simp add: packet_header_def Let_def)
  show ?thesis
    unfolding seal_packet_def h
    by (auto simp: set_space_def Let_def split: option.split prod.split bind_splits)
qed

lemma track_sent_with_state: "track_sent E l pn a n x (with_state c s) = with_state c (track_sent E l pn a n x s)"
  by (simp add: track_sent_def read_clock_def set_space_def Let_def)

lemma emit_with_state: "emit d (with_state c s) = with_state c (emit d s)"
  by (simp add: emit_def)

lemma send_initial_with_state:
  "send_initial E x pl pn (with_state c s) = map_option (map_prod id (with_state c)) (send_initial E x pl pn s)"
proof -
  have "initial_datagram E pl pn (with_state c s) = initial_datagram E pl pn s"
    by (simp add: initial_datagram_def Let_def)
  then show ?thesis
    by (simp add: send_initial_def track_sent_with_state emit_with_state Let_def split: bind_splits)
qed

lemma send_protected_with_state:
  "send_protected E l x pl pn (with_state c s)
    = map_option (map_prod id (with_state c)) (send_protected E l x pl pn s)"
proof (cases "seal_packet E l pl pn s")
  case (Some r)
  then show ?thesis
    by (cases r; cases "fst r")
      (simp_all add: send_protected_def seal_packet_with_state track_sent_with_state emit_def Let_def)
qed (simp add: send_protected_def seal_packet_with_state)

lemma build_and_send_with_state:
  assumes "cn_pending_close s = None" and "cn_state s \<noteq> CDraining" and "cn_state s \<noteq> CClosed"
    and "c \<noteq> CDraining" and "c \<noteq> CClosed"
  shows "build_and_send E l (with_state c s) = map_option (map_prod id (with_state c)) (build_and_send E l s)"
proof (cases "collect_content l s")
  case None
  then show ?thesis
    using assms by (simp add: build_and_send_def collect_content_with_state amplification_blocked_def)
next
  case (Some r)
  obtain x s1 where r: "r = (x, s1)" by (cases r)
  obtain pn s2 where p: "take_pn l s1 = (pn, s2)" by fastforce
  show ?thesis
    using assms Some
    by (cases "content_payload x")
      (simp_all add: build_and_send_def collect_content_with_state amplification_blocked_def r p
        take_pn_with_state send_initial_with_state send_protected_with_state)
qed

section \<open>Properties\<close>

text \<open>C6. A close is final, the first one wins, and its packet is the next one sent. From a closing
  connection whose pending frame is \<open>f\<close>, every later state is closing or draining. As long as \<open>f\<close> is pending
  no datagram is sent. Once it is not, an operation of the run has entered its sending loops with \<open>f\<close>
  pending and send keys, and the first datagram sent since is the packet with \<open>f\<close> at the best level, under
  the next packet number there. And in each later state in which \<open>f\<close> is pending and the connection not
  draining, a call of \<open>build_and_send\<close> at the best level sends that packet and clears the frame, one at
  another level does nothing. The exception is the code's own: a Handshake or 1-RTT packet that the cipher
  fails to seal is not sent, and the frame is cleared all the same (\<open>close_sealed\<close> gives \<open>None\<close>).\<close>

theorem first_close_wins:
  assumes "(conn_step E)\<^sup>*\<^sup>* s s'" and "cn_state s = CClosing" and "cn_pending_close s = Some f"
  shows "cn_state s' \<in> {CClosing, CDraining} \<and> cn_pending_close s' \<in> {None, Some f}
    \<and> (cn_pending_close s' = Some f \<longrightarrow> cn_out s' = cn_out s)
    \<and> (cn_pending_close s' = None \<longrightarrow>
        (\<exists>v u r later. (conn_step E)\<^sup>*\<^sup>* s v \<and> sending_state E v u \<and> cn_state u = CClosing
          \<and> cn_pending_close u = Some f \<and> sp_send_keys_ready (conn_space_of (best_level u) u)
          \<and> close_sealed E f (best_level u) u r \<and> cn_out s' = cn_out s @ out_of r @ later))
    \<and> (cn_state s' = CClosing \<and> cn_pending_close s' = Some f \<longrightarrow>
        (\<forall>l b t. sp_send_keys_ready (conn_space_of l s') \<and> build_and_send E l s' = Some (b, t) \<longrightarrow>
          \<not> b \<and> (if l \<noteq> best_level s' then t = s'
            else cn_pending_close t = None
              \<and> (\<exists>r. close_sealed E f l s' r \<and> cn_out t = cn_out s' @ out_of r))))"
proof -
  have "held f (cn_out s) s" using assms(2,3) by (simp add: held_def closing_def)
  then have run: "held f (cn_out s) s' \<or> close_went_out E f s s'" by (rule close_run_cases [OF assms(1)])
  then have "closing s'" by (auto simp: held_def close_went_out_def closed_after_def)
  have "\<not> b \<and> (if l \<noteq> best_level s' then t = s' else cn_pending_close t = None
      \<and> (\<exists>r. close_sealed E f l s' r \<and> cn_out t = cn_out s' @ out_of r))"
    if "cn_state s' = CClosing" "cn_pending_close s' = Some f" "keys_ready l s'"
      "build_and_send E l s' = Some (b, t)" for l b t
    using pending_close_sends [OF that(4) \<open>closing s'\<close> that(2)] that(1,3) by (auto simp: close_done_def)
  then have calls: "cn_state s' = CClosing \<and> cn_pending_close s' = Some f \<longrightarrow>
      (\<forall>l b t. keys_ready l s' \<and> build_and_send E l s' = Some (b, t) \<longrightarrow>
        \<not> b \<and> (if l \<noteq> best_level s' then t = s' else cn_pending_close t = None
          \<and> (\<exists>r. close_sealed E f l s' r \<and> cn_out t = cn_out s' @ out_of r)))" by blast
  have st: "cn_state s' \<in> {CClosing, CDraining}" using \<open>closing s'\<close> by (simp add: closing_def)
  show ?thesis
  proof (cases "held f (cn_out s) s'")
    case True
    then have "cn_pending_close s' = Some f" "cn_out s' = cn_out s" by (simp_all add: held_def)
    with st calls show ?thesis by simp
  next
    case False
    then obtain v u r later where w: "(conn_step E)\<^sup>*\<^sup>* s v" "sending_state E v u" "cn_state u = CClosing"
      "cn_pending_close u = Some f" "keys_ready (best_level u) u" "close_sealed E f (best_level u) u r"
      "cn_out s' = cn_out s @ out_of r @ later" and n: "cn_pending_close s' = None"
      using run by (auto simp: close_went_out_def closed_after_def)
    show ?thesis unfolding n using st w by (simp del: split_paired_Ex) blast
  qed
qed

lemma demo_keys_ok: "derive_packet_keys demo_lib a sec = Some keys \<Longrightarrow> keys_ok a keys"
  by (cases a)
    (auto simp: derive_packet_keys_def aead_iv_length_def aead_hp_length_def keys_ok_def demo_kdf
      split: bind_splits if_splits)

theorem first_close_wins_witness:
  "\<exists>s t d. cn_state s = CClosing \<and> build_and_send demo_env Initial s = Some (False, t)
    \<and> cn_out t = cn_out s @ [d] \<and> cn_pending_close t = None
    \<and> cn_pending_close (close_with_error 9 False ''y'' 0 s) = Some \<lparr>cc_application = True,
        cc_error_code = 7, cc_frame_type = 0, cc_reason = bytes_of_string ''x''\<rparr>"
proof -
  obtain s0 where s0: "connection_new demo_env demo_setup [1] [2] [3] demo_tp = Some s0" using demo_new by blast
  let ?s = "close_with_error 7 True ''x'' 0 s0"
  let ?f = "\<lparr>cc_application = True, cc_error_code = 7, cc_frame_type = 0, cc_reason = bytes_of_string ''x''\<rparr>"
  obtain sp where sp: "initial_space demo_lib [1] = Some sp" and s0_sp: "conn_space_of Initial s0 = sp"
    and st: "cn_state s0 = CHandshaking" and id: "cn_dcid s0 = [2]" "cn_scid s0 = [3]"
    and ns: "\<not> sp_send_keys_ready (conn_space_of Handshake s0)"
      "\<not> sp_send_keys_ready (conn_space_of Application s0)"
    by (cases rule: connection_new_cases [OF s0])
      (auto simp: set_space_def conn_blank_def demo_env_def space_init_def)
  have c: "cn_state ?s = CClosing" and p: "cn_pending_close ?s = Some ?f"
    and fs: "conn_space_of l ?s = conn_space_of l s0" "cn_dcid ?s = [2]" "cn_scid ?s = [3]" for l
    using st id by (simp_all add: close_with_error_def initiate_close_def)
  have rdy: "sp_send_keys_ready sp" "sp_aead sp = Aes128Gcm" and ko: "keys_ok Aes128Gcm (sp_send_keys sp)"
    using sp demo_keys_ok by (auto simp: initial_space_def split: bind_splits)
  have best: "best_level ?s = Initial" using ns by (simp add: best_level_def fs)
  obtain t where t: "build_and_send demo_env Initial ?s = Some (False, t)"
  proof -
    obtain payload where pl: "encode_frame [] (ConnectionCloseFrame ?f) = Some payload" "length payload < 2 ^ 30"
      using encode_frame_wire [of "ConnectionCloseFrame ?f" "[]"]
      by (simp add: bytes_of_string_def kMax_eq vbytes_1 FT_defs)
    obtain v where v: "take_pn Initial ?s = (sp_next_send_pn sp, v)" "cn_dcid v = [2]" "cn_scid v = [3]"
      "sp_aead (conn_space_of Initial v) = Aes128Gcm" "sp_send_keys (conn_space_of Initial v) = sp_send_keys sp"
      using rdy by (simp add: take_pn_def set_space_def fs s0_sp Let_def)
    obtain d where "initial_datagram demo_env payload (sp_next_send_pn sp) v = Some d"
      using build_initial_eq [OF demo_documented ko, of "[2]" "[3]" "[]" payload] pl
      by (auto simp: initial_datagram_def v demo_env_def Let_def)
    with that show thesis
      using c p best pl rdy by (simp add: build_and_send_def send_close_def v fs s0_sp)
  qed
  have "(conn_step demo_env)\<^sup>*\<^sup>* ?s ?s" by simp
  note w = first_close_wins [OF this c p]
  have k: "sp_send_keys_ready (conn_space_of Initial ?s)" using rdy by (simp only: fs s0_sp)
  from w c p k t best have "cn_pending_close t = None
      \<and> (\<exists>r. close_sealed demo_env ?f Initial ?s r \<and> cn_out t = cn_out ?s @ out_of r)" by metis
  then obtain d where o: "cn_pending_close t = None" "cn_out t = cn_out ?s @ [d]"
    by (auto simp: close_sealed_def out_of_def)
  have "cn_pending_close (close_with_error 9 False ''y'' 0 ?s) = Some ?f"
    using p c unfolding close_with_error_def by (simp add: closing_def)
  with c t o show ?thesis by blast
qed

text \<open>C8. A draining connection is silent and stays so: no operation sends a datagram or leaves the
  state.\<close>

theorem draining_is_silent:
  assumes "(conn_step E)\<^sup>*\<^sup>* s s'" and "cn_state s = CDraining"
  shows "cn_state s' = CDraining \<and> cn_out s' = cn_out s"
  using assms by (induction rule: rtranclp_induct) (auto dest: draining_step)

theorem draining_is_silent_witness:
  "\<exists>s. cn_state s = CDraining
    \<and> cn_out (write_stream 0 [1] True (mark_peer_address_validated s)) = cn_out s"
proof -
  obtain s0 where "connection_new demo_env demo_setup [1] [2] [3] demo_tp = Some s0" using demo_new by blast
  let ?s = "s0\<lparr>cn_state := CDraining\<rparr>"
  have "(conn_step demo_env)\<^sup>*\<^sup>* ?s (write_stream 0 [1] True (mark_peer_address_validated ?s))"
    by (rule rtranclp.rtrancl_into_rtrancl [OF r_into_rtranclp])
      (rule conn_step.validated conn_step.stream_write)+
  from draining_is_silent [OF this] show ?thesis by (intro exI [of _ ?s]) simp
qed

text \<open>C7. In the state \<open>Closing\<close>, once no CONNECTION_CLOSE frame is pending any more, \<open>build_and_send\<close>
  does exactly what it does on an established connection: it goes on sending packets, with stream data.\<close>

theorem closing_sends_like_established:
  assumes "cn_state s = CClosing" and "cn_pending_close s = None"
  shows "build_and_send E l s = map_option (map_prod id (\<lambda>s. s\<lparr>cn_state := CClosing\<rparr>))
    (build_and_send E l (s\<lparr>cn_state := CEstablished\<rparr>))"
proof -
  have "s\<lparr>cn_state := CEstablished\<rparr>\<lparr>cn_state := CClosing\<rparr> = s" using assms(1) by (cases s) simp
  with build_and_send_with_state [of "s\<lparr>cn_state := CEstablished\<rparr>" CClosing E l] assms(2)
  show ?thesis by simp
qed

theorem closing_sends_like_established_witness:
  "\<exists>s. cn_state s = CClosing \<and> build_and_send demo_env Initial s =
    map_option (map_prod id (\<lambda>s. s\<lparr>cn_state := CClosing\<rparr>))
      (build_and_send demo_env Initial (s\<lparr>cn_state := CEstablished\<rparr>))"
proof -
  obtain s0 where s0: "connection_new demo_env demo_setup [1] [2] [3] demo_tp = Some s0" using demo_new by blast
  have "cn_pending_close s0 = None"
    by (cases rule: connection_new_cases [OF s0]) (simp add: set_space_def conn_blank_def)
  then show ?thesis
    by (intro exI [of _ "s0\<lparr>cn_state := CClosing, cn_crypto_pending := (\<lambda>_. [(0, [1, 2])])\<rparr>"])
      (simp add: closing_sends_like_established)
qed

end
