(* ===== verification/ConnWire.thy ===== *)
theory ConnWire
  imports ConnClose
begin

text \<open>
  Packets of a datagram at the level of bytes: what a coalesced packet with version zero does to
  \<open>process_long_packet\<close>.
\<close>

lemma parse_empty_initial:
  "parse_long_header ([0xC0, 0, 0, 0, 1, 0, 0, 0, 0] @ rest) 0 long_header_init =
     Some (long_header_init\<lparr>lh_version := 1, lh_pn_offset := 9, lh_packet_len := 9\<rparr>, 9)"
  by (simp add: parse_long_header_def parse_long_rest_def read_cid_def read_version_def long_header_init_def
      packet_consts long_type_of_def varint_decode_def varint_eval Let_def)

lemma parse_version_zero:
  assumes "length pre = n"
  shows "parse_long_header (pre @ [0xC0, 0, 0, 0, 0, 0, 0] @ rest) n long_header_init =
     Some (long_header_init\<lparr>lh_packet_len := 7 + length rest\<rparr>, n + 7 + length rest)"
  using assms
  by (simp add: parse_long_header_def parse_long_rest_def read_cid_def read_version_def long_header_init_def
      packet_consts long_type_of_def nth_append Let_def)

text \<open>An empty Initial packet followed by a packet with version zero.\<close>

definition zero_version_datagram :: "bytes \<Rightarrow> bytes" where
  "zero_version_datagram rest = [0xC0, 0, 0, 0, 1, 0, 0, 0, 0] @ [0xC0, 0, 0, 0, 0, 0, 0] @ rest"

lemma first_packet_skipped:
  assumes "sp_recv_keys_ready (conn_space_of Initial s)"
  shows "process_long_packet E ([0xC0, 0, 0, 0, 1, 0, 0, 0, 0] @ rest) 0 s = Some (s, 9, 9)"
  using assms
  by (simp only: process_long_packet_def parse_empty_initial)
    (simp add: long_header_init_def unprotect_long_def kSampleLen_def)

lemma second_packet_undefined:
  assumes "sp_recv_keys_ready (conn_space_of Initial s)" and "4 \<le> length rest" and "length rest \<le> 65535"
  shows "process_long_packet E (zero_version_datagram rest) 9 s = None"
proof -
  have "usub 0 9 = 2 ^ 64 - 9" by (simp add: usub_def)
  moreover have "uadd (uadd (2 ^ 64 - 9) 4) kSampleLen = 11" by (simp add: uadd_def kSampleLen_def)
  ultimately show ?thesis
    using assms parse_version_zero [of "[0xC0, 0, 0, 0, 1, 0, 0, 0, 0]" 9 rest]
    by (simp add: process_long_packet_def zero_version_datagram_def long_header_init_def unprotect_long_def Let_def)
qed

section \<open>Properties\<close>

text \<open>C3. A datagram that holds an empty Initial packet and behind it a long-header packet with version
  zero makes \<open>on_datagram\<close> leave the bounds of the second packet: \<open>pn_offset\<close> is zero for such a packet,
  the subtraction of the packet's start wraps, the sum in the guard wraps back, and the sample is read
  and the header is unmasked before the beginning of the buffer.\<close>

theorem version_zero_out_of_bounds:
  assumes "sp_recv_keys_ready (conn_space_of Initial s)" and "4 \<le> length rest" and "length rest \<le> 65535"
    and "cn_state s \<noteq> CClosed" and "cn_state s \<noteq> CDraining"
  shows "on_datagram E (zero_version_datagram rest) s = None"
proof -
  let ?s = "s\<lparr>cn_clock_reads := Suc (cn_clock_reads s), cn_last_activity := ev_clock E (cn_clock_reads s),
      cn_recv_bytes_total := uadd (cn_recv_bytes_total s) (length (zero_version_datagram rest))\<rparr>"
  let ?d = "zero_version_datagram rest"
  have keys: "sp_recv_keys_ready (conn_space_of Initial ?s)" using assms(1) by simp
  have "packet_loop E ?d 9 ?s = None"
    by (subst packet_loop.simps) (simp add: second_packet_undefined [OF keys assms(2,3)], simp add: zero_version_datagram_def)
  then have "packet_loop E ?d 0 ?s = None"
    using first_packet_skipped [OF keys, of E "[0xC0, 0, 0, 0, 0, 0, 0] @ rest"]
    by (subst packet_loop.simps) (simp add: zero_version_datagram_def)
  then show ?thesis using assms(4,5) by (simp add: on_datagram_def read_clock_def)
qed

theorem version_zero_out_of_bounds_witness:
  "\<exists>s. connection_new demo_env demo_setup [1] [2] [3] demo_tp = Some s
    \<and> on_datagram demo_env (zero_version_datagram [0, 0, 0, 0]) s = None"
proof -
  obtain s where s: "connection_new demo_env demo_setup [1] [2] [3] demo_tp = Some s" using demo_new by blast
  obtain tls sp where c: "s = set_space Initial sp ((conn_blank [1] [2] [3] tls (finalize_tp demo_tp [1] [3]))
       \<lparr>cn_clock_reads := 1, cn_last_activity := ev_clock demo_env 0,
        cn_recv_max_data := tp_initial_max_data demo_tp,
        cn_local_max_streams_bidi := tp_initial_max_streams_bidi demo_tp,
        cn_local_max_streams_uni := tp_initial_max_streams_uni demo_tp\<rparr>)"
    and sp: "initial_space (ev_lib demo_env) [1] = Some sp" by (rule connection_new_cases [OF s])
  have "sp_recv_keys_ready sp" using sp by (auto simp: initial_space_def Let_def split: bind_splits)
  then show ?thesis using version_zero_out_of_bounds [of s "[0, 0, 0, 0]"] s
    by (simp add: c set_space_def conn_blank_def)
qed

end
