(* ===== verification/ConnAmp.thy ===== *)
theory ConnAmp
  imports ConnClose
begin

text \<open>
  The limit on bytes sent to an address that is not validated: three times the bytes received. It holds
  for as long as no datagram exceeds the estimate of 1500 bytes that the guard uses, apart from the one
  CONNECTION_CLOSE packet, which is not guarded.
\<close>

section \<open>What one call of build\_and\_send emits\<close>

definition wire_view :: "connection \<Rightarrow>
    bytes list \<times> nat \<times> bool \<times> nat \<times> conn_state \<times> connection_close_frame option" where
  "wire_view s = (cn_out s, cn_sent_bytes_unvalidated s, cn_peer_address_validated s,
     cn_recv_bytes_total s, cn_state s, cn_pending_close s)"

lemma collect_streams_view: "collect_streams l s = Some (sfs, s') \<Longrightarrow> wire_view s' = wire_view s"
  by (auto simp: collect_streams_def wire_view_def Let_def split: if_splits bind_splits)

interpretation view: packing_invariant E "\<lambda>s. wire_view s = v" for E v
  by unfold_locales
    (auto simp: wire_view_def set_space_def take_pn_def Let_def
      dest: collect_streams_view [unfolded wire_view_def])

text \<open>Either nothing the peer can see happens, or one datagram leaves.\<close>

definition emits :: "connection \<Rightarrow> bytes \<Rightarrow> connection \<Rightarrow> bool" where
  "emits s d s' \<longleftrightarrow> cn_out s' = cn_out s @ [d]
     \<and> cn_sent_bytes_unvalidated s' = (if cn_peer_address_validated s then cn_sent_bytes_unvalidated s
         else uadd (cn_sent_bytes_unvalidated s) (length d))
     \<and> cn_peer_address_validated s' = cn_peer_address_validated s
     \<and> cn_recv_bytes_total s' = cn_recv_bytes_total s \<and> cn_state s' = cn_state s"

lemma emit_emits:
  "wire_view s1 = wire_view s \<Longrightarrow> emits s d (emit d s1) \<and> cn_pending_close (emit d s1) = cn_pending_close s"
  by (auto simp: emits_def emit_def wire_view_def)

lemma emits_frame:
  "emits s d s' \<Longrightarrow> emits s d (s'\<lparr>cn_pending_close := p\<rparr>)"
  "emits s d s' \<Longrightarrow> emits s d (s'\<lparr>cn_sent_handshake_done := b\<rparr>)"
  by (simp_all add: emits_def)

lemma send_close_emits:
  assumes "send_close E l f s = Some s'"
  shows "wire_view s' = wire_view s \<or> wire_view s' = wire_view (s\<lparr>cn_pending_close := None\<rparr>)
    \<or> (\<exists>d. emits s d s' \<and> cn_pending_close s' = None)"
proof (cases "l = best_level s")
  case True
  obtain pn s1 where t: "take_pn l s = (pn, s1)" by fastforce
  have v: "wire_view s1 = wire_view s" by (rule view.take_pn_P [OF refl t])
  show ?thesis
  proof (cases "l = Initial")
    case i: True
    obtain d where "s' = (emit d s1)\<lparr>cn_pending_close := None\<rparr>"
      using assms True i t by (auto simp: send_close_def split: bind_splits)
    then show ?thesis using emit_emits [OF v, of d] by (auto intro: emits_frame)
  next
    case False
    obtain pl r s2 where p: "seal_packet E l pl pn s1 = Some (r, s2)"
      and s': "s' = (case r of None \<Rightarrow> s2 | Some buf \<Rightarrow> emit buf s2)\<lparr>cn_pending_close := None\<rparr>"
      using assms True False t by (auto simp: send_close_def split: bind_splits)
    have v2: "wire_view s2 = wire_view s" using view.seal_packet_P [OF v p] by simp
    show ?thesis
    proof (cases r)
      case None
      then show ?thesis using v2 by (simp add: s' wire_view_def)
    next
      case (Some buf)
      then show ?thesis using emit_emits [OF v2, of buf] by (auto simp: s' intro: emits_frame)
    qed
  qed
qed (use assms in \<open>simp add: send_close_def\<close>)

lemma send_content_emits:
  assumes "collect_content l s = Some (c, s1)" and "take_pn l s1 = (pn, s2)"
    and "(if l = Initial then send_initial E c pl pn s2 else send_protected E l c pl pn s2) = Some (b, s')"
  shows "wire_view s' = wire_view s \<or> (\<exists>d. emits s d s' \<and> cn_pending_close s' = cn_pending_close s)"
proof -
  have v: "wire_view s2 = wire_view s"
    by (rule view.take_pn_P [OF view.collect_content_P [OF refl assms(1)] assms(2)])
  show ?thesis
  proof (cases "l = Initial")
    case True
    then obtain d a n where s': "s' = emit d (track_sent E Initial pn a n c s2)"
      using assms(3) by (auto simp: send_initial_def split: bind_splits)
    have "wire_view (track_sent E Initial pn a n c s2) = wire_view s" using v by (rule view.track_sent_P)
    then show ?thesis unfolding s' using emit_emits by blast
  next
    case False
    obtain r s3 where p: "seal_packet E l pl pn s2 = Some (r, s3)"
      using assms(3) False by (auto simp: send_protected_def split: bind_splits)
    have v3: "wire_view s3 = wire_view s" using view.seal_packet_P [OF v p] by simp
    show ?thesis
    proof (cases r)
      case (Some buf)
      let ?done = "\<lambda>t. if pc_include_hs_done c then t\<lparr>cn_sent_handshake_done := True\<rparr> else t"
      obtain a n where s': "s' = emit buf (?done (track_sent E l pn a n c s3))"
        using assms(3) False p Some by (simp add: send_protected_def Let_def) metis
      have "wire_view (track_sent E l pn a n c s3) = wire_view s" using v3 by (rule view.track_sent_P)
      then have "wire_view (?done (track_sent E l pn a n c s3)) = wire_view s"
        by (simp add: wire_view_def)
      then show ?thesis unfolding s' using emit_emits by blast
    qed (use assms(3) False p v3 in \<open>simp add: send_protected_def\<close>)
  qed
qed

lemma build_and_send_emits:
  assumes "build_and_send E l s = Some (b, s')"
  obtains "wire_view s' = wire_view s"
  | "cn_pending_close s \<noteq> None" "wire_view s' = wire_view (s\<lparr>cn_pending_close := None\<rparr>)"
  | d where "cn_pending_close s \<noteq> None" "emits s d s'" "cn_pending_close s' = None"
  | d where "cn_pending_close s = None" "\<not> amplification_blocked s" "emits s d s'"
      "cn_pending_close s' = None"
proof (cases "sp_send_keys_ready (conn_space_of l s) \<and> cn_state s \<noteq> CDraining \<and> cn_state s \<noteq> CClosed")
  case False
  then show ?thesis using assms that(1) by (auto simp: build_and_send_def split: if_splits)
next
  case True
  show ?thesis
  proof (cases "cn_pending_close s")
    case (Some f)
    then have "send_close E l f s = Some s'" using assms True by (auto simp: build_and_send_def)
    then show ?thesis using send_close_emits that(1-3) Some by blast
  next
    case None
    show ?thesis
    proof (cases "amplification_blocked s")
      case False
      obtain c s1 where s1: "collect_content l s = Some (c, s1)"
        using assms True None False by (auto simp: build_and_send_def split: bind_splits)
      show ?thesis
      proof (cases "content_empty c")
        case True2: True
        have "s' = s1" using assms True None False s1 True2 by (simp add: build_and_send_def)
        then show ?thesis using that(1) view.collect_content_P [OF refl s1] by simp
      next
        case ne: False
        obtain pn s2 where s2: "take_pn l s1 = (pn, s2)" by fastforce
        obtain pl where "(if l = Initial then send_initial E c pl pn s2 else send_protected E l c pl pn s2)
            = Some (b, s')"
          using assms True None False s1 s2 ne by (auto simp: build_and_send_def split: bind_splits)
        from send_content_emits [OF s1 s2 this] show ?thesis using that(1,4) None False by auto
      qed
    qed (use assms True None that(1) in \<open>simp add: build_and_send_def\<close>)
  qed
qed

section \<open>The limit\<close>

definition close_allowance :: "connection \<Rightarrow> nat" where
  "close_allowance s = (if closing s \<and> cn_pending_close s = None then kMaxDatagramEstimate else 0)"

definition amp_ok :: "connection \<Rightarrow> bool" where
  "amp_ok s \<longleftrightarrow> (cn_pending_close s \<noteq> None \<longrightarrow> closing s) \<and>
     (\<not> cn_peer_address_validated s \<and> 3 * cn_recv_bytes_total s + 3000 < 2 ^ 64
        \<and> (\<forall>d \<in> set (cn_out s). length d \<le> kMaxDatagramEstimate) \<longrightarrow>
      cn_sent_bytes_unvalidated s = (\<Sum>d\<leftarrow>cn_out s. length d)
      \<and> cn_sent_bytes_unvalidated s \<le> 3 * cn_recv_bytes_total s + close_allowance s)"

lemma amp_ok_view: "amp_ok s \<Longrightarrow> wire_view s' = wire_view s \<Longrightarrow> amp_ok s'"
  by (auto simp: amp_ok_def wire_view_def closing_def close_allowance_def)

lemma amp_ok_close: "amp_ok s \<Longrightarrow> amp_ok (initiate_close c a r t s)"
  by (auto simp: amp_ok_def initiate_close_def closing_def close_allowance_def)

lemma amp_ok_emits:
  assumes ok: "amp_ok s" and e: "emits s d s'" "cn_pending_close s' = None"
    and guard: "cn_pending_close s = None \<Longrightarrow> \<not> amplification_blocked s"
  shows "amp_ok s'"
  unfolding amp_ok_def
proof (intro conjI impI)
  assume *: "\<not> cn_peer_address_validated s' \<and> 3 * cn_recv_bytes_total s' + 3000 < 2 ^ 64
    \<and> (\<forall>d \<in> set (cn_out s'). length d \<le> kMaxDatagramEstimate)"
  then have nv: "\<not> cn_peer_address_validated s" and small: "3 * cn_recv_bytes_total s + 3000 < 2 ^ 64"
    and d: "length d \<le> 1500" and all: "\<forall>d \<in> set (cn_out s). length d \<le> kMaxDatagramEstimate"
    using e(1) by (auto simp: emits_def kMaxDatagramEstimate_def)
  have ih: "cn_sent_bytes_unvalidated s = (\<Sum>d\<leftarrow>cn_out s. length d)"
    "cn_sent_bytes_unvalidated s \<le> 3 * cn_recv_bytes_total s + close_allowance s"
    using ok nv small all by (auto simp: amp_ok_def)
  have room: "cn_sent_bytes_unvalidated s \<le> 3 * cn_recv_bytes_total s + 1500"
    using ih(2) by (auto simp: close_allowance_def kMaxDatagramEstimate_def split: if_splits)
  have exact: "uadd (cn_sent_bytes_unvalidated s) (length d) = cn_sent_bytes_unvalidated s + length d"
    using room d small by (intro uadd_exact) linarith
  have new: "cn_sent_bytes_unvalidated s' = cn_sent_bytes_unvalidated s + length d"
    "cn_recv_bytes_total s' = cn_recv_bytes_total s" using e(1) nv exact by (simp_all add: emits_def)
  show "cn_sent_bytes_unvalidated s' = (\<Sum>d\<leftarrow>cn_out s'. length d)"
    using e(1) ih(1) new by (simp add: emits_def)
  show "cn_sent_bytes_unvalidated s' \<le> 3 * cn_recv_bytes_total s' + close_allowance s'"
  proof (cases "cn_pending_close s")
    case None
    have "uadd (cn_sent_bytes_unvalidated s) 1500 = cn_sent_bytes_unvalidated s + 1500"
      using room small by (intro uadd_exact) linarith
    moreover have "umul 3 (cn_recv_bytes_total s) = 3 * cn_recv_bytes_total s"
      using small by (intro umul_exact) linarith
    ultimately have "cn_sent_bytes_unvalidated s + 1500 \<le> 3 * cn_recv_bytes_total s"
      using guard [OF None] nv by (simp add: amplification_blocked_def kMaxDatagramEstimate_def)
    then show ?thesis using d by (simp add: new)
  next
    case (Some f)
    then have "close_allowance s = 0" and "closing s" using ok by (simp_all add: close_allowance_def amp_ok_def)
    moreover have "closing s'" using \<open>closing s\<close> e(1) by (simp add: closing_def emits_def)
    ultimately show ?thesis using ih(2) d e(2) by (simp add: new close_allowance_def kMaxDatagramEstimate_def)
  qed
qed (use e(2) in simp)

lemma amp_ok_packet:
  assumes "amp_ok s" and "build_and_send E l s = Some (b, s')"
  shows "amp_ok s'"
proof (cases rule: build_and_send_emits [OF assms(2)])
  case 2
  then have "amp_ok (s\<lparr>cn_pending_close := None\<rparr>)"
    using assms(1) by (auto simp: amp_ok_def close_allowance_def closing_def)
  with 2(2) show ?thesis by (auto intro: amp_ok_view)
qed (use assms(1) in \<open>auto intro: amp_ok_view amp_ok_emits\<close>)

lemma put_stream_view: "wire_view (put_stream i st s) = wire_view s"
  by (simp add: put_stream_def wire_view_def)

lemma ensure_stream_view: "ensure_stream i s = (st, s') \<Longrightarrow> wire_view s' = wire_view s"
  by (auto simp: ensure_stream_def put_stream_view Let_def split_beta split: option.splits)

lemma charge_recv_view: "wire_view (charge_recv a b s) = wire_view s"
  by (simp add: charge_recv_def wire_view_def)

lemmas wire_views = put_stream_view ensure_stream_view charge_recv_view

lemma retire_closed_streams_view: "wire_view (retire_closed_streams s) = wire_view s"
proof -
  have "wire_view (retire_loop rest s) = wire_view s" for rest s
    by (induction rest s rule: retire_loop.induct) (auto simp: Let_def wire_view_def)
  then show ?thesis
    by (simp add: retire_closed_streams_def credit_streams_uni_def credit_streams_bidi_def Let_def
        wire_view_def)
qed

lemma refresh_view: "wire_view (refresh_conn_recv_window s) = wire_view s"
  by (simp add: refresh_conn_recv_window_def extend_conn_recv_window_def Let_def wire_view_def)

text \<open>With at most \<open>n\<close> bytes received.\<close>

definition amp_run :: "nat \<Rightarrow> connection \<Rightarrow> bool" where
  "amp_run n s \<longleftrightarrow> cn_recv_bytes_total s \<le> n \<and> amp_ok s"

lemma amp_run_view: "amp_run n s \<Longrightarrow> wire_view s' = wire_view s \<Longrightarrow> amp_run n s'"
  using amp_ok_view [of s s'] by (simp add: amp_run_def wire_view_def)

lemma amp_run_close: "amp_run n s \<Longrightarrow> amp_run n (initiate_close c a r t s)"
  using amp_ok_close [of s c a r t] by (auto simp: amp_run_def initiate_close_def)

lemma amp_run_stream_frame: "amp_run n s \<Longrightarrow> amp_run n (on_stream_frame f s)"
proof (cases rule: on_stream_frame_cases [of f s])
  case (2 st s1 c a r t)
  assume "amp_run n s"
  then have "amp_run n s1" by (rule amp_run_view) (rule ensure_stream_view [OF 2(1)])
  then show ?thesis by (simp add: 2(2) amp_run_close)
qed (auto intro: amp_run_close amp_run_view simp: wire_views)

lemma amp_run_reset_frame: "amp_run n s \<Longrightarrow> amp_run n (on_reset_stream_frame i e m s)"
proof (cases rule: on_reset_stream_frame_cases [of i e m s])
  case (2 st s1 c a r t)
  assume "amp_run n s"
  then have "amp_run n s1" by (rule amp_run_view) (rule ensure_stream_view [OF 2(1)])
  then show ?thesis by (simp add: 2(2) amp_run_close)
qed (auto intro: amp_run_close amp_run_view simp: wire_views)

interpretation amp: conn_base E "amp_run n" for E n
proof unfold_locales
  fix s assume "amp_run n s"
  then show "amp_run n (s\<lparr>cn_state := CDraining\<rparr>)"
    by (auto simp: amp_run_def amp_ok_def close_allowance_def closing_def split: if_splits)
next
  fix s assume "amp_run n s"
  then show "amp_run n (s\<lparr>cn_peer_address_validated := True\<rparr>)"
    by (auto simp: amp_run_def amp_ok_def closing_def)
qed (rule amp_run_close amp_run_stream_frame amp_run_reset_frame, assumption
    | erule amp_run_view; (simp add: wire_views; fail | simp add: wire_view_def set_space_def))+

interpretation amp_inv: conn_invariant E "amp_run n" for E n
proof unfold_locales
  fix s l b s' assume "amp_run n s" and p: "build_and_send E l s = Some (b, s')"
  moreover have "cn_recv_bytes_total s' = cn_recv_bytes_total s"
    by (cases rule: build_and_send_emits [OF p]) (auto simp: wire_view_def emits_def)
  ultimately show "amp_run n s'" using amp_ok_packet [OF _ p] by (simp add: amp_run_def)
next
  fix s assume "amp_run n s"
  then show "amp_run n (establish s)"
    by (auto simp: amp_run_def amp_ok_def close_allowance_def closing_def establish_def)
next
  fix s s' assume "amp_run n s" and "timer_work E s = Some s'"
  then show "amp_run n s'"
    by (rule amp.timer_work_P) (erule amp_run_view; simp add: retire_closed_streams_view refresh_view)+
qed

text \<open>Runs with the number of bytes received so far.\<close>

inductive conn_recv :: "env \<Rightarrow> tls_setup \<Rightarrow> transport_params \<Rightarrow> nat \<Rightarrow> connection \<Rightarrow> bool" for E su tp where
  start: "connection_new E su dcid client_scid server_scid tp = Some s \<Longrightarrow> conn_recv E su tp 0 s"
| datagram: "conn_recv E su tp n s \<Longrightarrow> on_datagram E d s = Some s' \<Longrightarrow> conn_recv E su tp (n + length d) s'"
| timer: "conn_recv E su tp n s \<Longrightarrow> on_timer fuel E s = Some (Some s') \<Longrightarrow> conn_recv E su tp n s'"
| stream_write: "conn_recv E su tp n s \<Longrightarrow> conn_recv E su tp n (write_stream i d fin s)"
| stream_read: "conn_recv E su tp n s \<Longrightarrow> read_stream i s = (out, fin, s') \<Longrightarrow> conn_recv E su tp n s'"
| validated: "conn_recv E su tp n s \<Longrightarrow> conn_recv E su tp n (mark_peer_address_validated s)"
| close: "conn_recv E su tp n s \<Longrightarrow> conn_recv E su tp n (close_with_error code app reason ft s)"
| key_update: "conn_recv E su tp n s \<Longrightarrow> initiate_key_update E s = Some (b, s') \<Longrightarrow> conn_recv E su tp n s'"

lemma amp_run_arrival:
  assumes "amp_run n s" and "n + m < 2 ^ 62"
  shows "amp_run (n + m) (s\<lparr>cn_clock_reads := k, cn_last_activity := t,
    cn_recv_bytes_total := uadd (cn_recv_bytes_total s) m\<rparr>)"
proof -
  have "cn_recv_bytes_total s + m < 2 ^ 62" using assms by (simp add: amp_run_def)
  then show ?thesis using assms(1) by (auto simp: amp_run_def amp_ok_def close_allowance_def closing_def)
qed

lemma conn_recv_amp:
  assumes "conn_recv E su tp n s" and "n < 2 ^ 62"
  shows "amp_run n s"
  using assms
proof (induction rule: conn_recv.induct)
  case (start dcid client_scid server_scid s)
  show ?case by (cases rule: connection_new_cases [OF start(1)])
    (simp add: amp_run_def amp_ok_def set_space_def conn_blank_def)
next
  case (datagram n s d s')
  then have "amp_run n s" by simp
  moreover from this have "amp_run (n + length d) s" by (simp add: amp_run_def)
  ultimately show ?case
    using datagram amp_inv.on_datagram_P [of "n + length d" s E d s']
      amp_run_arrival [of n s "length d"] by simp
next
  case (timer n s fuel s')
  then show ?case by (auto intro: amp_inv.on_timer_P)
next
  case (stream_write n s i d fin)
  obtain st s1 where e: "ensure_stream i s = (st, s1)" by fastforce
  show ?case using stream_write
    by (auto elim!: amp_run_view simp: write_stream_def e wire_views ensure_stream_view [OF e])
next
  case (stream_read n s i out fin s')
  then show ?case
    by (auto simp: read_stream_def wire_views split: option.splits prod.splits elim!: amp_run_view)
next
  case (validated n s)
  then show ?case using amp.validated by (simp add: mark_peer_address_validated_def)
next
  case (close n s code app reason ft)
  then show ?case by (simp add: close_with_error_def amp_run_close)
next
  case (key_update n s b s')
  then show ?case
    by (auto simp: initiate_key_update_def Let_def set_space_def wire_view_def
        split: if_splits bind_splits elim!: amp_run_view)
qed

section \<open>Properties\<close>

text \<open>C2. Anti-amplification: after \<open>n\<close> received bytes, a connection whose peer is not validated has put
  at most \<open>3 n\<close> bytes on the wire, and at most 1500 more once its CONNECTION_CLOSE packet has left,
  provided that no datagram has exceeded the 1500 bytes the guard reckons with.\<close>

theorem amplification_limit:
  assumes "conn_recv E su tp n s" and "n < 2 ^ 62" and "\<not> cn_peer_address_validated s"
    and "\<forall>d \<in> set (cn_out s). length d \<le> 1500"
  shows "(\<Sum>d\<leftarrow>cn_out s. length d) \<le>
    3 * n + (if cn_state s \<in> {CClosing, CDraining} \<and> cn_pending_close s = None then 1500 else 0)"
proof -
  have r: "cn_recv_bytes_total s \<le> n" and ok: "amp_ok s"
    using conn_recv_amp [OF assms(1,2)] by (simp_all add: amp_run_def)
  have "3 * cn_recv_bytes_total s + 3000 < 2 ^ 64" using r assms(2) by simp
  then have "(\<Sum>d\<leftarrow>cn_out s. length d) \<le> 3 * cn_recv_bytes_total s + close_allowance s"
    using ok assms(3,4) by (simp add: amp_ok_def kMaxDatagramEstimate_def)
  with r show ?thesis by (auto simp: close_allowance_def closing_def kMaxDatagramEstimate_def split: if_splits)
qed

theorem amplification_limit_witness:
  "\<exists>s. conn_recv demo_env demo_setup demo_tp 0 s \<and> (\<Sum>d\<leftarrow>cn_out s. length d) \<le> 1500"
proof -
  obtain s where s: "connection_new demo_env demo_setup [1] [2] [3] demo_tp = Some s" using demo_new by blast
  let ?s = "close_with_error 7 True ''x'' 0 s"
  have r: "conn_recv demo_env demo_setup demo_tp 0 ?s" by (rule conn_recv.close [OF conn_recv.start [OF s]])
  have "\<not> cn_peer_address_validated ?s" and "cn_out ?s = []"
    by (cases rule: connection_new_cases [OF s];
        simp add: close_with_error_def initiate_close_def set_space_def conn_blank_def)+
  then show ?thesis using amplification_limit [OF r] r by (auto split: if_splits)
qed

end
