(* ===== verification/ConnTimer.thy ===== *)
theory ConnTimer
  imports ConnFlow
begin

text \<open>
  The loops \<open>while (build_and_send(lvl)) {}\<close> of \<open>on_timer\<close> end. What is left to send is counted by a
  measure that every call returning \<open>true\<close> decreases; the argument needs that a space that owes an
  acknowledgement has a range to acknowledge, which is an invariant of every run.
\<close>

section \<open>Owed acknowledgements\<close>

definition acks_ok :: "connection \<Rightarrow> bool" where
  "acks_ok s \<longleftrightarrow> (\<forall>l. ps_needs_ack (sp_acks (conn_space_of l s)) \<longrightarrow> ps_ranges (sp_acks (conn_space_of l s)) \<noteq> [])"

lemma pn_walk_None_not_Nil: "pn_walk pn bf rs = None \<Longrightarrow> rs \<noteq> []"
  by (cases rs) auto

lemma pn_insert_not_Nil: "pn_insert pn bf rest \<noteq> []"
  by (auto simp: pn_insert_def Let_def kMaxAckRanges_def split: list.splits if_splits)

lemma on_received_not_Nil: "ps_ranges (on_received pn True a) \<noteq> []"
  by (auto simp: on_received_def pn_insert_not_Nil Let_def split: option.splits dest: pn_walk_None_not_Nil)

lemma build_ack_frame_clears:
  "ps_ranges a \<noteq> [] \<Longrightarrow> \<not> ps_needs_ack (snd (build_ack_frame d a))"
  by (auto simp: build_ack_frame_def split: list.splits)

lemma acks_ok_step:
  assumes "acks_ok s" and "space_step (conn_space_of l s) sp"
  shows "acks_ok (set_space l sp s)"
  using assms on_received_not_Nil build_ack_frame_clears
  by (auto simp: acks_ok_def set_space_def space_step_def)

lemma acks_ok_frame: "acks_ok s \<Longrightarrow> cn_spaces s' = cn_spaces s \<Longrightarrow> acks_ok s'"
  by (simp add: acks_ok_def)

lemma ensure_stream_spaces: "ensure_stream i s = (st, s') \<Longrightarrow> cn_spaces s' = cn_spaces s"
  by (auto simp: ensure_stream_def put_stream_def Let_def split_beta split: option.splits)

lemma initiate_close_spaces [simp]: "cn_spaces (initiate_close c a r t s) = cn_spaces s"
  by (simp add: initiate_close_def)

lemma on_stream_frame_spaces [simp]: "cn_spaces (on_stream_frame f s) = cn_spaces s"
  by (cases rule: on_stream_frame_cases [of f s])
    (simp_all add: charge_recv_def put_stream_def ensure_stream_spaces)

lemma on_reset_stream_frame_spaces [simp]: "cn_spaces (on_reset_stream_frame i e n s) = cn_spaces s"
  by (cases rule: on_reset_stream_frame_cases [of i e n s])
    (simp_all add: charge_recv_def put_stream_def ensure_stream_spaces)

lemma retire_closed_streams_spaces [simp]: "cn_spaces (retire_closed_streams s) = cn_spaces s"
proof -
  have "cn_spaces (retire_loop rest s) = cn_spaces s" for rest s
    by (induction rest s rule: retire_loop.induct) (auto simp: Let_def)
  then show ?thesis
    by (simp add: retire_closed_streams_def credit_streams_uni_def credit_streams_bidi_def Let_def)
qed

lemma collect_streams_spaces: "collect_streams l s = Some (sfs, s') \<Longrightarrow> cn_spaces s' = cn_spaces s"
  by (auto simp: collect_streams_def Let_def split: if_splits bind_splits)

lemma acks_ok_take_pn: "acks_ok s \<Longrightarrow> acks_ok (snd (take_pn l s))"
  by (auto simp: acks_ok_def take_pn_def set_space_def Let_def)

interpretation acks: conn_base E acks_ok for E
  by unfold_locales ((rule acks_ok_step; assumption) | erule acks_ok_frame; simp add: put_stream_def)+

interpretation acks_send: send_invariant E acks_ok for E
  by unfold_locales ((erule acks_ok_take_pn)
    | erule acks_ok_frame; simp add: emit_def collect_streams_spaces)+

interpretation acks_run: run_invariant E acks_ok for E
proof unfold_locales
  fix s l b s' assume "acks_ok s" and "build_and_send E l s = Some (b, s')"
  then show "acks_ok s'" by (rule acks_send.build_and_send_P)
next
  fix s s' assume "acks_ok s" and "timer_work E s = Some s'"
  then show "acks_ok s'"
    by (rule acks.timer_work_P) (erule acks_ok_frame;
      simp add: refresh_conn_recv_window_def extend_conn_recv_window_def Let_def)+
next
  fix s i d fin assume c: "acks_ok s"
  obtain st s1 where e: "ensure_stream i s = (st, s1)" by fastforce
  show "acks_ok (write_stream i d fin s)"
    by (rule acks_ok_frame [OF c]) (simp add: write_stream_def e put_stream_def ensure_stream_spaces [OF e])
next
  fix s i out fin s' assume "acks_ok s" and "read_stream i s = (out, fin, s')"
  then show "acks_ok s'"
    by (auto simp: read_stream_def put_stream_def split: option.splits prod.splits elim!: acks_ok_frame)
qed (erule acks_ok_frame; simp add: establish_def)+

lemma acks_reach: "conn_reach E su tp s \<Longrightarrow> acks_ok s"
proof (erule acks_run.conn_reach_P)
  fix dcid a b s assume n: "connection_new E su dcid a b tp = Some s"
  show "acks_ok s"
  proof (cases rule: connection_new_cases [OF n])
    case (1 tls sp)
    have "sp_acks sp = pn_space_init"
      using 1(2) by (auto simp: initial_space_def space_init_def Let_def split: bind_splits)
    then show ?thesis
      by (auto simp: 1(1) acks_ok_def set_space_def conn_blank_def space_init_def pn_space_init_def)
  qed
qed

section \<open>What a stream has left to send\<close>

definition stream_todo :: "stream \<Rightarrow> nat" where
  "stream_todo st =
     (length (st_send_buf st) - (st_send_buf_head st + (st_send_next_offset st - st_send_buf_base_offset st)))
     + (\<Sum>r\<leftarrow>st_lost_ranges st. snd r + 1)
     + of_bool (st_send_fin_queued st \<and> \<not> st_send_fin_sent st)"

lemma stream_todo_less:
  assumes "st_send_fin_queued st' = st_send_fin_queued st" and "st_send_fin_sent st \<longrightarrow> st_send_fin_sent st'"
    and "length (st_send_buf st') - (st_send_buf_head st' + (st_send_next_offset st' - st_send_buf_base_offset st'))
        + (\<Sum>r\<leftarrow>st_lost_ranges st'. snd r + 1)
      < length (st_send_buf st) - (st_send_buf_head st + (st_send_next_offset st - st_send_buf_base_offset st))
        + (\<Sum>r\<leftarrow>st_lost_ranges st. snd r + 1)"
  shows "stream_todo st' < stream_todo st"
proof -
  have "of_bool (st_send_fin_queued st' \<and> \<not> st_send_fin_sent st')
      \<le> (of_bool (st_send_fin_queued st \<and> \<not> st_send_fin_sent st) :: nat)" using assms(1,2) by auto
  then show ?thesis unfolding stream_todo_def using assms(3) by linarith
qed

lemma pull_lost_todo:
  assumes "pull_lost n r rs st = Some (p, st')" and "st_lost_ranges st = r # rs" and "n > 0"
  shows "stream_todo st' < stream_todo st"
proof -
  define k where "k = min n (snd r)"
  have k: "k \<le> snd r" "k = 0 \<longrightarrow> snd r = 0" using assms(3) unfolding k_def by linarith+
  obtain d where d: "buf_slice st (fst r) k = Some d"
    using assms(1) unfolding pull_lost_def Let_def k_def [symmetric]
    by (cases "buf_slice st (fst r) k") auto
  define fin where "fin \<longleftrightarrow> st_send_fin_queued st \<and> fst r + k = st_send_high_water st"
  have st': "st' = (if fin then st\<lparr>st_send_fin_sent := True\<rparr> else st)
      \<lparr>st_lost_ranges := (if k = snd r then rs else (fst r + k, snd r - k) # rs)\<rparr>"
    using assms(1) d unfolding pull_lost_def Let_def k_def [symmetric] fin_def by simp
  show ?thesis
  proof (rule stream_todo_less)
    show "st_send_fin_queued st' = st_send_fin_queued st" unfolding st' by simp
    show "st_send_fin_sent st \<longrightarrow> st_send_fin_sent st'" unfolding st' by simp
  qed (cases fin; cases "k = snd r"; use k in \<open>simp add: st' assms(2)\<close>)
qed

lemma fin_only_todo:
  assumes "fin_only off st = (p, st')"
  shows "pr_take p = 0 \<and> stream_todo st' + of_bool (pr_fin p) = stream_todo st"
  using assms by (auto simp: fin_only_def stream_todo_def Let_def split: if_splits)

lemma pull_fresh_todo:
  assumes "pull_fresh off n m st = Some (p, st')"
  shows "stream_todo st' \<le> stream_todo st \<and> (pr_take p \<noteq> 0 \<or> pr_fin p \<longrightarrow> stream_todo st' < stream_todo st)"
proof -
  define k where "k = min (min (min n (st_send_limit st - st_send_next_offset st))
      (usub (st_send_high_water st) (st_send_next_offset st))) m"
  show ?thesis
  proof (cases "st_send_next_offset st \<ge> st_send_limit st \<or> k = 0")
    case True
    then have "fin_only off st = (p, st')"
      using assms unfolding pull_fresh_def Let_def k_def [symmetric] by (auto split: if_splits)
    from fin_only_todo [OF this] show ?thesis by (cases "pr_fin p") auto
  next
    case False
    then obtain d where d: "buf_slice st (st_send_next_offset st) k = Some d"
      using assms unfolding pull_fresh_def Let_def k_def [symmetric]
      by (cases "buf_slice st (st_send_next_offset st) k") auto
    from d have in_buf: "st_send_buf_base_offset st \<le> st_send_next_offset st"
      "st_send_buf_head st + (st_send_next_offset st - st_send_buf_base_offset st) + k \<le> length (st_send_buf st)"
      by (auto simp: buf_slice_def Let_def split: if_splits)
    define fin where "fin \<longleftrightarrow> st_send_fin_queued st
      \<and> st_send_next_offset st + k = st_send_high_water st \<and> \<not> st_send_fin_sent st"
    define st2 where "st2 = st\<lparr>st_send_next_offset := st_send_next_offset st + k\<rparr>"
    have st': "st' = (if fin then (if st_send_state st2 = SSend
          then st2\<lparr>st_send_fin_sent := True, st_send_state := SDataSent\<rparr> else st2\<lparr>st_send_fin_sent := True\<rparr>)
        else st2)"
      using assms False d unfolding pull_fresh_def Let_def k_def [symmetric] fin_def st2_def
      by (simp cong: if_cong)
    have f: "st_send_buf st' = st_send_buf st" "st_send_buf_head st' = st_send_buf_head st"
      "st_send_buf_base_offset st' = st_send_buf_base_offset st"
      "st_send_next_offset st' = st_send_next_offset st + k" "st_lost_ranges st' = st_lost_ranges st"
      "st_send_fin_queued st' = st_send_fin_queued st" "st_send_fin_sent st \<longrightarrow> st_send_fin_sent st'"
      by (simp_all add: st' st2_def)
    have "stream_todo st' < stream_todo st"
    proof (rule stream_todo_less)
      show "length (st_send_buf st') - (st_send_buf_head st' + (st_send_next_offset st' - st_send_buf_base_offset st'))
          + (\<Sum>r\<leftarrow>st_lost_ranges st'. snd r + 1)
        < length (st_send_buf st) - (st_send_buf_head st + (st_send_next_offset st - st_send_buf_base_offset st))
          + (\<Sum>r\<leftarrow>st_lost_ranges st. snd r + 1)"
        unfolding f(1-5) using in_buf False by linarith
    qed (use f in simp_all)
    then show ?thesis by simp
  qed
qed

lemma pull_send_todo:
  assumes "pull_send off n m st = Some (p, st')"
  shows "stream_todo st' \<le> stream_todo st \<and> (pr_take p \<noteq> 0 \<or> pr_fin p \<longrightarrow> stream_todo st' < stream_todo st)"
proof -
  consider "n = 0" | x xs where "n > 0" "st_lost_ranges st = x # xs" "pull_lost n x xs st = Some (p, st')"
    | "pull_fresh off n m st = Some (p, st')"
    using assms by (auto simp: pull_send_def split: if_splits list.splits)
  then show ?thesis
  proof cases
    case 1
    then show ?thesis using assms by (auto simp: pull_send_def)
  next
    case 2
    then show ?thesis using pull_lost_todo by fastforce
  next
    case 3
    then show ?thesis by (rule pull_fresh_todo)
  qed
qed

lemma pull_stream_todo:
  "pull_stream i b st cb tot = Some (sfs, st', cb', tot') \<Longrightarrow>
     stream_todo st' \<le> stream_todo st \<and> (sfs \<noteq> [] \<longrightarrow> stream_todo st' < stream_todo st)"
proof (induction i b st cb tot arbitrary: sfs rule: pull_stream.induct)
  case (1 i b st cb tot)
  show ?case
  proof (cases "b > 0")
    case False
    then show ?thesis using 1(2) by (subst (asm) pull_stream.simps) simp
  next
    case b: True
    with 1(2) obtain r st1 where p: "pull_send 0 b cb st = Some (r, st1)"
      by (subst (asm) pull_stream.simps) (auto split: option.splits)
    note todo = pull_send_todo [OF p]
    show ?thesis
    proof (cases "pr_take r = 0")
      case True
      then have "st' = st1" "sfs \<noteq> [] \<longrightarrow> pr_fin r"
        using 1(2) b p by (subst (asm) pull_stream.simps; simp add: Let_def split: if_splits)+
      then show ?thesis using todo by auto
    next
      case False
      define fresh where "fresh = usub (st_send_next_offset st1) (st_send_next_offset st)"
      obtain sfs1 where "pull_stream i (b - pr_take r) st1 (usub cb fresh) (uadd tot fresh)
          = Some (sfs1, st', cb', tot')"
        using 1(2) b p False by (subst (asm) pull_stream.simps) (auto simp: Let_def fresh_def)
      from 1(1) [OF b p refl _ fresh_def refl refl refl False this] False
      have "stream_todo st' \<le> stream_todo st1" by auto
      then show ?thesis using todo False by auto
    qed
  qed
qed

lemma pull_streams_todo:
  "pull_streams m cb tot = Some (sfs, m', tot') \<Longrightarrow>
     om_sum stream_todo m' \<le> om_sum stream_todo m \<and>
     (sfs \<noteq> [] \<longrightarrow> om_sum stream_todo m' < om_sum stream_todo m)"
proof (induction m cb tot arbitrary: sfs m' tot' rule: pull_streams.induct)
  case (2 i st rest cb tot)
  from 2(2) obtain sfs1 st1 cb1 tot1 sfs2 rest1 where
    p: "pull_stream i kStreamBudget st cb tot = Some (sfs1, st1, cb1, tot1)"
    and q: "pull_streams rest cb1 tot1 = Some (sfs2, rest1, tot')"
    and r: "sfs = sfs1 @ sfs2" "m' = (i, st1) # rest1"
    by (auto split: bind_splits)
  from 2(1) [OF p refl refl refl q] pull_stream_todo [OF p] show ?case
    unfolding r by (auto simp: om_sum_def)
qed (simp add: om_sum_def)

section \<open>What a connection has left to send\<close>

definition conn_todo :: "enc_level \<Rightarrow> connection \<Rightarrow> nat" where
  "conn_todo l s = om_sum stream_todo (cn_streams s) + of_bool (cn_crypto_pending s l \<noteq> [])
     + of_bool (ps_needs_ack (sp_acks (conn_space_of l s))) + of_bool (cn_pending_path_responses s \<noteq> [])
     + of_bool (cn_max_data_pending s) + of_bool (cn_max_streams_bidi_pending s)
     + of_bool (cn_max_streams_uni_pending s)"

definition todo_view :: "connection \<Rightarrow> _" where
  "todo_view s = (cn_streams s, cn_crypto_pending s, sp_acks \<circ> cn_spaces s, cn_pending_path_responses s,
     cn_max_data_pending s, cn_max_streams_bidi_pending s, cn_max_streams_uni_pending s,
     cn_sent_handshake_done s)"

lemma conn_todo_view: "todo_view s' = todo_view s \<Longrightarrow> conn_todo l s' = conn_todo l s"
  by (auto simp: todo_view_def conn_todo_def comp_def fun_eq_iff)

lemma todo_view_space: "sp_acks sp = sp_acks (conn_space_of l s) \<Longrightarrow> todo_view (set_space l sp s) = todo_view s"
  by (auto simp: todo_view_def set_space_def)

lemma todo_view_take_pn: "todo_view (snd (take_pn l s)) = todo_view s"
  by (simp add: take_pn_def Let_def todo_view_space)

lemma todo_view_emit: "todo_view (emit d s) = todo_view s"
  by (simp add: todo_view_def emit_def)

lemma todo_view_track_sent: "todo_view (track_sent E l pn a n c s) = todo_view s"
proof -
  have "todo_view (s\<lparr>cn_clock_reads := x, cn_sent := y\<rparr>) = todo_view s"
    "todo_view (s\<lparr>cn_clock_reads := x, cn_sent := y, cn_congestion := z\<rparr>) = todo_view s" for x y z
    by (simp_all add: todo_view_def)
  then show ?thesis by (simp add: track_sent_def read_clock_def Let_def todo_view_space)
qed

lemma todo_view_seal: "seal_packet E l pl pn s = Some (r, s') \<Longrightarrow> todo_view s' = todo_view s"
  by (auto simp: seal_packet_def Let_def todo_view_space split: bind_splits option.splits prod.splits if_splits)

lemma collect_streams_todo:
  assumes "collect_streams l s = Some (sfs, s')"
  shows "conn_todo l s' + of_bool (sfs \<noteq> []) \<le> conn_todo l s
    \<and> cn_sent_handshake_done s' = cn_sent_handshake_done s \<and> cn_crypto_pending s' = cn_crypto_pending s"
proof (cases "l = Application")
  case False
  then show ?thesis using assms by (simp add: collect_streams_def)
next
  case True
  then obtain cb m tot where p: "pull_streams (cn_streams s) cb (cn_send_total s) = Some (sfs, m, tot)"
    and s': "cn_streams s' = m" "cn_crypto_pending s' = cn_crypto_pending s" "cn_spaces s' = cn_spaces s"
      "cn_pending_path_responses s' = cn_pending_path_responses s"
      "cn_max_data_pending s' = cn_max_data_pending s"
      "cn_max_streams_bidi_pending s' = cn_max_streams_bidi_pending s"
      "cn_max_streams_uni_pending s' = cn_max_streams_uni_pending s"
      "cn_sent_handshake_done s' = cn_sent_handshake_done s"
    using assms by (auto simp: collect_streams_def Let_def split: if_splits bind_splits)
  show ?thesis using pull_streams_todo [OF p] by (cases "sfs = []") (simp_all add: conn_todo_def s')
qed

lemma collect_control_todo:
  assumes "collect_control l s = (cs, s')"
  shows "conn_todo l s' + of_bool (cs \<noteq> []) \<le> conn_todo l s
    \<and> cn_sent_handshake_done s' = cn_sent_handshake_done s"
proof (cases "l = Application")
  case True
  have "cs \<noteq> [] \<Longrightarrow> cn_max_data_pending s \<or> cn_max_streams_bidi_pending s \<or> cn_max_streams_uni_pending s"
    using assms True by (auto simp: collect_control_def)
  moreover have "s' = s\<lparr>cn_max_data_pending := False, cn_max_streams_bidi_pending := False,
      cn_max_streams_uni_pending := False\<rparr>" using assms True by (simp add: collect_control_def)
  ultimately show ?thesis by (cases "cs = []") (auto simp: conn_todo_def)
qed (use assms in \<open>simp add: collect_control_def\<close>)

lemma ack_todo:
  assumes "acks_ok s"
  shows "conn_todo l (set_space l ((conn_space_of l s)\<lparr>sp_acks := snd
        (if ps_needs_ack (sp_acks (conn_space_of l s)) then build_ack_frame 0 (sp_acks (conn_space_of l s))
         else (empty_ack_frame, sp_acks (conn_space_of l s)))\<rparr>) s)
      + of_bool (ps_needs_ack (sp_acks (conn_space_of l s))) = conn_todo l s"
  using assms build_ack_frame_clears [of "sp_acks (conn_space_of l s)" 0]
  by (simp add: acks_ok_def conn_todo_def set_space_def)

lemma collect_content_todo:
  assumes "acks_ok s" and "collect_content l s = Some (c, s')"
  shows "conn_todo l s' + of_bool (\<not> content_empty (c\<lparr>pc_include_hs_done := False\<rparr>)) \<le> conn_todo l s"
    and "cn_sent_handshake_done s' = cn_sent_handshake_done s"
    and "pc_include_hs_done c \<Longrightarrow> l = Application \<and> \<not> cn_sent_handshake_done s"
proof -
  define s0 where "s0 = s\<lparr>cn_crypto_pending := (cn_crypto_pending s)(l := [])\<rparr>"
  obtain sfs s1 where s1: "collect_streams l s0 = Some (sfs, s1)"
    using assms(2) by (auto simp: collect_content_def s0_def split: bind_splits)
  define s2 where "s2 = set_space l ((conn_space_of l s1)\<lparr>sp_acks := snd
        (if ps_needs_ack (sp_acks (conn_space_of l s1)) then build_ack_frame 0 (sp_acks (conn_space_of l s1))
         else (empty_ack_frame, sp_acks (conn_space_of l s1)))\<rparr>) s1"
  define s3 where "s3 = (if l = Application then s2\<lparr>cn_pending_path_responses := []\<rparr> else s2)"
  define cs where "cs = fst (collect_control l s3)"
  have "collect_content l s = Some (\<lparr>pc_crypto = cn_crypto_pending s l, pc_streams = sfs,
      pc_include_ack = ps_needs_ack (sp_acks (conn_space_of l s1)),
      pc_ack = fst (if ps_needs_ack (sp_acks (conn_space_of l s1)) then build_ack_frame 0 (sp_acks (conn_space_of l s1))
         else (empty_ack_frame, sp_acks (conn_space_of l s1))),
      pc_include_hs_done = (l = Application \<and> tls_status (cn_tls s2) = TEstablished \<and> \<not> cn_sent_handshake_done s2),
      pc_path_responses = (if l = Application then cn_pending_path_responses s2 else []),
      pc_control = cs\<rparr>, snd (collect_control l s3))"
    unfolding collect_content_def s0_def [symmetric] Let_def s1 bind.bind_lunit split_beta fst_conv snd_conv
      s2_def [symmetric] s3_def [symmetric] cs_def [symmetric] by (rule refl)
  with assms(2) have s4: "collect_control l s3 = (cs, s')" and
    c: "pc_crypto c = cn_crypto_pending s l" "pc_streams c = sfs"
      "pc_include_ack c = ps_needs_ack (sp_acks (conn_space_of l s1))"
      "pc_path_responses c = (if l = Application then cn_pending_path_responses s2 else [])"
      "pc_control c = cs"
      "pc_include_hs_done c \<longleftrightarrow> l = Application \<and> tls_status (cn_tls s2) = TEstablished
         \<and> \<not> cn_sent_handshake_done s2"
    by (auto simp: cs_def prod_eq_iff split del: if_split)
  have acks1: "acks_ok s1"
    by (rule acks_ok_frame [OF assms(1)]) (simp add: collect_streams_spaces [OF s1] s0_def)
  have a: "conn_todo l s0 + of_bool (pc_crypto c \<noteq> []) = conn_todo l s" by (simp add: c s0_def conn_todo_def)
  note b = collect_streams_todo [OF s1, folded c(2)] and d = ack_todo [OF acks1, of l, folded s2_def c(3)]
    and e = collect_control_todo [OF s4, folded c(5)]
  have f: "conn_todo l s3 + of_bool (pc_path_responses c \<noteq> []) = conn_todo l s2"
    unfolding c(4) by (simp add: s3_def conn_todo_def)
  show "conn_todo l s' + of_bool (\<not> content_empty (c\<lparr>pc_include_hs_done := False\<rparr>)) \<le> conn_todo l s"
  proof -
    have "of_bool (\<not> content_empty (c\<lparr>pc_include_hs_done := False\<rparr>)) \<le> (of_bool (pc_crypto c \<noteq> [])
        + of_bool (pc_streams c \<noteq> []) + of_bool (pc_include_ack c) + of_bool (pc_path_responses c \<noteq> [])
        + of_bool (pc_control c \<noteq> []) :: nat)"
      by (simp add: content_empty_def of_bool_def)
    with a f d conjunct1 [OF b] conjunct1 [OF e] show ?thesis by linarith
  qed
  have h: "cn_sent_handshake_done s2 = cn_sent_handshake_done s"
    using b by (simp add: s2_def s0_def set_space_def)
  then show "cn_sent_handshake_done s' = cn_sent_handshake_done s" using e by (simp add: s3_def)
  show "pc_include_hs_done c \<Longrightarrow> l = Application \<and> \<not> cn_sent_handshake_done s" using c(6) h by simp
qed

text \<open>The measure of the loop; \<open>HANDSHAKE_DONE\<close> is sent once.\<close>

definition send_measure :: "enc_level \<Rightarrow> connection \<Rightarrow> nat" where
  "send_measure l s = conn_todo l s + of_bool (\<not> cn_sent_handshake_done s)"

lemma send_initial_todo:
  "send_initial E c pl pn s = Some (b, s') \<Longrightarrow> todo_view s' = todo_view s"
  by (auto simp: send_initial_def todo_view_emit todo_view_track_sent split: bind_splits)

lemma send_protected_todo:
  assumes "send_protected E l c pl pn s = Some (True, s')"
  shows "conn_todo l s' = conn_todo l s"
    and "cn_sent_handshake_done s' \<longleftrightarrow> pc_include_hs_done c \<or> cn_sent_handshake_done s"
proof -
  obtain buf s1 where s1: "seal_packet E l pl pn s = Some (Some buf, s1)"
    using assms by (auto simp: send_protected_def split: bind_splits option.splits)
  obtain a n where s': "s' = emit buf (if pc_include_hs_done c
      then (track_sent E l pn a n c s1)\<lparr>cn_sent_handshake_done := True\<rparr> else track_sent E l pn a n c s1)"
    using assms s1 by (auto simp: send_protected_def Let_def)
  have v: "todo_view (track_sent E l pn a n c s1) = todo_view s"
    using todo_view_track_sent todo_view_seal [OF s1] by simp
  have "conn_todo l (t\<lparr>cn_sent_handshake_done := True\<rparr>) = conn_todo l t" for t by (simp add: conn_todo_def)
  then show "conn_todo l s' = conn_todo l s"
    by (cases "pc_include_hs_done c") (simp_all add: s' conn_todo_view [OF todo_view_emit] conn_todo_view [OF v])
  have "cn_sent_handshake_done (track_sent E l pn a n c s1) = cn_sent_handshake_done s"
    using v by (simp add: todo_view_def)
  then show "cn_sent_handshake_done s' \<longleftrightarrow> pc_include_hs_done c \<or> cn_sent_handshake_done s"
    by (simp add: s' emit_def)
qed

lemma build_and_send_measure:
  assumes "acks_ok s" and "build_and_send E l s = Some (True, s')"
  shows "send_measure l s' < send_measure l s"
proof -
  obtain c s1 where s1: "collect_content l s = Some (c, s1)" and ne: "\<not> content_empty c"
    using assms(2) by (auto simp: build_and_send_def split: if_splits option.splits bind_splits)
  obtain pn s2 where s2: "take_pn l s1 = (pn, s2)" by fastforce
  obtain pl where r: "(if l = Initial then send_initial E c pl pn s2 else send_protected E l c pl pn s2)
      = Some (True, s')"
    using assms(2) s1 s2 ne by (auto simp: build_and_send_def split: if_splits option.splits bind_splits)
  note collected = collect_content_todo [OF assms(1) s1]
  have v2: "todo_view s2 = todo_view s1" using todo_view_take_pn [of l s1] by (simp add: s2)
  then have h2: "cn_sent_handshake_done s2 = cn_sent_handshake_done s"
    using collected(2) by (simp add: todo_view_def)
  have t: "conn_todo l s' = conn_todo l s1"
    and h: "cn_sent_handshake_done s' \<longleftrightarrow> pc_include_hs_done c \<or> cn_sent_handshake_done s"
  proof -
    have "conn_todo l s' = conn_todo l s2 \<and>
        (cn_sent_handshake_done s' \<longleftrightarrow> pc_include_hs_done c \<or> cn_sent_handshake_done s2)"
    proof (cases "l = Initial")
      case True
      then have "send_initial E c pl pn s2 = Some (True, s')" using r by simp
      then have v: "todo_view s' = todo_view s2" by (rule send_initial_todo)
      have "\<not> pc_include_hs_done c" using collected(3) True by auto
      moreover have "cn_sent_handshake_done s' = cn_sent_handshake_done s2" using v by (simp add: todo_view_def)
      ultimately show ?thesis using conn_todo_view [OF v] by simp
    next
      case False
      then have "send_protected E l c pl pn s2 = Some (True, s')" using r by simp
      from send_protected_todo [OF this] show ?thesis by simp
    qed
    then show "conn_todo l s' = conn_todo l s1"
      "cn_sent_handshake_done s' \<longleftrightarrow> pc_include_hs_done c \<or> cn_sent_handshake_done s"
      using conn_todo_view [OF v2] h2 by auto
  qed
  show ?thesis
  proof (cases "pc_include_hs_done c")
    case True
    have "conn_todo l s1 \<le> conn_todo l s" using collected(1) by linarith
    moreover have "cn_sent_handshake_done s'" "\<not> cn_sent_handshake_done s" using h collected(3) True by auto
    ultimately show ?thesis unfolding send_measure_def t by simp
  next
    case False
    then have c: "c\<lparr>pc_include_hs_done := False\<rparr> = c" by simp
    have "conn_todo l s1 < conn_todo l s" using collected(1) ne unfolding c by simp
    moreover have "cn_sent_handshake_done s' = cn_sent_handshake_done s" using h False by simp
    ultimately show ?thesis unfolding send_measure_def t by simp
  qed
qed

lemma send_all_ends:
  "acks_ok s \<Longrightarrow> \<exists>r. r \<noteq> Some None \<and> (\<forall>fuel > send_measure l s. send_all fuel E l s = r)
     \<and> (\<forall>s'. r = Some (Some s') \<longrightarrow> acks_ok s')"
proof (induction "send_measure l s" arbitrary: s rule: less_induct)
  case less
  show ?case
  proof (cases "build_and_send E l s")
    case None
    then have "send_all fuel E l s = None" if "fuel > send_measure l s" for fuel
      using that by (cases fuel) auto
    then show ?thesis by (intro exI [of _ None]) simp
  next
    case (Some bs)
    then obtain b s1 where b: "build_and_send E l s = Some (b, s1)" by (cases bs) simp
    have ok: "acks_ok s1" by (rule acks_send.build_and_send_P [OF less(2) b])
    show ?thesis
    proof (cases b)
      case True
      have m: "send_measure l s1 < send_measure l s"
        using build_and_send_measure [OF less(2)] b True by simp
      from less(1) [OF m ok] obtain r where r: "r \<noteq> Some None" "\<forall>s'. r = Some (Some s') \<longrightarrow> acks_ok s'"
        "\<And>fuel. fuel > send_measure l s1 \<Longrightarrow> send_all fuel E l s1 = r" by blast
      have "send_all fuel E l s = r" if "fuel > send_measure l s" for fuel
        using that m r(3) [of "fuel - 1"] b True by (cases fuel) auto
      then show ?thesis using r(1,2) by blast
    next
      case False
      then have "send_all fuel E l s = Some (Some s1)" if "fuel > send_measure l s" for fuel
        using that b by (cases fuel) auto
      then show ?thesis using ok by (intro exI [of _ "Some (Some s1)"]) simp
    qed
  qed
qed

lemma send_levels_ends:
  "acks_ok s \<Longrightarrow> \<exists>r n. r \<noteq> Some None \<and> (\<forall>fuel > n. send_levels fuel E ls s = r)"
proof (induction ls arbitrary: s)
  case Nil
  then show ?case by (intro exI [of _ "Some (Some s)"]) simp
next
  case (Cons l ls)
  from send_all_ends [OF Cons(2)] obtain r where r: "r \<noteq> Some None"
    "\<And>fuel. fuel > send_measure l s \<Longrightarrow> send_all fuel E l s = r"
    "\<And>s'. r = Some (Some s') \<Longrightarrow> acks_ok s'" by blast
  show ?case
  proof (cases r)
    case None
    then show ?thesis using r(2) by (intro exI [of _ None] exI [of _ "send_measure l s"]) simp
  next
    case (Some o')
    with r(1) obtain s1 where s1: "r = Some (Some s1)" by (cases o') auto
    from Cons(1) [OF r(3) [OF s1]] obtain q n where q: "q \<noteq> Some None"
      "\<And>fuel. fuel > n \<Longrightarrow> send_levels fuel E ls s1 = q" by blast
    show ?thesis
      by (rule exI [of _ q], rule exI [of _ "max n (send_measure l s)"]) (simp add: q r(2) s1)
  qed
qed

section \<open>The timer returns\<close>

text \<open>C5. The loops of \<open>on_timer\<close> without a bound, \<open>while (build_and_send(lvl)) {}\<close> for each level, end in
  every reachable state: some number of iterations is enough, and with more the result is the same.\<close>

theorem timer_returns:
  assumes "conn_reach E su tp s"
  shows "\<exists>r n. r \<noteq> Some None \<and> (\<forall>fuel > n. on_timer fuel E s = r)"
proof -
  have ok: "acks_ok s" by (rule acks_reach [OF assms])
  show ?thesis
  proof (cases "check_idle_timeout E s")
    case None
    then show ?thesis by (intro exI [of _ None]) (simp add: on_timer_def)
  next
    case (Some s1)
    have ok1: "acks_ok s1" by (rule acks.check_idle_timeout_P [OF ok Some])
    consider "cn_state s1 = CDraining \<or> cn_state s1 = CClosed"
      | "cn_state s1 \<noteq> CDraining" "cn_state s1 \<noteq> CClosed" "timer_work E s1 = None"
      | s2 where "cn_state s1 \<noteq> CDraining" "cn_state s1 \<noteq> CClosed" "timer_work E s1 = Some s2"
      by fastforce
    then show ?thesis
    proof cases
      case 1
      then show ?thesis by (intro exI [of _ "Some (Some s1)"]) (simp add: on_timer_def Some)
    next
      case 2
      then show ?thesis by (intro exI [of _ None]) (simp add: on_timer_def Some)
    next
      case (3 s2)
      have "acks_ok s2" by (rule acks_run.windows [OF ok1 3(3)])
      from send_levels_ends [OF this, of E "[Initial, Handshake, Application]"] obtain r n where
        r: "r \<noteq> Some None" "\<And>fuel. fuel > n \<Longrightarrow> send_levels fuel E [Initial, Handshake, Application] s2 = r"
        by blast
      have "map_option (map_option establish) r \<noteq> Some None"
        using r(1) by (cases r) (auto simp: map_option_is_None)
      moreover have "on_timer fuel E s = map_option (map_option establish) r" if "fuel > n" for fuel
        using 3 r(2) [OF that] by (simp add: on_timer_def Some)
      ultimately show ?thesis by blast
    qed
  qed
qed

theorem timer_returns_witness:
  "\<exists>s r n. conn_reach demo_env demo_setup demo_tp s \<and> cn_streams s \<noteq> [] \<and> r \<noteq> Some None
    \<and> (\<forall>fuel > n. on_timer fuel demo_env s = r)"
  using demo_reach timer_returns by meson

end
