(* ===== verification/Huffman.thy ===== *)
theory Huffman
  imports Prelude
begin

text \<open>
  The Huffman code of RFC 7541 Appendix B, \<open>src/codec/huffman.cpp\<close>: the table, the encoder with its
  bit buffer, the decoding tree as the array of nodes that \<open>HuffTree\<close> builds, and the decoder. A
  \<open>std::string\<close> is the list of its bytes; the decoder's \<open>false\<close> is \<open>None\<close>. The theory ends with
  the shape of the table: ordered by length, the codes fill an interval without gap or overlap.
\<close>

section \<open>The code\<close>

text \<open>\<open>kTable\<close>: code and bit length of each symbol; 256 is EOS.\<close>

definition kTable :: "(nat \<times> nat) list" where
  "kTable = [
    (0x1ff8, 13), (0x7fffd8, 23), (0xfffffe2, 28), (0xfffffe3, 28),
    (0xfffffe4, 28), (0xfffffe5, 28), (0xfffffe6, 28), (0xfffffe7, 28),
    (0xfffffe8, 28), (0xffffea, 24), (0x3ffffffc, 30), (0xfffffe9, 28),
    (0xfffffea, 28), (0x3ffffffd, 30), (0xfffffeb, 28), (0xfffffec, 28),
    (0xfffffed, 28), (0xfffffee, 28), (0xfffffef, 28), (0xffffff0, 28),
    (0xffffff1, 28), (0xffffff2, 28), (0x3ffffffe, 30), (0xffffff3, 28),
    (0xffffff4, 28), (0xffffff5, 28), (0xffffff6, 28), (0xffffff7, 28),
    (0xffffff8, 28), (0xffffff9, 28), (0xffffffa, 28), (0xffffffb, 28),
    (0x14, 6), (0x3f8, 10), (0x3f9, 10), (0xffa, 12),
    (0x1ff9, 13), (0x15, 6), (0xf8, 8), (0x7fa, 11),
    (0x3fa, 10), (0x3fb, 10), (0xf9, 8), (0x7fb, 11),
    (0xfa, 8), (0x16, 6), (0x17, 6), (0x18, 6),
    (0x0, 5), (0x1, 5), (0x2, 5), (0x19, 6),
    (0x1a, 6), (0x1b, 6), (0x1c, 6), (0x1d, 6),
    (0x1e, 6), (0x1f, 6), (0x5c, 7), (0xfb, 8),
    (0x7ffc, 15), (0x20, 6), (0xffb, 12), (0x3fc, 10),
    (0x1ffa, 13), (0x21, 6), (0x5d, 7), (0x5e, 7),
    (0x5f, 7), (0x60, 7), (0x61, 7), (0x62, 7),
    (0x63, 7), (0x64, 7), (0x65, 7), (0x66, 7),
    (0x67, 7), (0x68, 7), (0x69, 7), (0x6a, 7),
    (0x6b, 7), (0x6c, 7), (0x6d, 7), (0x6e, 7),
    (0x6f, 7), (0x70, 7), (0x71, 7), (0x72, 7),
    (0xfc, 8), (0x73, 7), (0xfd, 8), (0x1ffb, 13),
    (0x7fff0, 19), (0x1ffc, 13), (0x3ffc, 14), (0x22, 6),
    (0x7ffd, 15), (0x3, 5), (0x23, 6), (0x4, 5),
    (0x24, 6), (0x5, 5), (0x25, 6), (0x26, 6),
    (0x27, 6), (0x6, 5), (0x74, 7), (0x75, 7),
    (0x28, 6), (0x29, 6), (0x2a, 6), (0x7, 5),
    (0x2b, 6), (0x76, 7), (0x2c, 6), (0x8, 5),
    (0x9, 5), (0x2d, 6), (0x77, 7), (0x78, 7),
    (0x79, 7), (0x7a, 7), (0x7b, 7), (0x7ffe, 15),
    (0x7fc, 11), (0x3ffd, 14), (0x1ffd, 13), (0xffffffc, 28),
    (0xfffe6, 20), (0x3fffd2, 22), (0xfffe7, 20), (0xfffe8, 20),
    (0x3fffd3, 22), (0x3fffd4, 22), (0x3fffd5, 22), (0x7fffd9, 23),
    (0x3fffd6, 22), (0x7fffda, 23), (0x7fffdb, 23), (0x7fffdc, 23),
    (0x7fffdd, 23), (0x7fffde, 23), (0xffffeb, 24), (0x7fffdf, 23),
    (0xffffec, 24), (0xffffed, 24), (0x3fffd7, 22), (0x7fffe0, 23),
    (0xffffee, 24), (0x7fffe1, 23), (0x7fffe2, 23), (0x7fffe3, 23),
    (0x7fffe4, 23), (0x1fffdc, 21), (0x3fffd8, 22), (0x7fffe5, 23),
    (0x3fffd9, 22), (0x7fffe6, 23), (0x7fffe7, 23), (0xffffef, 24),
    (0x3fffda, 22), (0x1fffdd, 21), (0xfffe9, 20), (0x3fffdb, 22),
    (0x3fffdc, 22), (0x7fffe8, 23), (0x7fffe9, 23), (0x1fffde, 21),
    (0x7fffea, 23), (0x3fffdd, 22), (0x3fffde, 22), (0xfffff0, 24),
    (0x1fffdf, 21), (0x3fffdf, 22), (0x7fffeb, 23), (0x7fffec, 23),
    (0x1fffe0, 21), (0x1fffe1, 21), (0x3fffe0, 22), (0x1fffe2, 21),
    (0x7fffed, 23), (0x3fffe1, 22), (0x7fffee, 23), (0x7fffef, 23),
    (0xfffea, 20), (0x3fffe2, 22), (0x3fffe3, 22), (0x3fffe4, 22),
    (0x7ffff0, 23), (0x3fffe5, 22), (0x3fffe6, 22), (0x7ffff1, 23),
    (0x3ffffe0, 26), (0x3ffffe1, 26), (0xfffeb, 20), (0x7fff1, 19),
    (0x3fffe7, 22), (0x7ffff2, 23), (0x3fffe8, 22), (0x1ffffec, 25),
    (0x3ffffe2, 26), (0x3ffffe3, 26), (0x3ffffe4, 26), (0x7ffffde, 27),
    (0x7ffffdf, 27), (0x3ffffe5, 26), (0xfffff1, 24), (0x1ffffed, 25),
    (0x7fff2, 19), (0x1fffe3, 21), (0x3ffffe6, 26), (0x7ffffe0, 27),
    (0x7ffffe1, 27), (0x3ffffe7, 26), (0x7ffffe2, 27), (0xfffff2, 24),
    (0x1fffe4, 21), (0x1fffe5, 21), (0x3ffffe8, 26), (0x3ffffe9, 26),
    (0xffffffd, 28), (0x7ffffe3, 27), (0x7ffffe4, 27), (0x7ffffe5, 27),
    (0xfffec, 20), (0xfffff3, 24), (0xfffed, 20), (0x1fffe6, 21),
    (0x3fffe9, 22), (0x1fffe7, 21), (0x1fffe8, 21), (0x7ffff3, 23),
    (0x3fffea, 22), (0x3fffeb, 22), (0x1ffffee, 25), (0x1ffffef, 25),
    (0xfffff4, 24), (0xfffff5, 24), (0x3ffffea, 26), (0x7ffff4, 23),
    (0x3ffffeb, 26), (0x7ffffe6, 27), (0x3ffffec, 26), (0x3ffffed, 26),
    (0x7ffffe7, 27), (0x7ffffe8, 27), (0x7ffffe9, 27), (0x7ffffea, 27),
    (0x7ffffeb, 27), (0xffffffe, 28), (0x7ffffec, 27), (0x7ffffed, 27),
    (0x7ffffee, 27), (0x7ffffef, 27), (0x7fffff0, 27), (0x3ffffee, 26),
    (0x3fffffff, 30)]"

definition sym_code :: "nat \<Rightarrow> nat" where
  "sym_code s = fst (kTable ! s)"

definition sym_bits :: "nat \<Rightarrow> nat" where
  "sym_bits s = snd (kTable ! s)"

definition huffman_encoded_size :: "bytes \<Rightarrow> nat" where
  "huffman_encoded_size input = ((\<Sum>ch\<leftarrow>input. sym_bits (unat ch)) + 7) div 8"

text \<open>\<open>while (held >= 8) { held -= 8; out.push_back(buf >> held); }\<close>\<close>

function flush_bits :: "nat \<Rightarrow> nat \<Rightarrow> bytes \<Rightarrow> nat \<times> bytes" where
  "flush_bits buf held out =
     (if held \<ge> 8 then flush_bits buf (held - 8) (out @ [of_nat (drop_bit (held - 8) buf AND 0xFF)])
      else (held, out))"
  by pat_completeness auto
termination by (relation "measure (\<lambda>(buf, held, out). held)") auto

declare flush_bits.simps [simp del]

text \<open>The loop over the input; \<open>buf\<close> is a 64-bit integer.\<close>

fun encode_symbols :: "bytes \<Rightarrow> nat \<Rightarrow> nat \<Rightarrow> bytes \<Rightarrow> nat \<times> nat \<times> bytes" where
  "encode_symbols [] buf held out = (buf, held, out)"
| "encode_symbols (ch # input) buf held out =
     (let buf = (push_bit (sym_bits (unat ch)) buf mod 2 ^ 64) OR sym_code (unat ch);
          (held, out) = flush_bits buf (held + sym_bits (unat ch)) out
      in encode_symbols input buf held out)"

definition huffman_encode :: "bytes \<Rightarrow> bytes \<Rightarrow> bytes" where
  "huffman_encode input out =
     (let (buf, held, out) = encode_symbols input 0 0 out
      in if held > 0 then
           let pad = 8 - held; pad_bits = 2 ^ pad - 1
           in out @ [of_nat (((push_bit pad buf mod 2 ^ 64) OR pad_bits) AND 0xFF)]
         else out)"

subsection \<open>The decoding tree\<close>

text \<open>\<open>int16_t\<close> indices and symbols, \<open>-1\<close> where there is none.\<close>

record dec_node =
  dn_children :: "int \<times> int"
  dn_symbol :: int

definition dec_node_init :: dec_node where
  "dec_node_init = \<lparr>dn_children = (-1, -1), dn_symbol = -1\<rparr>"

definition child :: "bool \<Rightarrow> dec_node \<Rightarrow> int" where
  "child b nd = (if b then snd (dn_children nd) else fst (dn_children nd))"

definition set_child :: "bool \<Rightarrow> int \<Rightarrow> dec_node \<Rightarrow> dec_node" where
  "set_child b n nd = nd\<lparr>dn_children := (if b then (fst (dn_children nd), n) else (n, snd (dn_children nd)))\<rparr>"

definition huff_step :: "dec_node list \<Rightarrow> int \<Rightarrow> bool \<Rightarrow> int" where
  "huff_step nodes node b = child b (nodes ! nat node)"

definition huff_symbol :: "dec_node list \<Rightarrow> int \<Rightarrow> int" where
  "huff_symbol nodes node = dn_symbol (nodes ! nat node)"

text \<open>The loop of \<open>insert\<close>, with \<open>k\<close> bits of the code left.\<close>

fun insert_walk :: "nat \<Rightarrow> nat \<Rightarrow> int \<Rightarrow> dec_node list \<Rightarrow> int \<times> dec_node list" where
  "insert_walk 0 code cur nodes = (cur, nodes)"
| "insert_walk (Suc k) code cur nodes =
     (let b = bit code k; nxt = huff_step nodes cur b
      in if nxt < 0 then
           let nodes = nodes @ [dec_node_init];
               nxt = int (length nodes) - 1;
               nodes = nodes[nat cur := set_child b nxt (nodes ! nat cur)]
           in insert_walk k code nxt nodes
         else insert_walk k code nxt nodes)"

definition huff_insert :: "nat \<Rightarrow> nat \<Rightarrow> nat \<Rightarrow> dec_node list \<Rightarrow> dec_node list" where
  "huff_insert s code bits nodes =
     (let (cur, nodes) = insert_walk bits code 0 nodes
      in nodes[nat cur := (nodes ! nat cur)\<lparr>dn_symbol := int s\<rparr>])"

definition huff_tree :: "dec_node list" where
  "huff_tree = fold (\<lambda>s. huff_insert s (sym_code s) (sym_bits s)) [0..<257] [dec_node_init]"

subsection \<open>The decoder\<close>

record huff_state =
  hs_node :: int
  hs_bit_count :: nat
  hs_pad_start_node :: int
  hs_pad_start_bit :: nat
  hs_out :: bytes

definition huff_bit :: "bool \<Rightarrow> huff_state \<Rightarrow> huff_state option" where
  "huff_bit b st =
     (let nxt = huff_step huff_tree (hs_node st) b
      in if nxt < 0 then None
         else
           let st = st\<lparr>hs_node := nxt, hs_bit_count := hs_bit_count st + 1\<rparr>;
               sym = huff_symbol huff_tree nxt
           in if sym \<ge> 0 then
                if sym = 256 then None
                else Some (st\<lparr>hs_node := 0, hs_pad_start_node := 0, hs_pad_start_bit := hs_bit_count st,
                             hs_out := hs_out st @ [of_int sym]\<rparr>)
              else Some st)"

fun huff_bits :: "bool list \<Rightarrow> huff_state \<Rightarrow> huff_state option" where
  "huff_bits [] st = Some st"
| "huff_bits (b # bs) st = (case huff_bit b st of None \<Rightarrow> None | Some st \<Rightarrow> huff_bits bs st)"

text \<open>The bits of a byte, \<open>for (j = 7; j >= 0; --j) (b >> j) & 1\<close>.\<close>

definition byte_bits :: "byte \<Rightarrow> bool list" where
  "byte_bits b = map (bit b) [7, 6, 5, 4, 3, 2, 1, 0]"

fun huff_bytes :: "bytes \<Rightarrow> huff_state \<Rightarrow> huff_state option" where
  "huff_bytes [] st = Some st"
| "huff_bytes (b # bs) st = (case huff_bits (byte_bits b) st of None \<Rightarrow> None | Some st \<Rightarrow> huff_bytes bs st)"

text \<open>The second walk, along one bits.\<close>

fun ones_walk :: "nat \<Rightarrow> int \<Rightarrow> int option" where
  "ones_walk 0 node = Some node"
| "ones_walk (Suc n) node =
     (let nxt = huff_step huff_tree node True in if nxt < 0 then None else ones_walk n nxt)"

definition huffman_decode :: "bytes \<Rightarrow> bytes \<Rightarrow> bytes option" where
  "huffman_decode input out =
     (case huff_bytes input \<lparr>hs_node = 0, hs_bit_count = 0, hs_pad_start_node = 0, hs_pad_start_bit = 0,
                             hs_out = out\<rparr> of
        None \<Rightarrow> None
      | Some st \<Rightarrow>
          if hs_node st \<noteq> 0 then
            let pad_bits = hs_bit_count st - hs_pad_start_bit st
            in if pad_bits > 7 then None
               else case ones_walk pad_bits (hs_pad_start_node st) of
                      None \<Rightarrow> None
                    | Some check \<Rightarrow> if check \<noteq> hs_node st then None else Some (hs_out st)
          else Some (hs_out st))"

section \<open>The table\<close>

text \<open>The symbols by length and value; their codes fill the interval below \<open>2^30\<close> without a gap.\<close>

definition canonical :: "nat list" where
  "canonical = [
    48, 49, 50, 97, 99, 101, 105, 111, 115, 116, 32, 37, 45, 46, 47, 51,
    52, 53, 54, 55, 56, 57, 61, 65, 95, 98, 100, 102, 103, 104, 108, 109,
    110, 112, 114, 117, 58, 66, 67, 68, 69, 70, 71, 72, 73, 74, 75, 76,
    77, 78, 79, 80, 81, 82, 83, 84, 85, 86, 87, 89, 106, 107, 113, 118,
    119, 120, 121, 122, 38, 42, 44, 59, 88, 90, 33, 34, 40, 41, 63, 39,
    43, 124, 35, 62, 0, 36, 64, 91, 93, 126, 94, 125, 60, 96, 123, 92,
    195, 208, 128, 130, 131, 162, 184, 194, 224, 226, 153, 161, 167, 172, 176, 177,
    179, 209, 216, 217, 227, 229, 230, 129, 132, 133, 134, 136, 146, 154, 156, 160,
    163, 164, 169, 170, 173, 178, 181, 185, 186, 187, 189, 190, 196, 198, 228, 232,
    233, 1, 135, 137, 138, 139, 140, 141, 143, 147, 149, 150, 151, 152, 155, 157,
    158, 165, 166, 168, 174, 175, 180, 182, 183, 188, 191, 197, 231, 239, 9, 142,
    144, 145, 148, 159, 171, 206, 215, 225, 236, 237, 199, 207, 234, 235, 192, 193,
    200, 201, 202, 205, 210, 213, 218, 219, 238, 240, 242, 243, 255, 203, 204, 211,
    212, 214, 221, 222, 223, 241, 244, 245, 246, 247, 248, 250, 251, 252, 253, 254,
    2, 3, 4, 5, 6, 7, 8, 11, 12, 14, 15, 16, 17, 18, 19, 20,
    21, 23, 24, 25, 26, 27, 28, 29, 30, 31, 127, 220, 249, 10, 13, 22,
    256]"

fun fills :: "nat \<Rightarrow> (nat \<times> nat) list \<Rightarrow> bool" where
  "fills lo [] \<longleftrightarrow> lo = 2 ^ 30"
| "fills lo ((c, n) # xs) \<longleftrightarrow> n \<le> 30 \<and> 5 \<le> n \<and> c * 2 ^ (30 - n) = lo \<and> fills (lo + 2 ^ (30 - n)) xs"

lemma kTable_fills: "fills 0 (map (\<lambda>s. kTable ! s) canonical)"
  by (simp add: kTable_def canonical_def)

lemma canonical_all: "set canonical = {..<257}"
proof (rule card_subset_eq)
  have "list_all (\<lambda>s. s < 257) canonical" by (simp add: canonical_def)
  then show "set canonical \<subseteq> {..<257}" by (auto simp: list_all_iff)
  have "distinct canonical" "length canonical = 257" by (simp_all add: canonical_def)
  then show "card (set canonical) = card {..<257::nat}" by (simp add: distinct_card)
qed simp

definition span_lo :: "nat \<times> nat \<Rightarrow> nat" where
  "span_lo e = fst e * 2 ^ (30 - snd e)"

definition span_hi :: "nat \<times> nat \<Rightarrow> nat" where
  "span_hi e = span_lo e + 2 ^ (30 - snd e)"

lemma fills_nth:
  "fills lo xs \<Longrightarrow> i < length xs \<Longrightarrow>
     lo \<le> span_lo (xs ! i) \<and> span_hi (xs ! i) \<le> 2 ^ 30 \<and> 5 \<le> snd (xs ! i) \<and> snd (xs ! i) \<le> 30"
proof (induction lo xs arbitrary: i rule: fills.induct)
  case (2 lo c n xs)
  have lo: "lo \<le> 2 ^ 30" if "fills lo xs" for lo and xs :: "(nat \<times> nat) list"
    using that by (induction lo xs rule: fills.induct) auto
  show ?case
  proof (cases i)
    case 0
    then show ?thesis using 2(2) lo [of "lo + 2 ^ (30 - n)" xs] by (auto simp: span_lo_def span_hi_def)
  next
    case (Suc j)
    then show ?thesis using 2(2,3) 2(1) [of j] by fastforce
  qed
qed simp

lemma fills_apart:
  "fills lo xs \<Longrightarrow> i < j \<Longrightarrow> j < length xs \<Longrightarrow> span_hi (xs ! i) \<le> span_lo (xs ! j)"
proof (induction lo xs arbitrary: i j rule: fills.induct)
  case (2 lo c n xs)
  from 2(3) obtain k where k: "j = Suc k" by (cases j) auto
  show ?case
  proof (cases i)
    case 0
    then show ?thesis using 2(2,4) k fills_nth [of "lo + 2 ^ (30 - n)" xs k]
      by (simp add: span_lo_def span_hi_def)
  next
    case (Suc m)
    then show ?thesis using 2 k by simp
  qed
qed simp

lemma symbol_position:
  assumes "s < 257"
  obtains i where "i < length canonical" "canonical ! i = s" "map (\<lambda>s. kTable ! s) canonical ! i = kTable ! s"
proof -
  have "s \<in> set canonical" using canonical_all assms by simp
  then obtain i where "i < length canonical" "canonical ! i = s" by (auto simp: in_set_conv_nth)
  then show ?thesis using that by simp
qed

lemma sym_bounds:
  assumes "s < 257"
  shows "5 \<le> sym_bits s" "sym_bits s \<le> 30" "sym_code s < 2 ^ sym_bits s"
proof -
  obtain i where i: "i < length canonical" "map (\<lambda>s. kTable ! s) canonical ! i = kTable ! s"
    using symbol_position [OF assms] by metis
  have f: "5 \<le> snd (kTable ! s)" "snd (kTable ! s) \<le> 30" "span_hi (kTable ! s) \<le> 2 ^ 30"
    using fills_nth [OF kTable_fills, of i] i by simp_all
  then show b: "5 \<le> sym_bits s" "sym_bits s \<le> 30" by (simp_all add: sym_bits_def)
  have "(sym_code s + 1) * 2 ^ (30 - sym_bits s) \<le> (2 ^ 30 :: nat)"
    using f(3) by (simp add: span_hi_def span_lo_def sym_code_def sym_bits_def)
  also have "(2 ^ 30 :: nat) = 2 ^ sym_bits s * 2 ^ (30 - sym_bits s)"
    using b(2) by (simp flip: power_add)
  finally have "sym_code s + 1 \<le> 2 ^ sym_bits s" by (rule mult_le_cancel2 [THEN iffD1, THEN mp]) simp
  then show "sym_code s < 2 ^ sym_bits s" by simp
qed

lemma sym_spans:
  assumes "s < 257" and "t < 257" and "s \<noteq> t"
  shows "span_hi (kTable ! s) \<le> span_lo (kTable ! t) \<or> span_hi (kTable ! t) \<le> span_lo (kTable ! s)"
proof -
  obtain i j where i: "i < length canonical" "canonical ! i = s" "map (\<lambda>s. kTable ! s) canonical ! i = kTable ! s"
    and j: "j < length canonical" "canonical ! j = t" "map (\<lambda>s. kTable ! s) canonical ! j = kTable ! t"
    using symbol_position assms by metis
  have "i \<noteq> j" using i(2) j(2) assms(3) by auto
  then show ?thesis
    using fills_apart [OF kTable_fills, of i j] fills_apart [OF kTable_fills, of j i] i j by fastforce
qed

end
