(* ===== verification/HuffmanCode.thy ===== *)
theory HuffmanCode
  imports Huffman
begin

text \<open>
  Correctness of \<open>src/codec/huffman.cpp\<close>: the table is a prefix code, the array of nodes represents it,
  the bit buffer of the encoder writes the codes one after the other, and the decoder accepts exactly
  what the encoder produces.
\<close>

section \<open>Bit strings\<close>

fun nbits :: "nat \<Rightarrow> nat \<Rightarrow> bool list" where
  "nbits 0 v = []"
| "nbits (Suc n) v = bit v n # nbits n v"

lemma length_nbits [simp]: "length (nbits n v) = n"
  by (induction n) simp_all

lemma nbits_join: "nbits m (v div 2 ^ n) @ nbits n v = nbits (m + n) v"
  by (induction m) (simp_all flip: drop_bit_eq_div add: bit_drop_bit_eq add.commute)

lemma nbits_mod: "nbits n (v mod 2 ^ k) = nbits n v" if "n \<le> k"
  using that by (induction n) (auto simp: bit_take_bit_iff simp flip: take_bit_eq_mod)

lemma nbits_inj: "v < 2 ^ n \<Longrightarrow> w < 2 ^ n \<Longrightarrow> nbits n v = nbits n w \<Longrightarrow> v = w"
proof (induction n arbitrary: v w)
  case (Suc n)
  have "nbits n (v mod 2 ^ n) = nbits n (w mod 2 ^ n)" using Suc(4) by (simp add: nbits_mod)
  then have low: "v mod 2 ^ n = w mod 2 ^ n" by (intro Suc(1)) simp_all
  have "v div 2 ^ n < 2" "w div 2 ^ n < 2" using Suc(2,3) by (simp_all add: less_mult_imp_div_less)
  moreover have "odd (v div 2 ^ n) = odd (w div 2 ^ n)" using Suc(4) by (simp add: bit_iff_odd)
  moreover have "a = b" if "a < 2" "b < 2" "odd a = odd b" for a b :: nat using that by presburger
  ultimately have "v div 2 ^ n = w div 2 ^ n" by blast
  with low show ?case by (metis div_mult_mod_eq)
qed simp

lemma nbits_append:
  assumes "w < 2 ^ n"
  shows "nbits (m + n) (v * 2 ^ n + w) = nbits m v @ nbits n w"
proof -
  have "(v * 2 ^ n + w) div 2 ^ n = v" "(v * 2 ^ n + w) mod 2 ^ n = w" using assms by simp_all
  then show ?thesis using nbits_join [of m "v * 2 ^ n + w" n] nbits_mod [of n n "v * 2 ^ n + w"] by simp
qed

definition sym_path :: "nat \<Rightarrow> bool list" where
  "sym_path s = nbits (sym_bits s) (sym_code s)"

lemma sym_path_length: "length (sym_path s) = sym_bits s"
  by (simp add: sym_path_def)

text \<open>No code is a prefix of another.\<close>

lemma sym_prefix_free:
  assumes "s < 257" and "t < 257" and "sym_path t = sym_path s @ q"
  shows "s = t"
proof (rule ccontr)
  assume "s \<noteq> t"
  have n: "sym_bits t = sym_bits s + length q"
    using arg_cong [OF assms(3), of length] by (simp add: sym_path_length)
  note bs = sym_bounds [OF assms(1)] and bt = sym_bounds [OF assms(2)]
  let ?d = "sym_code t div 2 ^ length q"
  have "nbits (sym_bits s) ?d = nbits (sym_bits s) (sym_code s)"
    using assms(3) nbits_join [of "sym_bits s" "sym_code t" "length q"] unfolding sym_path_def n
    by (metis append_eq_append_conv length_nbits)
  moreover have "?d < 2 ^ sym_bits s"
    using bt(3) unfolding n power_add by (simp add: less_mult_imp_div_less)
  ultimately have d: "?d = sym_code s" using bs(3) nbits_inj by metis
  let ?u = "2 ^ (30 - sym_bits t) :: nat"
  have u: "2 ^ (30 - sym_bits s) = 2 ^ length q * ?u"
    using n bt(2) by (simp flip: power_add)
  have "?d * 2 ^ length q \<le> sym_code t" "sym_code t < (?d + 1) * 2 ^ length q"
    by (simp_all add: dividend_less_div_times)
  then have le: "sym_code s * 2 ^ length q * ?u \<le> sym_code t * ?u"
    "(sym_code t + 1) * ?u \<le> (sym_code s + 1) * 2 ^ length q * ?u"
    unfolding d by (intro mult_le_mono1, simp)+
  have lo: "span_lo (kTable ! s) = sym_code s * 2 ^ length q * ?u"
    "span_hi (kTable ! s) = (sym_code s + 1) * 2 ^ length q * ?u"
    using u by (simp_all add: span_lo_def span_hi_def sym_code_def sym_bits_def algebra_simps)
  have hi: "span_lo (kTable ! t) = sym_code t * ?u" "span_hi (kTable ! t) = (sym_code t + 1) * ?u"
    by (simp_all add: span_lo_def span_hi_def sym_code_def sym_bits_def)
  have "span_lo (kTable ! t) < span_hi (kTable ! t)" by (simp add: span_hi_def)
  then show False using sym_spans [OF assms(1,2) \<open>s \<noteq> t\<close>] le unfolding lo [symmetric] hi [symmetric]
    by linarith
qed

section \<open>The tree\<close>

text \<open>
  \<open>paths\<close> gives the bit string that leads to each node; \<open>S\<close> the symbol a bit string stands for.
\<close>

definition tree_rep :: "dec_node list \<Rightarrow> bool list list \<Rightarrow> (bool list \<rightharpoonup> nat) \<Rightarrow> bool" where
  "tree_rep nodes paths S \<longleftrightarrow> length paths = length nodes \<and> distinct paths \<and> paths \<noteq> [] \<and> paths ! 0 = []
     \<and> dom S \<subseteq> set paths \<and> (\<forall>q b. q @ [b] \<in> set paths \<longrightarrow> q \<in> set paths)
     \<and> (\<forall>i < length nodes. dn_symbol (nodes ! i) = (case S (paths ! i) of None \<Rightarrow> -1 | Some s \<Rightarrow> int s))
     \<and> (\<forall>i < length nodes. \<forall>b. child b (nodes ! i) = -1 \<and> paths ! i @ [b] \<notin> set paths
          \<or> (\<exists>j < length nodes. child b (nodes ! i) = int j \<and> paths ! j = paths ! i @ [b]))"

text \<open>A node by its path.\<close>

definition node_at :: "bool list list \<Rightarrow> bool list \<Rightarrow> int \<Rightarrow> bool" where
  "node_at paths p n \<longleftrightarrow> 0 \<le> n \<and> nat n < length paths \<and> paths ! nat n = p"

lemma node_at_unique: "distinct paths \<Longrightarrow> node_at paths p n \<Longrightarrow> node_at paths p m \<Longrightarrow> n = m"
  unfolding node_at_def by (metis eq_nat_nat_iff nth_eq_iff_index_eq)

lemma tree_rep_root: "tree_rep nodes paths S \<Longrightarrow> node_at paths [] 0"
  by (auto simp: tree_rep_def node_at_def)

lemma tree_rep_step:
  assumes "tree_rep nodes paths S" and "node_at paths p n"
  shows "huff_step nodes n b < 0 \<longleftrightarrow> p @ [b] \<notin> set paths"
    and "p @ [b] \<in> set paths \<Longrightarrow> node_at paths (p @ [b]) (huff_step nodes n b)"
proof -
  have "nat n < length nodes" using assms by (simp add: tree_rep_def node_at_def)
  then have "child b (nodes ! nat n) = -1 \<and> paths ! nat n @ [b] \<notin> set paths
      \<or> (\<exists>j < length nodes. child b (nodes ! nat n) = int j \<and> paths ! j = paths ! nat n @ [b])"
    using assms(1) unfolding tree_rep_def by blast
  then consider "huff_step nodes n b = -1" "p @ [b] \<notin> set paths"
    | j where "j < length paths" "huff_step nodes n b = int j" "paths ! j = p @ [b]"
    using assms by (auto simp: tree_rep_def node_at_def huff_step_def)
  then have "(huff_step nodes n b < 0 \<longleftrightarrow> p @ [b] \<notin> set paths)
      \<and> (p @ [b] \<in> set paths \<longrightarrow> node_at paths (p @ [b]) (huff_step nodes n b))"
    by cases (auto simp: node_at_def in_set_conv_nth)
  then show "huff_step nodes n b < 0 \<longleftrightarrow> p @ [b] \<notin> set paths"
    "p @ [b] \<in> set paths \<Longrightarrow> node_at paths (p @ [b]) (huff_step nodes n b)" by blast+
qed

lemma tree_rep_symbol:
  "tree_rep nodes paths S \<Longrightarrow> node_at paths p n \<Longrightarrow>
     huff_symbol nodes n = (case S p of None \<Rightarrow> -1 | Some s \<Rightarrow> int s)"
  by (auto simp: tree_rep_def node_at_def huff_symbol_def)

lemma child_set_child: "child b (set_child c n nd) = (if b = c then n else child b nd)"
  by (simp add: child_def set_child_def)

lemma symbol_set_child [simp]: "dn_symbol (set_child c n nd) = dn_symbol nd"
  by (simp add: set_child_def)

lemma child_init [simp]: "child b dec_node_init = -1"
  by (simp add: child_def dec_node_init_def)

lemma tree_rep_add:
  assumes rep: "tree_rep nodes paths S" and at: "node_at paths p cur" and new: "p @ [b] \<notin> set paths"
  defines "nodes1 \<equiv> (nodes @ [dec_node_init])[nat cur :=
      set_child b (int (length nodes)) ((nodes @ [dec_node_init]) ! nat cur)]"
  shows "tree_rep nodes1 (paths @ [p @ [b]]) S"
proof -
  let ?c = "nat cur" and ?n = "length nodes"
  have c: "?c < ?n" "paths ! ?c = p" "length paths = ?n" using rep at by (auto simp: tree_rep_def node_at_def)
  have nth: "nodes1 ! i = (if i = ?c then set_child b (int ?n) (nodes ! ?c)
      else if i = ?n then dec_node_init else nodes ! i)" if "i \<le> ?n" for i
    using that c(1) by (auto simp: nodes1_def nth_append nth_list_update)
  have pth: "(paths @ [p @ [b]]) ! i = (if i = ?n then p @ [b] else paths ! i)" if "i \<le> ?n" for i
    using that c(3) by (auto simp: nth_append)
  have kids: "child d (nodes ! i) = -1 \<and> paths ! i @ [d] \<notin> set paths
      \<or> (\<exists>j < ?n. child d (nodes ! i) = int j \<and> paths ! j = paths ! i @ [d])" if "i < ?n" for i d
    using rep that unfolding tree_rep_def by blast
  have inj: "paths ! i = p \<longleftrightarrow> i = ?c" if "i < ?n" for i
    using rep that c unfolding tree_rep_def by (metis nth_eq_iff_index_eq)
  have new2: "(p @ [b]) @ [d] \<notin> set paths" for d using rep new unfolding tree_rep_def by blast
  have S_new: "S (p @ [b]) = None" using rep new unfolding tree_rep_def by blast
  have kids1: "child d (nodes1 ! i) = -1 \<and> (paths @ [p @ [b]]) ! i @ [d] \<notin> set (paths @ [p @ [b]])
      \<or> (\<exists>j < length nodes1. child d (nodes1 ! i) = int j \<and> (paths @ [p @ [b]]) ! j = (paths @ [p @ [b]]) ! i @ [d])"
    if i: "i < length nodes1" for i d
  proof -
    have le: "i \<le> ?n" using i by (simp add: nodes1_def)
    consider "i = ?n" | "i < ?n" "i = ?c" "d = b" | "i < ?n" "\<not> (i = ?c \<and> d = b)" using le by linarith
    then show ?thesis
    proof cases
      case 1
      then show ?thesis using c(1) new2 by (simp add: nth pth)
    next
      case 2
      then show ?thesis using c by (intro disjI2 exI [of _ ?n]) (simp add: nth pth child_set_child, simp add: nodes1_def)
    next
      case 3
      then have ch: "child d (nodes1 ! i) = child d (nodes ! i)" "paths ! i @ [d] \<noteq> p @ [b]"
        using inj [OF 3(1)] by (auto simp: nth child_set_child)
      from kids [OF 3(1), of d] show ?thesis
      proof
        assume "\<exists>j < ?n. child d (nodes ! i) = int j \<and> paths ! j = paths ! i @ [d]"
        then obtain j where "j < ?n" "child d (nodes ! i) = int j" "paths ! j = paths ! i @ [d]" by blast
        then show ?thesis using ch(1) 3(1) by (intro disjI2 exI [of _ j]) (simp add: pth, simp add: nodes1_def)
      qed (use ch 3(1) in \<open>simp add: pth\<close>)
    qed
  qed
  have sym1: "dn_symbol (nodes1 ! i) = (case S ((paths @ [p @ [b]]) ! i) of None \<Rightarrow> -1 | Some s \<Rightarrow> int s)"
    if "i < length nodes1" for i
  proof -
    have "i \<le> ?n" using that by (simp add: nodes1_def)
    moreover have "i < ?n \<Longrightarrow> dn_symbol (nodes ! i) = (case S (paths ! i) of None \<Rightarrow> -1 | Some s \<Rightarrow> int s)"
      using rep unfolding tree_rep_def by blast
    ultimately show ?thesis using S_new c(1) by (auto simp: nth pth dec_node_init_def)
  qed
  have p: "p \<in> set paths" using c nth_mem [of ?c paths] by simp
  show ?thesis unfolding tree_rep_def
  proof (intro conjI allI impI)
    fix i d assume "i < length nodes1"
    then show "child d (nodes1 ! i) = -1 \<and> (paths @ [p @ [b]]) ! i @ [d] \<notin> set (paths @ [p @ [b]])
      \<or> (\<exists>j < length nodes1. child d (nodes1 ! i) = int j \<and> (paths @ [p @ [b]]) ! j = (paths @ [p @ [b]]) ! i @ [d])"
      by (rule kids1)
  next
    fix q d assume "q @ [d] \<in> set (paths @ [p @ [b]])"
    then show "q \<in> set (paths @ [p @ [b]])" using rep p by (auto simp: tree_rep_def)
  qed (use rep new sym1 in \<open>auto simp: tree_rep_def nodes1_def nth_append\<close>)
qed

lemma node_at_append: "node_at paths p n \<Longrightarrow> node_at (paths @ xs) p n"
  by (auto simp: node_at_def nth_append)

lemma node_at_last: "node_at (paths @ [p]) p (int (length paths))"
  by (simp add: node_at_def)

lemma insert_walk_rep:
  "tree_rep nodes paths S \<Longrightarrow> node_at paths p cur \<Longrightarrow> insert_walk k code cur nodes = (cur', nodes') \<Longrightarrow>
     \<exists>paths'. tree_rep nodes' paths' S \<and> node_at paths' (p @ nbits k code) cur'
       \<and> set paths' = set paths \<union> {p @ take m (nbits k code) |m. m \<le> k}"
proof (induction k arbitrary: cur nodes paths p)
  case 0
  then have "p \<in> set paths" by (auto simp: node_at_def)
  with 0 show ?case by auto
next
  case (Suc k)
  let ?b = "bit code k"
  have p: "p \<in> set paths" using Suc(3) by (auto simp: node_at_def)
  have ext: "{p @ take m (nbits (Suc k) code) |m. m \<le> Suc k}
      = {p} \<union> {(p @ [?b]) @ take m (nbits k code) |m. m \<le> k}" (is "?L = ?R")
  proof
    show "?L \<subseteq> ?R"
    proof
      fix x assume "x \<in> ?L"
      then obtain m where m: "m \<le> Suc k" "x = p @ take m (nbits (Suc k) code)" by blast
      then show "x \<in> ?R" by (cases m) auto
    qed
    show "?R \<subseteq> ?L"
    proof
      fix x assume "x \<in> ?R"
      then consider "x = p" | m where "m \<le> k" "x = (p @ [?b]) @ take m (nbits k code)" by blast
      then show "x \<in> ?L"
      proof cases
        case 1
        then show ?thesis by (intro CollectI exI [of _ 0]) simp
      next
        case 2
        then show ?thesis by (intro CollectI exI [of _ "Suc m"]) simp
      qed
    qed
  qed
  show ?case
  proof (cases "p @ [?b] \<in> set paths")
    case True
    then have "node_at paths (p @ [?b]) (huff_step nodes cur ?b)" "\<not> huff_step nodes cur ?b < 0"
      using tree_rep_step [OF Suc(2,3)] by auto
    then obtain paths' where "tree_rep nodes' paths' S" "node_at paths' ((p @ [?b]) @ nbits k code) cur'"
      "set paths' = set paths \<union> {(p @ [?b]) @ take m (nbits k code) |m. m \<le> k}"
      using Suc(1) [OF Suc(2), of "p @ [?b]"] Suc(4) by (auto simp: Let_def)
    then show ?thesis unfolding ext using p by (intro exI [of _ paths']) auto
  next
    case False
    let ?paths = "paths @ [p @ [?b]]"
    let ?nodes = "(nodes @ [dec_node_init])[nat cur :=
        set_child ?b (int (length nodes)) ((nodes @ [dec_node_init]) ! nat cur)]"
    have rep: "tree_rep ?nodes ?paths S" by (rule tree_rep_add [OF Suc(2,3) False])
    have "length paths = length nodes" using Suc(2) by (simp add: tree_rep_def)
    then have at: "node_at ?paths (p @ [?b]) (int (length nodes))" using node_at_last [of paths] by simp
    have "huff_step nodes cur ?b < 0" using tree_rep_step(1) [OF Suc(2,3)] False by simp
    then have w: "insert_walk k code (int (length nodes)) ?nodes = (cur', nodes')"
      using Suc(4) by (simp add: Let_def)
    from Suc(1) [OF rep at w] obtain paths' where "tree_rep nodes' paths' S"
      "node_at paths' ((p @ [?b]) @ nbits k code) cur'"
      "set paths' = set ?paths \<union> {(p @ [?b]) @ take m (nbits k code) |m. m \<le> k}" by blast
    moreover have "p @ [?b] \<in> {(p @ [?b]) @ take m (nbits k code) |m. m \<le> k}"
      by (intro CollectI exI [of _ 0]) simp
    ultimately show ?thesis unfolding ext using p by (intro exI [of _ paths']) auto
  qed
qed

lemma tree_rep_symbol_set:
  assumes "tree_rep nodes paths S" and "node_at paths p cur"
  shows "tree_rep (nodes[nat cur := (nodes ! nat cur)\<lparr>dn_symbol := int s\<rparr>]) paths (S(p \<mapsto> s))"
proof -
  let ?c = "nat cur" and ?nodes = "nodes[nat cur := (nodes ! nat cur)\<lparr>dn_symbol := int s\<rparr>]"
  have c: "?c < length nodes" "paths ! ?c = p" using assms by (auto simp: tree_rep_def node_at_def)
  have kids: "child b (?nodes ! i) = child b (nodes ! i)" if "i < length nodes" for i b
    using that by (cases "i = nat cur") (simp_all add: child_def)
  have inj: "paths ! i = p \<longleftrightarrow> i = ?c" if "i < length nodes" for i
    using assms(1) that c unfolding tree_rep_def by (metis nth_eq_iff_index_eq)
  have p: "p \<in> set paths" using assms(2) by (auto simp: node_at_def)
  have sym: "dn_symbol (?nodes ! i) = (case (S(p \<mapsto> s)) (paths ! i) of None \<Rightarrow> -1 | Some s \<Rightarrow> int s)"
    if "i < length nodes" for i
  proof (cases "i = ?c")
    case False
    then have "paths ! i \<noteq> p" using inj [OF that] by simp
    then show ?thesis using assms(1) that False unfolding tree_rep_def by simp
  qed (use c in simp)
  show ?thesis unfolding tree_rep_def
  proof (intro conjI allI impI)
    fix i b assume i: "i < length ?nodes"
    then show "child b (?nodes ! i) = -1 \<and> paths ! i @ [b] \<notin> set paths
        \<or> (\<exists>j < length ?nodes. child b (?nodes ! i) = int j \<and> paths ! j = paths ! i @ [b])"
      using assms(1) kids [of i b] unfolding tree_rep_def by simp
  qed (use assms(1) sym p in \<open>auto simp: tree_rep_def\<close>)
qed

lemma huff_insert_rep:
  assumes "tree_rep nodes paths S"
  shows "\<exists>paths'. tree_rep (huff_insert s code n nodes) paths' (S(nbits n code \<mapsto> s))
     \<and> set paths' = set paths \<union> {take m (nbits n code) |m. m \<le> n}"
proof -
  obtain cur nodes' where w: "insert_walk n code 0 nodes = (cur, nodes')" by fastforce
  from insert_walk_rep [OF assms tree_rep_root [OF assms] w] obtain paths' where
    r: "tree_rep nodes' paths' S" "node_at paths' (nbits n code) cur"
      "set paths' = set paths \<union> {take m (nbits n code) |m. m \<le> n}" by auto
  show ?thesis using tree_rep_symbol_set [OF r(1,2)] r(3) w by (auto simp: huff_insert_def)
qed

lemma sym_path_inj: "s < 257 \<Longrightarrow> t < 257 \<Longrightarrow> sym_path s = sym_path t \<Longrightarrow> s = t"
  using sym_prefix_free [of s t "[]"] by simp

text \<open>The symbol a bit string stands for, and the tree that represents it.\<close>

definition code_of :: "bool list \<rightharpoonup> nat" where
  "code_of p = List.find (\<lambda>s. sym_path s = p) [0..<257]"

lemma code_of_Some: "code_of p = Some s \<longleftrightarrow> s < 257 \<and> sym_path s = p"
proof
  assume "code_of p = Some s"
  then show "s < 257 \<and> sym_path s = p" by (auto simp: code_of_def find_Some_iff)
next
  assume s: "s < 257 \<and> sym_path s = p"
  have "code_of p \<noteq> None" using s by (auto simp: code_of_def find_None_iff)
  then obtain t where t: "code_of p = Some t" by blast
  then have "t < 257 \<and> sym_path t = p" by (auto simp: code_of_def find_Some_iff)
  then show "code_of p = Some s" using sym_path_inj s t by metis
qed

definition huff_rep :: "bool list list \<Rightarrow> bool" where
  "huff_rep paths \<longleftrightarrow> tree_rep huff_tree paths code_of
     \<and> set paths = {p. p = [] \<or> (\<exists>s<257. \<exists>q. sym_path s = p @ q)}"

lemma prefixes_take: "{take m xs |m. m \<le> length xs} = {p. \<exists>q. xs = p @ q}"
proof
  show "{take m xs |m. m \<le> length xs} \<subseteq> {p. \<exists>q. xs = p @ q}" by (auto intro: append_take_drop_id [symmetric])
  show "{p. \<exists>q. xs = p @ q} \<subseteq> {take m xs |m. m \<le> length xs}"
  proof
    fix p assume "p \<in> {p. \<exists>q. xs = p @ q}"
    then show "p \<in> {take m xs |m. m \<le> length xs}" by (intro CollectI exI [of _ "length p"]) auto
  qed
qed

lemma huff_tree_upto:
  "n \<le> 257 \<Longrightarrow> \<exists>paths S. tree_rep (fold (\<lambda>s. huff_insert s (sym_code s) (sym_bits s)) [0..<n] [dec_node_init]) paths S
     \<and> set paths = {p. p = [] \<or> (\<exists>s<n. \<exists>q. sym_path s = p @ q)}
     \<and> (\<forall>p s. S p = Some s \<longleftrightarrow> s < n \<and> sym_path s = p)"
proof (induction n)
  case 0
  have "tree_rep [dec_node_init] [[]] Map.empty" by (simp add: tree_rep_def dec_node_init_def child_def)
  then show ?case by (intro exI [of _ "[[]]"] exI [of _ Map.empty]) auto
next
  case (Suc n)
  then obtain paths S where rep: "tree_rep (fold (\<lambda>s. huff_insert s (sym_code s) (sym_bits s)) [0..<n] [dec_node_init]) paths S"
    and set: "set paths = {p. p = [] \<or> (\<exists>s<n. \<exists>q. sym_path s = p @ q)}"
    and S: "\<And>p s. S p = Some s \<longleftrightarrow> s < n \<and> sym_path s = p" by auto
  from huff_insert_rep [OF rep, of n "sym_code n" "sym_bits n"] obtain paths' where
    r: "tree_rep (fold (\<lambda>s. huff_insert s (sym_code s) (sym_bits s)) [0..<Suc n] [dec_node_init]) paths' (S(sym_path n \<mapsto> n))"
      "set paths' = set paths \<union> {take m (sym_path n) |m. m \<le> sym_bits n}"
    unfolding sym_path_def [symmetric] by auto
  have "set paths' = {p. p = [] \<or> (\<exists>s<Suc n. \<exists>q. sym_path s = p @ q)}"
    unfolding r(2) set prefixes_take [of "sym_path n", unfolded sym_path_length] by (auto simp: less_Suc_eq)
  moreover have "(S(sym_path n \<mapsto> n)) p = Some s \<longleftrightarrow> s < Suc n \<and> sym_path s = p" for p s
  proof -
    have "sym_path s = sym_path n \<Longrightarrow> s < n \<Longrightarrow> False" using sym_path_inj [of s n] Suc(2) by auto
    then show ?thesis using S [of p s] by (auto simp: less_Suc_eq)
  qed
  ultimately show ?case using r(1) by blast
qed

lemma huff_rep_exists: "\<exists>paths. huff_rep paths"
proof -
  from huff_tree_upto [of 257] obtain paths S where rep: "tree_rep huff_tree paths S"
    and set: "set paths = {p. p = [] \<or> (\<exists>s<257. \<exists>q. sym_path s = p @ q)}"
    and S: "\<And>p s. S p = Some s \<longleftrightarrow> s < 257 \<and> sym_path s = p"
    unfolding huff_tree_def by auto
  have "S p = code_of p" for p
    using S [of p] code_of_Some [of p] by (cases "S p"; cases "code_of p") auto
  then have "S = code_of" by blast
  with rep set show ?thesis by (auto simp: huff_rep_def)
qed

section \<open>The decoder\<close>

text \<open>The decoder after some symbols, inside the code of the next one.\<close>

definition dec_at :: "bool list list \<Rightarrow> bool list \<Rightarrow> bytes \<Rightarrow> huff_state \<Rightarrow> bool" where
  "dec_at paths p out st \<longleftrightarrow> node_at paths p (hs_node st) \<and> code_of p = None \<and> hs_pad_start_node st = 0
     \<and> hs_bit_count st = hs_pad_start_bit st + length p \<and> hs_out st = out"

lemma code_of_Nil [simp]: "code_of [] = None"
proof (rule ccontr)
  assume "code_of [] \<noteq> None"
  then obtain s where "s < 257" "sym_path s = []" by (auto simp: code_of_Some)
  then show False using sym_bounds(1) [of s] sym_path_length [of s] by simp
qed

lemma huff_bit_at:
  assumes "huff_rep paths" and "dec_at paths p out st"
  shows "p @ [b] \<notin> set paths \<Longrightarrow> huff_bit b st = None"
    and "p @ [b] \<in> set paths \<Longrightarrow> code_of (p @ [b]) = None \<Longrightarrow>
      \<exists>st'. huff_bit b st = Some st' \<and> dec_at paths (p @ [b]) out st'"
    and "code_of (p @ [b]) = Some 256 \<Longrightarrow> huff_bit b st = None"
    and "code_of (p @ [b]) = Some s \<Longrightarrow> s < 256 \<Longrightarrow>
      \<exists>st'. huff_bit b st = Some st' \<and> dec_at paths [] (out @ [of_nat s]) st'"
proof -
  have rep: "tree_rep huff_tree paths code_of" using assms(1) by (simp add: huff_rep_def)
  have at: "node_at paths p (hs_node st)" using assms(2) by (simp add: dec_at_def)
  note step = tree_rep_step [OF rep at, of b] and symb = tree_rep_symbol [OF rep]
  have dom: "code_of (p @ [b]) = Some s \<Longrightarrow> p @ [b] \<in> set paths" for s
    using rep by (auto simp: tree_rep_def)
  show "p @ [b] \<notin> set paths \<Longrightarrow> huff_bit b st = None" using step(1) by (simp add: huff_bit_def)
  show "\<exists>st'. huff_bit b st = Some st' \<and> dec_at paths (p @ [b]) out st'"
    if "p @ [b] \<in> set paths" "code_of (p @ [b]) = None"
    using that step symb [OF step(2)] assms(2) by (auto simp: huff_bit_def Let_def dec_at_def)
  show "huff_bit b st = None" if "code_of (p @ [b]) = Some 256"
    using dom [OF that] step symb [OF step(2)] that by (simp add: huff_bit_def Let_def)
  show "\<exists>st'. huff_bit b st = Some st' \<and> dec_at paths [] (out @ [of_nat s]) st'"
    if "code_of (p @ [b]) = Some s" "s < 256"
    using dom [OF that(1)] step symb [OF step(2)] that assms(2) tree_rep_root [OF rep]
    by (simp add: huff_bit_def Let_def dec_at_def)
qed

lemma huff_bits_append:
  "huff_bits (xs @ ys) st = (case huff_bits xs st of None \<Rightarrow> None | Some st \<Rightarrow> huff_bits ys st)"
  by (induction xs arbitrary: st) (simp_all split: option.split)

abbreviation all_bits :: "bytes \<Rightarrow> bool list" where
  "all_bits bs \<equiv> concat (map byte_bits bs)"

abbreviation codes :: "bytes \<Rightarrow> bool list" where
  "codes ss \<equiv> concat (map (\<lambda>ch. sym_path (unat ch)) ss)"

lemma huff_bytes_bits: "huff_bytes bs st = huff_bits (all_bits bs) st"
  by (induction bs arbitrary: st) (simp_all add: huff_bits_append split: option.split)

lemma unat_of_nat_sym [simp]: "s < 256 \<Longrightarrow> unat (of_nat s :: byte) = s"
  by (rule unat_of_nat_byte_small)

lemma huff_bits_sound:
  assumes "huff_rep paths"
  shows "dec_at paths p out st \<Longrightarrow> huff_bits bs st = Some st' \<Longrightarrow>
     \<exists>ss r. p @ bs = codes ss @ r \<and> dec_at paths r (out @ ss) st'"
proof (induction bs arbitrary: p out st)
  case Nil
  then show ?case by (intro exI [of _ "[]"] exI [of _ p]) simp
next
  case (Cons b bs)
  note at = huff_bit_at [OF assms Cons(2), of b]
  have mem: "p @ [b] \<in> set paths" using at(1) Cons(3) by (auto split: option.splits)
  show ?case
  proof (cases "code_of (p @ [b])")
    case None
    from at(2) [OF mem None] obtain st1 where s1: "huff_bit b st = Some st1" "dec_at paths (p @ [b]) out st1" by blast
    then show ?thesis using Cons(1) [OF s1(2)] Cons(3) by simp
  next
    case (Some s)
    then have s: "s < 257" "sym_path s = p @ [b]" by (auto simp: code_of_Some)
    have "s \<noteq> 256" using at(3) Some Cons(3) by (auto split: option.splits)
    then have s256: "s < 256" using s(1) by simp
    from at(4) [OF Some s256] obtain st1 where
      s1: "huff_bit b st = Some st1" "dec_at paths [] (out @ [of_nat s]) st1" by blast
    then obtain ss r where "bs = codes ss @ r" "dec_at paths r ((out @ [of_nat s]) @ ss) st'"
      using Cons(1) [OF s1(2)] Cons(3) by auto
    then show ?thesis using s s256 by (intro exI [of _ "of_nat s # ss"] exI [of _ r]) simp
  qed
qed

text \<open>Inside a code nothing is emitted; at its end the symbol is.\<close>

lemma huff_bits_inside:
  assumes "huff_rep paths" and "t < 257"
  shows "dec_at paths p out st \<Longrightarrow> sym_path t = p @ q @ rest \<Longrightarrow> rest \<noteq> [] \<Longrightarrow>
     \<exists>st'. huff_bits q st = Some st' \<and> dec_at paths (p @ q) out st'"
proof (induction q arbitrary: p st)
  case (Cons b q)
  have mem: "p @ [b] \<in> set paths" using assms Cons(3) by (auto simp: huff_rep_def intro!: exI [of _ t])
  have "code_of (p @ [b]) = None"
  proof (rule ccontr)
    assume "code_of (p @ [b]) \<noteq> None"
    then obtain s where s: "s < 257" "sym_path s = p @ [b]" by (auto simp: code_of_Some)
    then have "s = t" using sym_prefix_free [of s t "q @ rest"] assms(2) Cons(3) by simp
    then show False using s(2) Cons(3,4) by simp
  qed
  from huff_bit_at(2) [OF assms(1) Cons(2) mem this] obtain st1 where
    s1: "huff_bit b st = Some st1" "dec_at paths (p @ [b]) out st1" by blast
  then show ?case using Cons(1) [OF s1(2)] Cons(3,4) by simp
qed simp

lemma huff_bits_symbol:
  assumes "huff_rep paths" and "dec_at paths [] out st"
  shows "\<exists>st'. huff_bits (sym_path (unat ch)) st = Some st' \<and> dec_at paths [] (out @ [ch]) st'"
proof -
  let ?s = "unat ch"
  have s: "?s < 256" "?s < 257" using unat_byte_less [of ch] by linarith+
  have "sym_path ?s \<noteq> []" using sym_bounds(1) [OF s(2)] sym_path_length [of ?s] by auto
  then obtain q b where q: "sym_path ?s = q @ [b]" by (meson rev_exhaust)
  from huff_bits_inside [OF assms(1) s(2) assms(2), of q "[b]"] q obtain st1 where
    s1: "huff_bits q st = Some st1" "dec_at paths q out st1" by auto
  have "code_of (q @ [b]) = Some ?s" using s q by (simp add: code_of_Some)
  from huff_bit_at(4) [OF assms(1) s1(2) this s(1)] s1(1) show ?thesis
    by (auto simp: q huff_bits_append)
qed

lemma huff_bits_codes:
  assumes "huff_rep paths"
  shows "dec_at paths [] out st \<Longrightarrow>
     \<exists>st'. huff_bits (codes ss) st = Some st' \<and> dec_at paths [] (out @ ss) st'"
proof (induction ss arbitrary: out st)
  case (Cons ch ss)
  from huff_bits_symbol [OF assms Cons(2), of ch] obtain st1 where
    s1: "huff_bits (sym_path (unat ch)) st = Some st1" "dec_at paths [] (out @ [ch]) st1" by blast
  from Cons(1) [OF s1(2)] s1(1) show ?case by (auto simp: huff_bits_append)
qed simp

subsection \<open>Padding\<close>

lemma nbits_ones: "m \<le> n \<Longrightarrow> nbits m (2 ^ n - 1) = replicate m True"
proof -
  have "m \<le> n \<Longrightarrow> nbits m (mask n) = replicate m True" by (induction m) (simp_all add: bit_mask_iff)
  then show "m \<le> n \<Longrightarrow> ?thesis" by (simp only: mask_eq_exp_minus_1)
qed

lemma sym_path_EOS: "sym_path 256 = replicate 30 True"
proof -
  have "sym_bits 256 = 30" "sym_code 256 = 2 ^ 30 - 1" by (simp_all add: sym_bits_def sym_code_def kTable_def)
  then show ?thesis using nbits_ones [of 30 30] by (simp only: sym_path_def)
qed

lemma ones_walk_sound:
  assumes "huff_rep paths"
  shows "node_at paths p n \<Longrightarrow> ones_walk k n = Some m \<Longrightarrow> node_at paths (p @ replicate k True) m"
proof (induction k arbitrary: p n)
  case (Suc k)
  have rep: "tree_rep huff_tree paths code_of" using assms by (simp add: huff_rep_def)
  have nn: "\<not> huff_step huff_tree n True < 0" using Suc(3) by (auto simp: Let_def)
  then have "node_at paths (p @ [True]) (huff_step huff_tree n True)" using tree_rep_step [OF rep Suc(2), of True] by blast
  from Suc(1) [OF this] Suc(3) nn show ?case by (simp add: Let_def)
qed simp

lemma ones_walk_total:
  assumes "huff_rep paths"
  shows "node_at paths p n \<Longrightarrow> p @ replicate k True @ rest = sym_path 256 \<Longrightarrow> \<exists>m. ones_walk k n = Some m"
proof (induction k arbitrary: p n)
  case (Suc k)
  have rep: "tree_rep huff_tree paths code_of" using assms by (simp add: huff_rep_def)
  have "p @ [True] \<in> set paths"
    using assms by (auto simp: huff_rep_def Suc(3) [symmetric] intro!: exI [of _ 256])
  then have "node_at paths (p @ [True]) (huff_step huff_tree n True)" "\<not> huff_step huff_tree n True < 0"
    using tree_rep_step [OF rep Suc(2), of True] by auto
  then show ?case using Suc(1) [of "p @ [True]"] Suc(3) by (simp add: Let_def)
qed simp

text \<open>What the decoder accepts: codes, then fewer than eight one bits.\<close>

lemma huffman_decode_bits:
  "huffman_decode input out = Some out' \<longleftrightarrow>
     (\<exists>ss k. k < 8 \<and> all_bits input = codes ss @ replicate k True \<and> out' = out @ ss)"
proof -
  obtain paths where paths: "huff_rep paths" using huff_rep_exists by blast
  then have rep: "tree_rep huff_tree paths code_of" by (simp add: huff_rep_def)
  then have dist: "distinct paths" by (simp add: tree_rep_def)
  let ?st = "\<lparr>hs_node = 0, hs_bit_count = 0, hs_pad_start_node = 0, hs_pad_start_bit = 0, hs_out = out\<rparr>"
  note root = tree_rep_root [OF rep]
  have start: "dec_at paths [] out ?st" using root by (simp add: dec_at_def)
  have zero: "hs_node st = 0 \<longleftrightarrow> r = []" if "dec_at paths r o' st" for r o' st
    using that node_at_unique [OF dist root] root by (auto simp: dec_at_def node_at_def)
  show ?thesis
  proof
    assume d: "huffman_decode input out = Some out'"
    then obtain st where st: "huff_bits (all_bits input) ?st = Some st"
      by (auto simp: huffman_decode_def huff_bytes_bits split: option.splits)
    from huff_bits_sound [OF paths start st] obtain ss r where
      r: "all_bits input = codes ss @ r" "dec_at paths r (out @ ss) st" by auto
    have out': "out' = out @ ss" using d st r(2)
      by (auto simp: huffman_decode_def huff_bytes_bits dec_at_def Let_def split: option.splits if_splits)
    have "length r < 8 \<and> r = replicate (length r) True"
    proof (cases "r = []")
      case False
      then have "hs_node st \<noteq> 0" using zero [OF r(2)] by simp
      then have "length r \<le> 7" "ones_walk (length r) 0 = Some (hs_node st)"
        using d st r(2)
        by (auto simp: huffman_decode_def huff_bytes_bits dec_at_def Let_def split: option.splits if_splits)
      moreover from this(2) have "node_at paths (replicate (length r) True) (hs_node st)"
        using ones_walk_sound [OF paths root] by fastforce
      ultimately show ?thesis using r(2) by (auto simp: dec_at_def node_at_def)
    qed simp
    then show "\<exists>ss k. k < 8 \<and> all_bits input = codes ss @ replicate k True \<and> out' = out @ ss"
      using r(1) out' by metis
  next
    assume "\<exists>ss k. k < 8 \<and> all_bits input = codes ss @ replicate k True \<and> out' = out @ ss"
    then obtain ss k where k: "k < 8" "all_bits input = codes ss @ replicate k True" "out' = out @ ss" by blast
    from huff_bits_codes [OF paths start] obtain st1 where
      s1: "huff_bits (codes ss) ?st = Some st1" "dec_at paths [] (out @ ss) st1" by blast
    have eos: "sym_path 256 = replicate k True @ replicate (30 - k) True"
      using k(1) by (simp add: sym_path_EOS flip: replicate_add)
    from huff_bits_inside [OF paths _ s1(2), of 256 "replicate k True" "replicate (30 - k) True"] eos k(1)
    obtain st where st: "huff_bits (replicate k True) st1 = Some st" "dec_at paths (replicate k True) (out @ ss) st"
      by auto
    have run: "huff_bytes input ?st = Some st"
      using s1(1) st(1) by (simp add: huff_bytes_bits k(2) huff_bits_append)
    from ones_walk_total [OF paths root, of k "replicate (30 - k) True"] eos obtain m where
      m: "ones_walk k 0 = Some m" by auto
    have "m = hs_node st"
      using ones_walk_sound [OF paths root m] st(2) node_at_unique [OF dist] by (auto simp: dec_at_def)
    then show "huffman_decode input out = Some out'"
      using run m k st(2) by (auto simp: huffman_decode_def dec_at_def)
  qed
qed

section \<open>The encoder\<close>

lemma nbits_cong: "(\<And>j. j < n \<Longrightarrow> bit v j = bit w j) \<Longrightarrow> nbits n v = nbits n w"
  by (induction n) simp_all

lemma bit_of_nat_byte: "bit (of_nat x :: byte) j \<longleftrightarrow> j < 8 \<and> bit x j"
  by (simp add: bit_simps)

lemma byte_bits_of_nat: "byte_bits (of_nat x) = nbits 8 x"
  by (simp add: byte_bits_def bit_of_nat_byte eval_nat_numeral)

lemma byte_bits_low: "byte_bits (of_nat (x AND 0xFF)) = nbits 8 x"
  using nbits_mod [of 8 8 x] by (simp add: byte_bits_of_nat and_255_mod)

lemma nbits_or:
  assumes "m + n \<le> 64" and "c < 2 ^ n"
  shows "nbits (m + n) ((push_bit n buf mod 2 ^ 64) OR c) = nbits m buf @ nbits n c"
proof -
  define x where "x = take_bit 64 (push_bit n buf) OR c"
  have "nbits m (drop_bit n x) = nbits m buf"
  proof (rule nbits_cong)
    fix j assume j: "j < m"
    have "\<not> bit c (n + j)" using assms(2) nat_bit_bound [of c n "n + j"] by auto
    then show "bit (drop_bit n x) j = bit buf j"
      using assms(1) j by (simp add: x_def bit_simps)
  qed
  moreover have "nbits n x = nbits n c" by (rule nbits_cong) (auto simp: x_def bit_simps)
  ultimately show ?thesis
    using nbits_join [of m x n] unfolding drop_bit_eq_div x_def take_bit_eq_mod by simp
qed

lemma flush_bits_all:
  "flush_bits buf held out = (held', out') \<Longrightarrow>
     held' < 8 \<and> all_bits out' @ nbits held' buf = all_bits out @ nbits held buf"
proof (induction buf held out rule: flush_bits.induct)
  case (1 buf held out)
  show ?case
  proof (cases "held \<ge> 8")
    case True
    let ?b = "of_nat (drop_bit (held - 8) buf AND 0xFF) :: byte"
    have "nbits 8 (buf div 2 ^ (held - 8)) @ nbits (held - 8) buf = nbits held buf"
      using nbits_join [of 8 buf "held - 8"] True by simp
    then have "byte_bits ?b @ nbits (held - 8) buf = nbits held buf"
      unfolding byte_bits_low drop_bit_eq_div .
    moreover have "flush_bits buf (held - 8) (out @ [?b]) = (held', out')"
      using 1(2) True by (subst (asm) flush_bits.simps) simp
    ultimately show ?thesis using 1(1) [OF True] by simp
  next
    case False
    then show ?thesis using 1(2) by (subst (asm) flush_bits.simps) auto
  qed
qed

lemma encode_symbols_all:
  "held < 8 \<Longrightarrow> encode_symbols input buf held out = (buf', held', out') \<Longrightarrow>
     held' < 8 \<and> all_bits out' @ nbits held' buf' = all_bits out @ nbits held buf @ codes input"
proof (induction input buf held out rule: encode_symbols.induct)
  case (2 ch input buf held out)
  let ?s = "unat ch"
  let ?buf = "(push_bit (sym_bits ?s) buf mod 2 ^ 64) OR sym_code ?s"
  obtain h1 o1 where f: "flush_bits ?buf (held + sym_bits ?s) out = (h1, o1)" by fastforce
  have "?s < 257" using unat_byte_less [of ch] by linarith
  note b = sym_bounds [OF this]
  have "nbits (held + sym_bits ?s) ?buf = nbits held buf @ sym_path ?s"
    unfolding sym_path_def by (rule nbits_or) (use b 2(2) in simp_all)
  with flush_bits_all [OF f] have
    h1: "h1 < 8" "all_bits o1 @ nbits h1 ?buf = all_bits out @ nbits held buf @ sym_path ?s" by simp_all
  have e: "encode_symbols input ?buf h1 o1 = (buf', held', out')" using 2(3) f by (simp add: Let_def)
  from 2(1) [OF refl f [symmetric] refl h1(1) e] show ?case using h1(2) by simp
qed simp

lemma huffman_encode_bits:
  "\<exists>k. k < 8 \<and> all_bits (huffman_encode input out) = all_bits out @ codes input @ replicate k True"
proof -
  obtain buf held out1 where e: "encode_symbols input 0 0 out = (buf, held, out1)"
    by (cases "encode_symbols input 0 0 out") auto
  from encode_symbols_all [OF _ e] have held: "held < 8"
    and bits: "all_bits out1 @ nbits held buf = all_bits out @ codes input" by simp_all
  show ?thesis
  proof (cases "held > 0")
    case True
    have "nbits (held + (8 - held)) ((push_bit (8 - held) buf mod 2 ^ 64) OR (2 ^ (8 - held) - 1))
        = nbits held buf @ nbits (8 - held) (2 ^ (8 - held) - 1)"
      by (rule nbits_or) (use held in simp_all)
    then have "byte_bits (of_nat (((push_bit (8 - held) buf mod 2 ^ 64) OR (2 ^ (8 - held) - 1)) AND 0xFF))
        = nbits held buf @ replicate (8 - held) True"
      unfolding byte_bits_low using held nbits_ones [of "8 - held" "8 - held"] by simp
    then have "all_bits (huffman_encode input out) = all_bits out1 @ nbits held buf @ replicate (8 - held) True"
      using True e by (simp add: huffman_encode_def Let_def)
    then show ?thesis using bits True by (intro exI [of _ "8 - held"]) simp
  next
    case False
    then show ?thesis using e bits by (intro exI [of _ 0]) (simp add: huffman_encode_def)
  qed
qed

lemma byte_bits_inj: "byte_bits b = byte_bits c \<longleftrightarrow> b = c"
proof
  assume "byte_bits b = byte_bits c"
  then have "nbits 8 (unat b) = nbits 8 (unat c)"
    using byte_bits_of_nat [of "unat b"] byte_bits_of_nat [of "unat c"] by simp
  then have "unat b = unat c" using nbits_inj [of "unat b" 8 "unat c"] by simp
  then show "b = c" by (rule unsigned_word_eqI)
qed simp

lemma length_byte_bits [simp]: "length (byte_bits b) = 8"
  by (simp add: byte_bits_def)

lemma byte_bits_not_Nil [simp]: "byte_bits b \<noteq> []"
  by (simp add: byte_bits_def)

lemma length_all_bits: "length (all_bits bs) = 8 * length bs"
  by (induction bs) simp_all

lemma all_bits_inj: "all_bits xs = all_bits ys \<Longrightarrow> xs = ys"
proof (induction xs arbitrary: ys)
  case Nil
  then show ?case by (cases ys) auto
next
  case (Cons x xs)
  then obtain y zs where "ys = y # zs" by (cases ys) auto
  then show ?case using Cons by (simp add: byte_bits_inj)
qed

text \<open>Padding is determined by the length.\<close>

lemma padded_unique:
  assumes "length xs = 8 * a" and "length ys = 8 * b"
    and "xs = c @ replicate k True" and "ys = c @ replicate m True" and "k < 8" and "m < (8::nat)"
  shows "xs = ys"
proof -
  have "length c + k = 8 * a" "length c + m = 8 * b" using assms(1-4) by auto
  then have "k = m" using assms(5,6) by presburger
  then show ?thesis using assms(3,4) by simp
qed

lemma huffman_encode_append: "huffman_encode s out = out @ huffman_encode s []"
proof -
  obtain k m where k: "k < 8" "all_bits (huffman_encode s out) = (all_bits out @ codes s) @ replicate k True"
    and m: "m < 8" "all_bits (out @ huffman_encode s []) = (all_bits out @ codes s) @ replicate m True"
    using huffman_encode_bits [of s out] huffman_encode_bits [of s "[]"] by auto
  have "all_bits (huffman_encode s out) = all_bits (out @ huffman_encode s [])"
    by (rule padded_unique [OF length_all_bits length_all_bits k(2) m(2) k(1) m(1)])
  then show ?thesis by (rule all_bits_inj)
qed

lemma huffman_encode_length: "length (huffman_encode s []) = huffman_encoded_size s"
proof -
  have "length (codes s) = (\<Sum>ch\<leftarrow>s. sym_bits (unat ch))"
    by (simp add: length_concat sym_path_length comp_def)
  moreover obtain k where "k < 8" "all_bits (huffman_encode s []) = codes s @ replicate k True"
    using huffman_encode_bits [of s "[]"] by auto
  ultimately have "8 * length (huffman_encode s []) = (\<Sum>ch\<leftarrow>s. sym_bits (unat ch)) + k" "k < 8"
    using length_all_bits [of "huffman_encode s []"] by simp_all
  moreover have "n = (x + 7) div 8" if "8 * n = x + k" and "k < 8" for n x k :: nat using that by linarith
  ultimately show ?thesis unfolding huffman_encoded_size_def by blast
qed

lemma huffman_inverse: "huffman_decode (huffman_encode s []) [] = Some s"
proof -
  obtain k where "k < 8" "all_bits (huffman_encode s []) = codes s @ replicate k True"
    using huffman_encode_bits [of s "[]"] by auto
  then show ?thesis by (auto simp: huffman_decode_bits)
qed

text \<open>C10. The decoder accepts a byte string exactly when the encoder produces it, and returns the string it was
  produced from: decoding inverts encoding, no other byte string is accepted, and what is decoded is
  appended to the caller's string.\<close>

theorem huffman_decode_iff_encode:
  "huffman_decode input out = Some out' \<longleftrightarrow> (\<exists>s. input = huffman_encode s [] \<and> out' = out @ s)"
proof
  assume "huffman_decode input out = Some out'"
  then obtain ss k where k: "k < 8" "all_bits input = codes ss @ replicate k True" "out' = out @ ss"
    by (auto simp: huffman_decode_bits)
  obtain m where m: "m < 8" "all_bits (huffman_encode ss []) = codes ss @ replicate m True"
    using huffman_encode_bits [of ss "[]"] by auto
  have "all_bits input = all_bits (huffman_encode ss [])"
    by (rule padded_unique [OF length_all_bits length_all_bits k(2) m(2) k(1) m(1)])
  then show "\<exists>s. input = huffman_encode s [] \<and> out' = out @ s" using all_bits_inj k(3) by blast
next
  assume "\<exists>s. input = huffman_encode s [] \<and> out' = out @ s"
  then obtain s where s: "input = huffman_encode s []" "out' = out @ s" by blast
  obtain k where "k < 8" "all_bits (huffman_encode s []) = codes s @ replicate k True"
    using huffman_encode_bits [of s "[]"] by auto
  then show "huffman_decode input out = Some out'" using s by (auto simp: huffman_decode_bits)
qed

end
