(* ===== verification/Spec2Isabelle.thy ===== *)
theory Spec2Isabelle
  imports StreamSend ConnWire ConnAmp ConnTimer HuffmanCode
begin

text \<open>
  A verification library for libspaznet, a C++ network server library. Paths below are relative to
  \<open>src/\<close>.

  \<^bold>\<open>The program.\<close> The library runs protocol dispatchers on an event loop. The part with the most state
  is its QUIC transport, \<open>example/quic-http3/src/quic\<close>. A \<open>Connection\<close> receives datagrams from a
  listener, carves them into packets (\<open>packet.cpp\<close>), removes their protection (\<open>crypto.cpp\<close>), parses
  the frames (\<open>frame.cpp\<close>, \<open>varint.cpp\<close>) and hands them to streams (\<open>stream.cpp\<close>), to the TLS engine
  (\<open>tls.cpp\<close>, \<open>transport_params.cpp\<close>), to acknowledgement tracking (\<open>pn_space.cpp\<close>), loss recovery
  (\<open>recovery.cpp\<close>) and congestion control (\<open>congestion.cpp\<close>). A timer and every datagram make it build
  packets from what those parts have to send.

  \<^bold>\<open>Theories and source files.\<close>
  \<^item> \<open>Prelude\<close>: bytes, wrapping 64-bit arithmetic (\<open>uadd\<close>, \<open>usub\<close>, \<open>umul\<close>), and the locales \<open>wire_codec\<close>
    and \<open>wire_loop\<close> that state what a codec promises to a parser above it.
  \<^item> \<open>VarInt\<close>: \<open>varint.cpp\<close>. \<open>Frame\<close>: \<open>frame.cpp\<close>, \<open>frame.hpp\<close>. \<open>TransportParams\<close>: \<open>transport_params.cpp\<close>.
    Round trips, and that whatever is accepted can be encoded again.
  \<^item> \<open>PnSpace\<close>: \<open>pn_space.cpp\<close>, as a refinement of a set of packet numbers (locale \<open>pn_tracker\<close>).
  \<^item> \<open>Recovery\<close>: \<open>recovery.cpp\<close>. \<open>Congestion\<close>: \<open>congestion.cpp\<close> (locale \<open>flight_account\<close>).
  \<^item> \<open>Stream\<close>: \<open>stream.cpp\<close>; \<open>Reassembly\<close> with the locale \<open>reassembler\<close>, \<open>StreamRecv\<close> and \<open>StreamSend\<close> with
    the proofs for the two directions.
  \<^item> \<open>Crypto\<close>: \<open>crypto.cpp\<close>. \<open>Packet\<close>: \<open>packet.cpp\<close>. \<open>Tls\<close>: \<open>tls.cpp\<close>.
  \<^item> \<open>OrdMap\<close>: \<open>std::map\<close> as an ordered association list.
  \<^item> \<open>Connection\<close>, \<open>ConnRecv\<close>, \<open>ConnSend\<close>: \<open>connection.cpp\<close>, \<open>connection.hpp\<close>; the state, the receiving half,
    the sending half with \<open>on_datagram\<close> and \<open>on_timer\<close>, and the step relation \<open>conn_step\<close> of everything the
    owner of a connection can do.
  \<^item> \<open>ConnInv\<close>: locales that reduce an invariant of runs to the primitive state changes.
    \<open>ConnFlow\<close>, \<open>ConnClose\<close>, \<open>ConnAmp\<close> interpret them for flow control, closing and the limit on bytes to
    unvalidated addresses; \<open>ConnTimer\<close> for the end of the timer's loops. \<open>ConnWire\<close> follows a malformed datagram byte by byte.
  \<^item> \<open>Huffman\<close>: \<open>src/codec/huffman.cpp\<close>, the string code that HTTP header compression uses, with the shape of
    its table. \<open>HuffmanCode\<close>: the table is a prefix code, the node array represents it, and the decoder
    accepts exactly what the encoder produces.

  \<^bold>\<open>How the code is modelled.\<close> A class is a record, a member function takes the record and returns it
  updated. \<open>uint64_t\<close> and \<open>size_t\<close> are \<open>nat\<close>, with \<open>uadd\<close>, \<open>usub\<close>, \<open>umul\<close> where the C++ operation can wrap;
  bytes are \<open>8 word\<close>; signed durations are \<open>int\<close> with \<open>chk64\<close>, whose \<open>None\<close> is signed overflow. \<open>None\<close> is a
  parser's \<open>false\<close>, an exception, or undefined behaviour such as an access outside a buffer; each
  definition says which.

  \<^bold>\<open>Parameters.\<close> OpenSSL is the record \<open>crypto_lib\<close>: the answer of each EVP call as a function of the calls
  made on its context, with the sizes as the C \<open>int\<close> the code casts them to (\<open>to_int\<close>). \<open>evp_documented\<close>
  states its documented behaviour relative to an abstract AEAD, and only for documented uses
  (\<open>evp_well_used\<close>): a context reads as many key and IV bytes as its cipher and the IV length set on it say,
  and a call with a key or a nonce of another length, or with a negative size, has no promised answer.
  It is a hypothesis of the theorems about sealing and opening, and \<open>demo_lib\<close> satisfies it. One run of the
  TLS handshake engine is an input (\<open>handshake_run\<close>), and so is every reading of the clock (\<open>ev_clock\<close>), so
  the theorems about runs hold for every engine and every clock.

  \<^bold>\<open>Loops and fuel.\<close> Every loop of the code with a bound is a terminating function. The loops
  \<open>while (build_and_send(lvl)) {}\<close> of \<open>on_timer\<close> have none; \<open>send_all\<close> takes fuel and returns \<open>Some None\<close>
  when it is used up, and \<open>ConnTimer\<close> shows that in every reachable state enough fuel gives a result, which
  more fuel does not change.

  \<^bold>\<open>Not modelled.\<close> The event loop, the platform multiplexers, the server and the dispatchers are system
  calls, threads and coroutines. The TCP TLS stream and the creation of TLS contexts are calls of
  OpenSSL. The QUIC listener and the codecs above the transport (HTTP/3 frames, QPACK, HTTP/1.1, HTTP/2,
  WebSocket) and their string helpers are clients of the parts modelled here and are left out. The
  logger and the demo programs only produce output.
\<close>

end
